(* ===== verification/Kazu_Prelude.thy ===== *)
theory Kazu_Prelude
  imports Main "HOL-Library.Word" "HOL-Library.Multiset" "HOL-Library.Code_Target_Nat"
begin

unbundle bit_operations_syntax

text \<open>
  Vocabulary shared by all component theories of the KazuOS verification library.

  \<^item> Rust's machine integers are words of their width (\<open>u8\<close> to \<open>u64\<close>). Plain \<open>+\<close>, \<open>-\<close> and
    \<open>*\<close> wrap as in the release build; \<open>checked_add\<close>, \<open>saturating_add\<close> and their kin are the
    functions of the same names in Rust's \<open>core\<close>.
  \<^item> A \<open>Vec\<close> or slice is a list; \<open>iter().position\<close>, \<open>iter_mut().find\<close> followed by a
    mutation, \<open>swap_remove\<close> and \<open>resize\<close> are the list functions below.
  \<^item> Lengths and indices (\<open>usize\<close>) are \<open>nat\<close>; the component theories state the bounds under
    which a conversion to \<open>u64\<close> is exact.
  \<^item> Little-endian encodings are \<open>to_le\<close> and \<open>from_le\<close>.
\<close>

section \<open>Machine integers\<close>

type_synonym u8 = "8 word"
type_synonym u16 = "16 word"
type_synonym u32 = "32 word"
type_synonym u64 = "64 word"

abbreviation u64_max :: u64 where
  "u64_max \<equiv> 0xFFFFFFFFFFFFFFFF"

definition checked_add :: "u64 \<Rightarrow> u64 \<Rightarrow> u64 option" where
  "checked_add a b = (if unat a + unat b < 2 ^ 64 then Some (a + b) else None)"

definition checked_mul :: "u64 \<Rightarrow> u64 \<Rightarrow> u64 option" where
  "checked_mul a b = (if unat a * unat b < 2 ^ 64 then Some (a * b) else None)"

definition saturating_add :: "u64 \<Rightarrow> u64 \<Rightarrow> u64" where
  "saturating_add a b = (if unat a + unat b < 2 ^ 64 then a + b else u64_max)"

definition saturating_sub :: "u64 \<Rightarrow> u64 \<Rightarrow> u64" where
  "saturating_sub a b = (if b \<le> a then a - b else 0)"

definition saturating_mul :: "u64 \<Rightarrow> u64 \<Rightarrow> u64" where
  "saturating_mul a b = (if unat a * unat b < 2 ^ 64 then a * b else u64_max)"

text \<open>Rust's \<open>div_ceil\<close>: the quotient, plus one when there is a remainder.\<close>

definition div_ceil :: "nat \<Rightarrow> nat \<Rightarrow> nat" where
  "div_ceil a b = (if a mod b = 0 then a div b else a div b + 1)"

named_theorems arith_defs \<open>definitions of the checked and saturating operations\<close>

declare checked_add_def [arith_defs] checked_mul_def [arith_defs] saturating_add_def [arith_defs]
  saturating_sub_def [arith_defs] saturating_mul_def [arith_defs]

lemma unat_add_exact: "unat a + unat b < 2 ^ 64 \<Longrightarrow> unat (a + b) = unat a + unat (b :: u64)"
  by (simp add: unat_word_ariths)

lemma unat_mult_exact: "unat a * unat b < 2 ^ 64 \<Longrightarrow> unat (a * b) = unat a * unat (b :: u64)"
  by (simp add: unat_word_ariths)

lemma checked_add_Some_iff:
  "checked_add a b = Some c \<longleftrightarrow> unat a + unat b < 2 ^ 64 \<and> c = a + b"
  by (auto simp: checked_add_def)

lemma checked_add_SomeD: "checked_add a b = Some c \<Longrightarrow> unat c = unat a + unat b"
  by (auto simp: checked_add_Some_iff unat_add_exact)

lemma unat_saturating_add: "unat (saturating_add a b) = min (unat a + unat b) (2 ^ 64 - 1)"
  by (auto simp: saturating_add_def unat_add_exact)

lemma unat_saturating_sub: "unat (saturating_sub a b) = unat a - unat b"
  by (auto simp: saturating_sub_def word_le_nat_alt unat_sub)

lemma saturating_sub_add_cancel:
  "unat a + unat b < 2 ^ 64 \<Longrightarrow> saturating_sub (saturating_add a b) b = a"
  by (simp add: saturating_sub_def saturating_add_def word_le_nat_alt unat_add_exact)

lemma div_ceil_bounds:
  assumes "0 < b"
  shows "a \<le> div_ceil a b * b" and "div_ceil a b * b < a + b"
proof -
  obtain q r where qr: "q = a div b" "r = a mod b" "q * b + r = a" "r < b"
    using assms by simp
  have "div_ceil a b * b = q * b + (if r = 0 then 0 else b)"
    by (simp add: div_ceil_def qr(1,2) add_mult_distrib)
  with qr(3,4) show "a \<le> div_ceil a b * b" and "div_ceil a b * b < a + b"
    by (auto split: if_splits)
qed

lemma div_ceil_mult [simp]: "0 < b \<Longrightarrow> div_ceil (n * b) b = n"
  by (simp add: div_ceil_def)

lemma div_ceil_pos: "0 < b \<Longrightarrow> 0 < a \<Longrightarrow> 0 < div_ceil a b"
  using div_ceil_bounds(1)[of b a] by (cases "div_ceil a b") auto

section \<open>Vectors and slices\<close>

text \<open>\<open>iter().position(p)\<close>.\<close>

primrec position :: "('a \<Rightarrow> bool) \<Rightarrow> 'a list \<Rightarrow> nat option" where
  "position P [] = None"
| "position P (x # xs) = (if P x then Some 0 else map_option Suc (position P xs))"

text \<open>\<open>if let Some(x) = v.iter_mut().find(p)\<close> followed by a mutation \<open>f\<close> of \<open>x\<close>.\<close>

primrec update_first :: "('a \<Rightarrow> bool) \<Rightarrow> ('a \<Rightarrow> 'a) \<Rightarrow> 'a list \<Rightarrow> 'a list" where
  "update_first P f [] = []"
| "update_first P f (x # xs) = (if P x then f x # xs else x # update_first P f xs)"

text \<open>\<open>Vec::swap_remove\<close>: the last element moves into the hole.\<close>

definition swap_remove :: "nat \<Rightarrow> 'a list \<Rightarrow> 'a list" where
  "swap_remove i xs =
     (if i + 1 = length xs then butlast xs else (butlast xs)[i := last xs])"

text \<open>\<open>Vec::resize(n, v)\<close>.\<close>

definition resize :: "'a list \<Rightarrow> nat \<Rightarrow> 'a \<Rightarrow> 'a list" where
  "resize xs n v = take n xs @ replicate (n - length xs) v"

text \<open>\<open>slice.get(a..b)\<close>: \<open>None\<close> when the range is out of bounds.\<close>

definition get_range :: "'a list \<Rightarrow> nat \<Rightarrow> nat \<Rightarrow> 'a list option" where
  "get_range xs a b = (if a \<le> b \<and> b \<le> length xs then Some (take (b - a) (drop a xs)) else None)"

text \<open>\<open>dst[a..a + src.len()].copy_from_slice(src)\<close> on a range that is in bounds.\<close>

definition splice :: "'a list \<Rightarrow> nat \<Rightarrow> 'a list \<Rightarrow> 'a list" where
  "splice dst a src = take a dst @ src @ drop (a + length src) dst"

text \<open>\<open>iter().min()\<close>.\<close>

primrec list_min :: "'a :: linorder list \<Rightarrow> 'a option" where
  "list_min [] = None"
| "list_min (x # xs) = Some (case list_min xs of None \<Rightarrow> x | Some m \<Rightarrow> min x m)"

subsection \<open>Lemmas on \<open>position\<close>\<close>

lemma position_Some_iff:
  "position P xs = Some i \<longleftrightarrow> i < length xs \<and> P (xs ! i) \<and> (\<forall>j<i. \<not> P (xs ! j))"
proof (induction xs arbitrary: i)
  case Nil
  then show ?case by simp
next
  case (Cons x xs)
  show ?case
  proof (cases i)
    case 0
    then show ?thesis by auto
  next
    case (Suc k)
    then show ?thesis by (auto simp: Cons.IH nth_Cons less_Suc_eq_0_disj split: nat.splits)
  qed
qed

lemma position_None_iff: "position P xs = None \<longleftrightarrow> (\<forall>x \<in> set xs. \<not> P x)"
  by (induction xs) auto

lemma position_SomeD:
  assumes "position P xs = Some i"
  shows "i < length xs" and "P (xs ! i)" and "\<And>j. j < i \<Longrightarrow> \<not> P (xs ! j)"
  using assms by (auto simp: position_Some_iff)

lemma position_ex: "x \<in> set xs \<Longrightarrow> P x \<Longrightarrow> \<exists>i. position P xs = Some i"
  using position_None_iff[of P xs] by (cases "position P xs") auto

lemma position_least: "i < length xs \<Longrightarrow> P (xs ! i) \<Longrightarrow> \<exists>j\<le>i. position P xs = Some j"
proof -
  assume i: "i < length xs" "P (xs ! i)"
  then obtain j where j: "position P xs = Some j"
    using position_ex[of "xs ! i" xs P] by auto
  with i(2) have "j \<le> i" by (meson not_le position_SomeD(3))
  with j show ?thesis by blast
qed

subsection \<open>Lemmas on \<open>update_first\<close>\<close>

lemma length_update_first [simp]: "length (update_first P f xs) = length xs"
  by (induction xs) auto

lemma update_first_none: "(\<forall>x \<in> set xs. \<not> P x) \<Longrightarrow> update_first P f xs = xs"
  by (induction xs) auto

lemma update_first_position:
  "update_first P f xs = (case position P xs of None \<Rightarrow> xs | Some i \<Rightarrow> xs[i := f (xs ! i)])"
  by (induction xs) (auto split: option.splits)

lemma map_update_first: "(\<And>x. g (f x) = g x) \<Longrightarrow> map g (update_first P f xs) = map g xs"
  by (induction xs) auto

lemma set_update_first_subset: "set (update_first P f xs) \<subseteq> set xs \<union> f ` {x \<in> set xs. P x}"
  by (induction xs) auto

lemma update_first_all:
  "(\<And>x. x \<in> set xs \<Longrightarrow> Q x) \<Longrightarrow> (\<And>x. x \<in> set xs \<Longrightarrow> P x \<Longrightarrow> Q x \<Longrightarrow> Q (f x))
    \<Longrightarrow> x \<in> set (update_first P f xs) \<Longrightarrow> Q x"
  using set_update_first_subset[of P f xs] by blast

lemma find_update_first:
  "(\<And>x. P (f x) = P x) \<Longrightarrow> List.find P (update_first P f xs) = map_option f (List.find P xs)"
  by (induction xs) auto

lemma find_update_first_other:
  "(\<And>x. x \<in> set xs \<Longrightarrow> P x \<Longrightarrow> \<not> Q x \<and> \<not> Q (f x))
    \<Longrightarrow> List.find Q (update_first P f xs) = List.find Q xs"
  by (induction xs) auto

lemma update_first_key:
  assumes "distinct (map k xs)"
  shows "update_first (\<lambda>x. k x = a) f xs = map (\<lambda>x. if k x = a then f x else x) xs"
  using assms
proof (induction xs)
  case Nil
  then show ?case by simp
next
  case (Cons x xs)
  show ?case
  proof (cases "k x = a")
    case True
    with Cons.prems have "a \<notin> k ` set xs" by simp
    then have "\<forall>y \<in> set xs. k y \<noteq> a" by blast
    then have "map (\<lambda>y. if k y = a then f y else y) xs = xs"
      by (simp add: map_idI)
    with True show ?thesis by simp
  next
    case False
    with Cons show ?thesis by simp
  qed
qed

lemma find_key:
  assumes "distinct (map k xs)" and "x \<in> set xs"
  shows "List.find (\<lambda>y. k y = k x) xs = Some x"
  using assms by (induction xs) force+

lemma find_SomeD: "List.find P xs = Some x \<Longrightarrow> x \<in> set xs \<and> P x"
  by (induction xs) (auto split: if_splits)

subsection \<open>Lemmas on the other vector operations\<close>

lemma length_swap_remove [simp]: "i < length xs \<Longrightarrow> length (swap_remove i xs) = length xs - 1"
  by (simp add: swap_remove_def)

lemma mset_swap_remove:
  assumes "i < length xs"
  shows "mset (swap_remove i xs) = mset xs - {# xs ! i #}"
proof -
  from assms obtain ys z where xs: "xs = ys @ [z]"
    by (metis length_0_conv not_less0 rev_exhaust)
  show ?thesis
  proof (cases "i + 1 = length xs")
    case True
    with xs show ?thesis by (auto simp: swap_remove_def nth_append)
  next
    case False
    with xs assms have i: "i < length ys" by simp
    with False xs show ?thesis
      by (simp add: swap_remove_def nth_append mset_update nth_mem_mset add_mset_commute)
  qed
qed

lemma set_swap_remove_subset: "i < length xs \<Longrightarrow> set (swap_remove i xs) \<subseteq> set xs"
  by (metis mset_swap_remove diff_subset_eq_self set_mset_mono set_mset_mset)

lemma set_swap_remove_distinct:
  assumes "i < length xs" and "distinct xs"
  shows "set (swap_remove i xs) = set xs - {xs ! i}" and "distinct (swap_remove i xs)"
proof -
  have m: "mset (swap_remove i xs) = mset (remove1 (xs ! i) xs)"
    using assms(1) by (simp add: mset_swap_remove)
  from mset_eq_setD[OF m] assms(2)
  show "set (swap_remove i xs) = set xs - {xs ! i}" by simp
  show "distinct (swap_remove i xs)"
    using mset_eq_imp_distinct_iff[OF m] assms(2) by simp
qed

lemma length_resize [simp]: "length (resize xs n v) = n"
  by (simp add: resize_def)

lemma nth_resize: "i < n \<Longrightarrow> resize xs n v ! i = (if i < length xs then xs ! i else v)"
  by (auto simp: resize_def nth_append)

lemma get_range_Some_iff:
  "get_range xs a b = Some ys \<longleftrightarrow> a \<le> b \<and> b \<le> length xs \<and> ys = take (b - a) (drop a xs)"
  by (auto simp: get_range_def)

lemma length_splice [simp]: "a + length src \<le> length dst \<Longrightarrow> length (splice dst a src) = length dst"
  by (simp add: splice_def)

lemma nth_splice:
  assumes "a + length src \<le> length dst" and "i < length dst"
  shows "splice dst a src ! i = (if a \<le> i \<and> i < a + length src then src ! (i - a) else dst ! i)"
  using assms by (auto simp: splice_def nth_append)

lemma take_drop_splice: "a \<le> length dst \<Longrightarrow> take (length src) (drop a (splice dst a src)) = src"
  by (simp add: splice_def)

lemma list_min_None_iff [simp]: "list_min xs = None \<longleftrightarrow> xs = []"
  by (cases xs) auto

lemma list_min_Some_iff: "list_min xs = Some m \<longleftrightarrow> m \<in> set xs \<and> (\<forall>y \<in> set xs. m \<le> y)"
proof (induction xs arbitrary: m)
  case Nil
  then show ?case by simp
next
  case (Cons x xs)
  show ?case
  proof (cases "list_min xs")
    case None
    then show ?thesis by auto
  next
    case (Some k)
    with Cons.IH[of k] show ?thesis by (auto simp: min_def) (meson order.trans order.antisym)+
  qed
qed

section \<open>Little-endian encodings\<close>

primrec to_le :: "nat \<Rightarrow> nat \<Rightarrow> u8 list" where
  "to_le 0 k = []"
| "to_le (Suc n) k = word_of_nat k # to_le n (k div 256)"

primrec from_le :: "u8 list \<Rightarrow> nat" where
  "from_le [] = 0"
| "from_le (b # bs) = unat b + 256 * from_le bs"

lemma length_to_le [simp]: "length (to_le n k) = n"
  by (induction n arbitrary: k) auto

lemma from_le_to_le [simp]: "from_le (to_le n k) = k mod 256 ^ n"
proof (induction n arbitrary: k)
  case 0
  then show ?case by simp
next
  case (Suc n)
  have "unat (word_of_nat k :: u8) = k mod 256"
    by (simp add: unat_of_nat)
  then show ?case by (simp add: Suc.IH mod_mult2_eq)
qed

lemma from_le_bound: "from_le bs < 256 ^ length bs"
proof (induction bs)
  case Nil
  then show ?case by simp
next
  case (Cons b bs)
  have "unat b < 256" using unsigned_less[of b] by simp
  with Cons show ?case by simp
qed

end
