(* ===== verification/Locks.thy ===== *)
theory Locks
  imports Kazu_Prelude
begin

text \<open>
  The two locks of \<^verbatim>\<open>crates/kernel/src/util.rs\<close>: \<open>SpinLock\<close> and \<open>ReentrantSpinLock\<close>. Each atomic
  access of \<open>lock()\<close> and \<open>unlock()\<close> is one step of the CPU that executes it, and the steps of the
  CPUs interleave arbitrarily. A guard (\<open>IrqGuard\<close>, \<open>ReentrantIrqGuard\<close>) disables interrupts before it
  takes the lock, so a CPU is one sequential thread of control here. The accesses are taken as
  sequentially consistent; every access that publishes protected data is an acquire or a release
  in the source.

  The mutual exclusion proved here is what allows the other theories to treat an operation that
  runs under a lock as one atomic function.
\<close>

section \<open>Model\<close>

text \<open>\<open>usize::MAX\<close>, the value of \<open>owner\<close> when nobody owns the lock.\<close>

definition NO_OWNER :: nat where
  "NO_OWNER = 2 ^ 64 - 1"

definition MAX_CPUS :: nat where
  "MAX_CPUS = 16"

record spin_lock =
  sl_locked :: bool

record reentrant_lock =
  rl_locked :: bool
  rl_owner :: nat
  rl_depth :: nat

definition spin_new :: spin_lock where
  "spin_new = \<lparr>sl_locked = False\<rparr>"

definition reentrant_new :: reentrant_lock where
  "reentrant_new = \<lparr>rl_locked = False, rl_owner = NO_OWNER, rl_depth = 0\<rparr>"

text \<open>
  \<open>compare_exchange_weak(false, true)\<close> on the flag; \<open>spurious\<close> is the failure the weak form is
  allowed to report. The result says whether the exchange took place.
\<close>

definition cas_weak :: "bool \<Rightarrow> bool \<Rightarrow> bool \<times> bool" where
  "cas_weak spurious flag = (if flag \<or> spurious then (flag, False) else (True, True))"

text \<open>One iteration of the loop of \<open>SpinLock::lock\<close>, and \<open>SpinLock::unlock\<close>.\<close>

definition spin_lock_iter :: "bool \<Rightarrow> spin_lock \<Rightarrow> spin_lock \<times> bool" where
  "spin_lock_iter spurious l =
     (let (f, ok) = cas_weak spurious (sl_locked l) in (l\<lparr>sl_locked := f\<rparr>, ok))"

definition spin_unlock :: "spin_lock \<Rightarrow> spin_lock" where
  "spin_unlock l = l\<lparr>sl_locked := False\<rparr>"

text \<open>The program points of \<open>ReentrantSpinLock::lock\<close> and \<open>unlock\<close>, one per atomic access.\<close>

datatype lock_pc = L_owner | L_locked | L_depth | L_cas | L_set_owner | L_set_depth

datatype unlock_pc = U_sub | U_owner | U_locked

text \<open>One access of \<open>lock\<close> by \<open>cpu\<close>; the result is the next point, \<open>None\<close> when \<open>lock\<close> returns.\<close>

fun reentrant_lock_step ::
  "bool \<Rightarrow> nat \<Rightarrow> lock_pc \<Rightarrow> reentrant_lock \<Rightarrow> reentrant_lock \<times> lock_pc option" where
  "reentrant_lock_step spurious cpu L_owner l =
     (l, Some (if rl_owner l = cpu then L_locked else L_cas))"
| "reentrant_lock_step spurious cpu L_locked l =
     (l, Some (if rl_locked l then L_depth else L_cas))"
| "reentrant_lock_step spurious cpu L_depth l =
     (l\<lparr>rl_depth := (rl_depth l + 1) mod 2 ^ 64\<rparr>, None)"
| "reentrant_lock_step spurious cpu L_cas l =
     (let (f, ok) = cas_weak spurious (rl_locked l)
      in (l\<lparr>rl_locked := f\<rparr>, Some (if ok then L_set_owner else L_cas)))"
| "reentrant_lock_step spurious cpu L_set_owner l = (l\<lparr>rl_owner := cpu\<rparr>, Some L_set_depth)"
| "reentrant_lock_step spurious cpu L_set_depth l = (l\<lparr>rl_depth := 1\<rparr>, None)"

fun reentrant_unlock_step :: "unlock_pc \<Rightarrow> reentrant_lock \<Rightarrow> reentrant_lock \<times> unlock_pc option" where
  "reentrant_unlock_step U_sub l =
     (l\<lparr>rl_depth := (if rl_depth l = 0 then 2 ^ 64 - 1 else rl_depth l - 1)\<rparr>,
      if rl_depth l = 1 then Some U_owner else None)"
| "reentrant_unlock_step U_owner l = (l\<lparr>rl_owner := NO_OWNER\<rparr>, Some U_locked)"
| "reentrant_unlock_step U_locked l = (l\<lparr>rl_locked := False\<rparr>, None)"

section \<open>CPUs that use a lock\<close>

text \<open>
  \<open>nest c\<close> counts the guards CPU \<open>c\<close> holds: calls of \<open>lock\<close> that returned, minus calls of \<open>unlock\<close>
  that returned.
\<close>

datatype cpu_pc = Outside | Locking lock_pc | Inside | Unlocking unlock_pc

record lock_system =
  lk :: reentrant_lock
  pc :: "nat \<Rightarrow> cpu_pc"
  nest :: "nat \<Rightarrow> nat"

definition lock_system_init :: lock_system where
  "lock_system_init = \<lparr>lk = reentrant_new, pc = (\<lambda>_. Outside), nest = (\<lambda>_. 0)\<rparr>"

text \<open>Each nested guard occupies stack, so the nesting stays below \<open>usize::MAX\<close>.\<close>

inductive reentrant_step :: "lock_system \<Rightarrow> lock_system \<Rightarrow> bool" where
  call_lock:
    "\<lbrakk>c < MAX_CPUS; pc s c = Outside \<or> pc s c = Inside; nest s c + 1 < 2 ^ 64\<rbrakk>
     \<Longrightarrow> reentrant_step s (s\<lparr>pc := (pc s)(c := Locking L_owner)\<rparr>)"
| lock_access:
    "\<lbrakk>pc s c = Locking l; reentrant_lock_step spurious c l (lk s) = (k, Some l')\<rbrakk>
     \<Longrightarrow> reentrant_step s (s\<lparr>lk := k, pc := (pc s)(c := Locking l')\<rparr>)"
| lock_returns:
    "\<lbrakk>pc s c = Locking l; reentrant_lock_step spurious c l (lk s) = (k, None)\<rbrakk>
     \<Longrightarrow> reentrant_step s (s\<lparr>lk := k, pc := (pc s)(c := Inside), nest := (nest s)(c := nest s c + 1)\<rparr>)"
| call_unlock:
    "pc s c = Inside \<Longrightarrow> reentrant_step s (s\<lparr>pc := (pc s)(c := Unlocking U_sub)\<rparr>)"
| unlock_access:
    "\<lbrakk>pc s c = Unlocking u; reentrant_unlock_step u (lk s) = (k, Some u')\<rbrakk>
     \<Longrightarrow> reentrant_step s (s\<lparr>lk := k, pc := (pc s)(c := Unlocking u')\<rparr>)"
| unlock_returns:
    "\<lbrakk>pc s c = Unlocking u; reentrant_unlock_step u (lk s) = (k, None)\<rbrakk>
     \<Longrightarrow> reentrant_step s (s\<lparr>lk := k, pc := (pc s)(c := (if nest s c = 1 then Outside else Inside)),
                          nest := (nest s)(c := nest s c - 1)\<rparr>)"

text \<open>The users of a plain \<open>SpinLock\<close>.\<close>

datatype spin_pc = S_outside | S_spinning | S_inside

record spin_system =
  slk :: spin_lock
  spc :: "nat \<Rightarrow> spin_pc"

definition spin_system_init :: spin_system where
  "spin_system_init = \<lparr>slk = spin_new, spc = (\<lambda>_. S_outside)\<rparr>"

inductive spin_step :: "spin_system \<Rightarrow> spin_system \<Rightarrow> bool" where
  spin_call: "spc s c = S_outside \<Longrightarrow> spin_step s (s\<lparr>spc := (spc s)(c := S_spinning)\<rparr>)"
| spin_try: "\<lbrakk>spc s c = S_spinning; spin_lock_iter spurious (slk s) = (l, ok)\<rbrakk>
    \<Longrightarrow> spin_step s (s\<lparr>slk := l, spc := (spc s)(c := (if ok then S_inside else S_spinning))\<rparr>)"
| spin_release: "spc s c = S_inside
    \<Longrightarrow> spin_step s (s\<lparr>slk := spin_unlock (slk s), spc := (spc s)(c := S_outside)\<rparr>)"

section \<open>The mutual-exclusion contract\<close>

text \<open>
  What a lock promises its users: \<open>holds s c\<close> says that CPU \<open>c\<close> is in a section protected by the
  lock, and an inductive invariant allows only one such CPU.
\<close>

locale mutual_exclusion =
  fixes init :: 's
    and step :: "'s \<Rightarrow> 's \<Rightarrow> bool"
    and inv :: "'s \<Rightarrow> bool"
    and holds :: "'s \<Rightarrow> nat \<Rightarrow> bool"
  assumes inv_init: "inv init"
    and inv_step: "inv s \<Longrightarrow> step s s' \<Longrightarrow> inv s'"
    and inv_exclusive: "inv s \<Longrightarrow> holds s a \<Longrightarrow> holds s b \<Longrightarrow> a = b"
begin

lemma reachable_inv: "step\<^sup>*\<^sup>* init s \<Longrightarrow> inv s"
  by (induction rule: rtranclp_induct) (auto intro: inv_init inv_step)

lemma exclusive: "step\<^sup>*\<^sup>* init s \<Longrightarrow> holds s a \<Longrightarrow> holds s b \<Longrightarrow> a = b"
  by (rule inv_exclusive[OF reachable_inv])

end

section \<open>The plain spin lock\<close>

definition spin_inv :: "spin_system \<Rightarrow> bool" where
  "spin_inv s \<longleftrightarrow> (\<exists>h. (\<forall>c. spc s c = S_inside \<longleftrightarrow> h = Some c) \<and> sl_locked (slk s) = (h \<noteq> None))"

lemma spin_inv_step:
  assumes "spin_inv s" and "spin_step s s'"
  shows "spin_inv s'"
proof -
  obtain h where h: "\<And>c. spc s c = S_inside \<longleftrightarrow> h = Some c" "sl_locked (slk s) = (h \<noteq> None)"
    using assms(1) by (auto simp: spin_inv_def)
  from assms(2) show ?thesis
  proof cases
    case (spin_call c)
    with h h(1)[of c] show ?thesis by (auto simp: spin_inv_def intro!: exI[of _ h])
  next
    case (spin_try c spurious l ok)
    show ?thesis
    proof (cases ok)
      case True
      with spin_try h(2) have "h = None" "sl_locked l"
        by (auto simp: spin_lock_iter_def cas_weak_def split: if_splits)
      with True spin_try h(1) show ?thesis by (auto simp: spin_inv_def intro!: exI[of _ "Some c"])
    next
      case False
      with spin_try have "l = slk s"
        by (auto simp: spin_lock_iter_def cas_weak_def split: if_splits)
      with False spin_try h h(1)[of c] show ?thesis by (auto simp: spin_inv_def intro!: exI[of _ h])
    qed
  next
    case (spin_release c)
    with h(1) have "h = Some c" by simp
    with spin_release h(1) show ?thesis by (auto simp: spin_inv_def spin_unlock_def intro!: exI[of _ None])
  qed
qed

interpretation spin: mutual_exclusion spin_system_init spin_step spin_inv "\<lambda>s c. spc s c = S_inside"
proof unfold_locales
  show "spin_inv spin_system_init"
    by (simp add: spin_inv_def spin_system_init_def spin_new_def)
  show "a = b" if "spin_inv s" "spc s a = S_inside" "spc s b = S_inside" for s a b
    using that by (auto simp: spin_inv_def)
qed (rule spin_inv_step)

section \<open>The reentrant spin lock\<close>

text \<open>What the program point says about the number of guards held.\<close>

fun pc_ok :: "cpu_pc \<Rightarrow> nat \<Rightarrow> bool" where
  "pc_ok Outside n = (n = 0)"
| "pc_ok Inside n = (0 < n)"
| "pc_ok (Unlocking U_sub) n = (0 < n)"
| "pc_ok (Unlocking _) n = (n = 1)"
| "pc_ok (Locking L_owner) n = True"
| "pc_ok (Locking L_locked) n = (0 < n)"
| "pc_ok (Locking L_depth) n = (0 < n \<and> n + 1 < 2 ^ 64)"
| "pc_ok (Locking _) n = (n = 0)"

text \<open>What the lock's fields are, seen from the CPU that holds it.\<close>

fun held_ok :: "nat \<Rightarrow> cpu_pc \<Rightarrow> nat \<Rightarrow> nat \<Rightarrow> nat \<Rightarrow> bool" where
  "held_ok c (Locking L_set_owner) n own d = (own = NO_OWNER)"
| "held_ok c (Locking L_set_depth) n own d = (own = c)"
| "held_ok c (Unlocking U_owner) n own d = (own = c)"
| "held_ok c (Unlocking U_locked) n own d = (own = NO_OWNER)"
| "held_ok c _ n own d = (own = c \<and> d = n)"

definition holding :: "lock_system \<Rightarrow> nat \<Rightarrow> bool" where
  "holding s c \<longleftrightarrow> 0 < nest s c \<or> pc s c \<in> {Locking L_set_owner, Locking L_set_depth}"

definition lock_inv :: "lock_system \<Rightarrow> bool" where
  "lock_inv s \<longleftrightarrow>
     (\<forall>c. pc_ok (pc s c) (nest s c) \<and> nest s c < 2 ^ 64
        \<and> (pc s c \<in> {Locking L_owner, Locking L_locked, Locking L_depth} \<longrightarrow> nest s c + 1 < 2 ^ 64)
        \<and> (pc s c \<noteq> Outside \<longrightarrow> c < MAX_CPUS)) \<and>
     (\<exists>h. (\<forall>c. holding s c \<longleftrightarrow> h = Some c)
        \<and> rl_locked (lk s) = (h \<noteq> None)
        \<and> (case h of None \<Rightarrow> rl_owner (lk s) = NO_OWNER
           | Some c \<Rightarrow> held_ok c (pc s c) (nest s c) (rl_owner (lk s)) (rl_depth (lk s))))"

lemma lock_inv_init: "lock_inv lock_system_init"
  by (auto simp: lock_inv_def lock_system_init_def reentrant_new_def holding_def intro!: exI[of _ None])

lemma lock_invE:
  assumes "lock_inv s"
  obtains h where "\<And>c. pc_ok (pc s c) (nest s c)" and "\<And>c. nest s c < 2 ^ 64"
    and "\<And>c. pc s c \<in> {Locking L_owner, Locking L_locked, Locking L_depth} \<Longrightarrow> nest s c + 1 < 2 ^ 64"
    and "\<And>c. pc s c \<noteq> Outside \<Longrightarrow> c < MAX_CPUS"
    and "\<And>c. holding s c \<longleftrightarrow> h = Some c" and "rl_locked (lk s) = (h \<noteq> None)"
    and "case h of None \<Rightarrow> rl_owner (lk s) = NO_OWNER
           | Some c \<Rightarrow> held_ok c (pc s c) (nest s c) (rl_owner (lk s)) (rl_depth (lk s))"
  using assms unfolding lock_inv_def by blast

text \<open>
  A step changes one CPU's point and nesting and the lock's fields; the invariant of the new state
  reduces to conditions on that CPU.
\<close>

lemma lock_inv_upd:
  assumes "lock_inv s" and h: "\<And>c. holding s c \<longleftrightarrow> h = Some c" and "c < MAX_CPUS"
    and "pc_ok p n" and "n < 2 ^ 64"
    and "p \<in> {Locking L_owner, Locking L_locked, Locking L_depth} \<Longrightarrow> n + 1 < 2 ^ 64"
    and "case h' of None \<Rightarrow> \<not> (0 < n \<or> p \<in> {Locking L_set_owner, Locking L_set_depth}) \<and> (h = None \<or> h = Some c)
          | Some d \<Rightarrow> if d = c then (0 < n \<or> p \<in> {Locking L_set_owner, Locking L_set_depth}) \<and> (h = None \<or> h = Some c)
              else h = Some d \<and> \<not> (0 < n \<or> p \<in> {Locking L_set_owner, Locking L_set_depth})"
    and "rl_locked k = (h' \<noteq> None)"
    and "case h' of None \<Rightarrow> rl_owner k = NO_OWNER
           | Some d \<Rightarrow> if d = c then held_ok c p n (rl_owner k) (rl_depth k) else k = lk s"
  shows "lock_inv (s\<lparr>lk := k, pc := (pc s)(c := p), nest := (nest s)(c := n)\<rparr>)"
proof -
  let ?s = "s\<lparr>lk := k, pc := (pc s)(c := p), nest := (nest s)(c := n)\<rparr>"
  obtain h0 where g: "\<And>c. pc_ok (pc s c) (nest s c)" "\<And>c. nest s c < 2 ^ 64"
    "\<And>c. pc s c \<in> {Locking L_owner, Locking L_locked, Locking L_depth} \<Longrightarrow> nest s c + 1 < 2 ^ 64"
    "\<And>c. pc s c \<noteq> Outside \<Longrightarrow> c < MAX_CPUS"
    "\<And>c. holding s c \<longleftrightarrow> h0 = Some c" "rl_locked (lk s) = (h0 \<noteq> None)"
    "case h0 of None \<Rightarrow> rl_owner (lk s) = NO_OWNER
       | Some c \<Rightarrow> held_ok c (pc s c) (nest s c) (rl_owner (lk s)) (rl_depth (lk s))"
    using assms(1) unfolding lock_inv_def by blast
  have h0: "h0 = h" using g(5) h by (metis option.exhaust)
  have hold: "holding ?s d \<longleftrightarrow> h' = Some d" for d
    using h[of d] assms(7) by (cases h'; cases h) (auto simp: holding_def split: if_splits)
  have fields: "case h' of None \<Rightarrow> rl_owner k = NO_OWNER
      | Some d \<Rightarrow> held_ok d (pc ?s d) (nest ?s d) (rl_owner k) (rl_depth k)"
    using assms(7,9) g(7) h0 by (cases h') (auto split: if_splits)
  show ?thesis
    unfolding lock_inv_def
    by (intro conjI allI exI[of _ h'])
      (use g assms(3-6,8) hold fields in \<open>auto simp: fun_upd_apply split: if_splits\<close>)
qed

text \<open>CPUs whose index is below \<open>MAX_CPUS\<close> are never mistaken for the sentinel.\<close>

lemma cpu_not_sentinel: "c < MAX_CPUS \<Longrightarrow> c \<noteq> NO_OWNER"
  by (simp add: MAX_CPUS_def NO_OWNER_def)

lemma owner_nest:
  assumes "lock_inv s" and "pc s c = Locking L_owner"
  shows "rl_owner (lk s) = c \<longleftrightarrow> 0 < nest s c"
proof -
  obtain h where g: "\<And>c. pc s c \<noteq> Outside \<Longrightarrow> c < MAX_CPUS" "\<And>c. holding s c \<longleftrightarrow> h = Some c"
    "case h of None \<Rightarrow> rl_owner (lk s) = NO_OWNER
       | Some c \<Rightarrow> held_ok c (pc s c) (nest s c) (rl_owner (lk s)) (rl_depth (lk s))"
    using assms(1) unfolding lock_inv_def by blast
  have c: "c \<noteq> NO_OWNER" using g(1)[of c] assms(2) by (simp add: cpu_not_sentinel)
  have hc: "h = Some c \<longleftrightarrow> 0 < nest s c"
    using g(2)[of c] assms(2) by (simp add: holding_def)
  show ?thesis
  proof (cases h)
    case None
    with g(3) c hc show ?thesis by simp
  next
    case (Some d)
    have "held_ok d p n own dep \<Longrightarrow> own = d \<or> own = NO_OWNER" for p n own dep
      by (cases "(d, p, n, own, dep)" rule: held_ok.cases) auto
    with Some g(3) have "rl_owner (lk s) = d \<or> rl_owner (lk s) = NO_OWNER" by simp
    moreover have "d = c \<Longrightarrow> rl_owner (lk s) = c" using Some g(3) assms(2) by simp
    ultimately show ?thesis using hc Some c by auto
  qed
qed

lemma lock_inv_step:
  assumes "lock_inv s" and "reentrant_step s s'"
  shows "lock_inv s'"
proof -
  obtain h where g: "\<And>c. pc_ok (pc s c) (nest s c)" "\<And>c. nest s c < 2 ^ 64"
    "\<And>c. pc s c \<in> {Locking L_owner, Locking L_locked, Locking L_depth} \<Longrightarrow> nest s c + 1 < 2 ^ 64"
    "\<And>c. pc s c \<noteq> Outside \<Longrightarrow> c < MAX_CPUS"
    "\<And>c. holding s c \<longleftrightarrow> h = Some c" "rl_locked (lk s) = (h \<noteq> None)"
    "case h of None \<Rightarrow> rl_owner (lk s) = NO_OWNER
       | Some c \<Rightarrow> held_ok c (pc s c) (nest s c) (rl_owner (lk s)) (rl_depth (lk s))"
    using assms(1) unfolding lock_inv_def by blast
  note upd = lock_inv_upd[OF assms(1) g(5)]
  have hc: "h = Some c \<longleftrightarrow> 0 < nest s c \<or> pc s c \<in> {Locking L_set_owner, Locking L_set_depth}" for c
    using g(5)[of c] by (simp add: holding_def)
  from assms(2) show ?thesis
  proof cases
    case (call_lock c)
    have "lock_inv (s\<lparr>lk := lk s, pc := (pc s)(c := Locking L_owner), nest := (nest s)(c := nest s c)\<rparr>)"
      using call_lock g(1)[of c] g(2)[of c] g(6,7) hc[of c]
      by (intro upd[where h' = h]) (auto split: option.splits)
    with call_lock show ?thesis by simp
  next
    case (lock_access c l spurious k l')
    note a = g(1)[of c] g(2)[of c] g(3)[of c] g(4)[of c] g(6,7) hc[of c] lock_access(2,3)
    let ?h = "if l = L_cas \<and> l' = L_set_owner then Some c else h"
    have "lock_inv (s\<lparr>lk := k, pc := (pc s)(c := Locking l'), nest := (nest s)(c := nest s c)\<rparr>)"
    proof (cases l)
      case L_owner
      with a owner_nest[OF assms(1)] show ?thesis
        by (intro upd[where h' = ?h]) (auto split: option.splits if_splits)
    next
      case L_cas
      with a show ?thesis
        by (intro upd[where h' = ?h]) (auto simp: cas_weak_def split: option.splits if_splits)
    qed (use a in \<open>intro upd[where h' = ?h]; auto split: option.splits if_splits\<close>)+
    with lock_access show ?thesis by simp
  next
    case (lock_returns c l spurious k)
    then have l: "l = L_depth \<or> l = L_set_depth"
      by (cases l) (auto simp: case_prod_unfold Let_def)
    then show ?thesis
      unfolding lock_returns(1)
      using lock_returns(2,3) g(1)[of c] g(2)[of c] g(3)[of c] g(4)[of c] g(6,7) hc[of c]
      by (intro upd[where h' = h]) (auto split: option.splits)
  next
    case (call_unlock c)
    have "lock_inv (s\<lparr>lk := lk s, pc := (pc s)(c := Unlocking U_sub), nest := (nest s)(c := nest s c)\<rparr>)"
      using call_unlock g(1)[of c] g(2)[of c] g(4)[of c] g(6,7) hc[of c]
      by (intro upd[where h' = h]) (auto split: option.splits)
    with call_unlock show ?thesis by simp
  next
    case (unlock_access c u k u')
    have "lock_inv (s\<lparr>lk := k, pc := (pc s)(c := Unlocking u'), nest := (nest s)(c := nest s c)\<rparr>)"
      using unlock_access(2,3) g(1)[of c] g(2)[of c] g(4)[of c] g(6,7) hc[of c]
      by (cases u; intro upd[where h' = h]) (auto split: option.splits if_splits)
    with unlock_access show ?thesis by simp
  next
    case (unlock_returns c u k)
    show ?thesis
      unfolding unlock_returns(1)
      using unlock_returns(2,3) g(1)[of c] g(2)[of c] g(4)[of c] g(6,7) hc[of c]
      by (cases u; intro upd[where h' = "if u = U_locked then None else h"]) (auto split: option.splits if_splits)
  qed
qed

interpretation reentrant: mutual_exclusion lock_system_init reentrant_step lock_inv holding
proof unfold_locales
  show "a = b" if "lock_inv s" "holding s a" "holding s b" for s a b
    using that by (auto simp: lock_inv_def)
qed (rule lock_inv_init, rule lock_inv_step)

lemma lock_inv_waiting:
  assumes "lock_inv s" and "pc s c = Locking l" and "0 < nest s c"
  shows "l \<in> {L_owner, L_locked, L_depth} \<and> rl_locked (lk s) \<and> rl_owner (lk s) = c"
proof -
  obtain h where g: "pc_ok (pc s c) (nest s c)" "holding s c \<longleftrightarrow> h = Some c" "rl_locked (lk s) = (h \<noteq> None)"
    "case h of None \<Rightarrow> rl_owner (lk s) = NO_OWNER
       | Some c \<Rightarrow> held_ok c (pc s c) (nest s c) (rl_owner (lk s)) (rl_depth (lk s))"
    using assms(1) unfolding lock_inv_def by blast
  have "h = Some c" using g(2) assms(3) by (simp add: holding_def)
  with g assms(2,3) show ?thesis by (cases l) auto
qed

lemma lock_inv_outermost:
  assumes "lock_inv s" and "pc s c = Unlocking U_sub"
  shows "rl_depth (lk s) = nest s c"
proof -
  obtain h where g: "pc_ok (pc s c) (nest s c)" "holding s c \<longleftrightarrow> h = Some c"
    "case h of None \<Rightarrow> rl_owner (lk s) = NO_OWNER
       | Some c \<Rightarrow> held_ok c (pc s c) (nest s c) (rl_owner (lk s)) (rl_depth (lk s))"
    using assms(1) unfolding lock_inv_def by blast
  have "h = Some c" using g(1,2) assms(2) by (simp add: holding_def)
  with g(3) assms(2) show ?thesis by simp
qed

section \<open>Properties\<close>

text \<open>
  C16: the reentrant lock is exclusive. Under every interleaving of the atomic accesses of up to
  sixteen CPUs, with nested and spuriously failing acquisitions, at most one CPU holds guards.
\<close>

theorem reentrant_lock_exclusive:
  assumes "reentrant_step\<^sup>*\<^sup>* lock_system_init s" and "0 < nest s a" and "0 < nest s b"
  shows "a = b"
  using reentrant.exclusive[OF assms(1), of a b] assms(2,3) by (simp add: holding_def)

lemma reentrant_run:
  "reentrant_step\<^sup>*\<^sup>* lock_system_init
     (lock_system_init\<lparr>lk := \<lparr>rl_locked = True, rl_owner = 3, rl_depth = 1\<rparr>,
                       pc := (\<lambda>_. Outside)(3 := Inside), nest := (\<lambda>_. 0)(3 := 1)\<rparr>)"
proof -
  define s1 where "s1 = lock_system_init\<lparr>pc := (\<lambda>_. Outside)(3 := Locking L_owner)\<rparr>"
  define s2 where "s2 = s1\<lparr>pc := (\<lambda>_. Outside)(3 := Locking L_cas)\<rparr>"
  define s3 where "s3 = s2\<lparr>lk := (lk s2)\<lparr>rl_locked := True\<rparr>, pc := (\<lambda>_. Outside)(3 := Locking L_set_owner)\<rparr>"
  define s4 where "s4 = s3\<lparr>lk := (lk s3)\<lparr>rl_owner := 3\<rparr>, pc := (\<lambda>_. Outside)(3 := Locking L_set_depth)\<rparr>"
  note d = s1_def s2_def s3_def s4_def lock_system_init_def reentrant_new_def
  have "reentrant_step lock_system_init s1"
    using call_lock[of 3 lock_system_init] by (simp add: d MAX_CPUS_def)
  moreover have "reentrant_step s1 s2"
    using lock_access[of s1 3 L_owner False "lk s1" L_cas] by (simp add: d NO_OWNER_def)
  moreover have "reentrant_step s2 s3"
    using lock_access[of s2 3 L_cas False "(lk s2)\<lparr>rl_locked := True\<rparr>" L_set_owner]
    by (simp add: d cas_weak_def)
  moreover have "reentrant_step s3 s4"
    using lock_access[of s3 3 L_set_owner False "(lk s3)\<lparr>rl_owner := 3\<rparr>" L_set_depth] by (simp add: d)
  moreover have "reentrant_step s4 (lock_system_init\<lparr>lk := \<lparr>rl_locked = True, rl_owner = 3, rl_depth = 1\<rparr>,
                       pc := (\<lambda>_. Outside)(3 := Inside), nest := (\<lambda>_. 0)(3 := 1)\<rparr>)"
    using lock_returns[of s4 3 L_set_depth False "(lk s4)\<lparr>rl_depth := 1\<rparr>"] by (simp add: d)
  ultimately show ?thesis by (meson rtranclp.rtrancl_into_rtrancl rtranclp.rtrancl_refl)
qed

theorem reentrant_lock_exclusive_witness:
  "\<exists>s. reentrant_step\<^sup>*\<^sup>* lock_system_init s \<and> 0 < nest s 3 \<and> (\<forall>b. 0 < nest s b \<longrightarrow> 3 = b)"
proof -
  let ?s = "lock_system_init\<lparr>lk := \<lparr>rl_locked = True, rl_owner = 3, rl_depth = 1\<rparr>,
                       pc := (\<lambda>_. Outside)(3 := Inside), nest := (\<lambda>_. 0)(3 := 1)\<rparr>"
  have "0 < nest ?s 3" by simp
  then show ?thesis using reentrant_lock_exclusive[OF reentrant_run, of 3] reentrant_run by blast
qed

text \<open>
  C36: nesting is safe. A CPU that already holds the lock and calls \<open>lock\<close> again only passes the
  owner test and the depth increment, never the spinning exchange, so it cannot wait for itself;
  and \<open>unlock\<close> releases the lock exactly when it gives up the outermost guard.
\<close>

theorem reentrant_lock_nesting:
  assumes "reentrant_step\<^sup>*\<^sup>* lock_system_init s"
  shows "(0 < nest s c \<and> pc s c = Locking l \<longrightarrow>
            l \<in> {L_owner, L_locked, L_depth} \<and> rl_locked (lk s) \<and> rl_owner (lk s) = c)
    \<and> (pc s c = Unlocking U_sub \<longrightarrow>
         (snd (reentrant_unlock_step U_sub (lk s)) = Some U_owner) = (nest s c = 1))"
  using lock_inv_waiting[OF reentrant.reachable_inv[OF assms], of c l]
    lock_inv_outermost[OF reentrant.reachable_inv[OF assms], of c] by auto

theorem reentrant_lock_nesting_witness:
  "\<exists>s. reentrant_step\<^sup>*\<^sup>* lock_system_init s \<and> pc s 3 = Unlocking U_sub
     \<and> snd (reentrant_unlock_step U_sub (lk s)) = Some U_owner"
proof -
  let ?s = "lock_system_init\<lparr>lk := \<lparr>rl_locked = True, rl_owner = 3, rl_depth = 1\<rparr>,
                       pc := (\<lambda>_. Outside)(3 := Inside), nest := (\<lambda>_. 0)(3 := 1)\<rparr>"
  have "reentrant_step ?s (?s\<lparr>pc := (pc ?s)(3 := Unlocking U_sub)\<rparr>)"
    by (rule call_unlock) simp
  with reentrant_run have r: "reentrant_step\<^sup>*\<^sup>* lock_system_init (?s\<lparr>pc := (pc ?s)(3 := Unlocking U_sub)\<rparr>)"
    by (rule rtranclp.rtrancl_into_rtrancl)
  have "snd (reentrant_unlock_step U_sub (lk (?s\<lparr>pc := (pc ?s)(3 := Unlocking U_sub)\<rparr>))) = Some U_owner"
    using reentrant_lock_nesting[OF r, of 3 L_owner] by simp
  with r show ?thesis by fastforce
qed

text \<open>
  C40: the plain spin lock is exclusive under every interleaving: two CPUs are never both between
  the return of \<open>lock\<close> and the call of \<open>unlock\<close>.
\<close>

theorem spin_lock_exclusive:
  assumes "spin_step\<^sup>*\<^sup>* spin_system_init s" and "spc s a = S_inside" and "spc s b = S_inside"
  shows "a = b"
  using spin.exclusive[OF assms] .

theorem spin_lock_exclusive_witness:
  "\<exists>s. spin_step\<^sup>*\<^sup>* spin_system_init s \<and> spc s 1 = S_inside \<and> (\<forall>b. spc s b = S_inside \<longrightarrow> 1 = b)"
proof -
  let ?s1 = "spin_system_init\<lparr>spc := (spc spin_system_init)(1 := S_spinning)\<rparr>"
  let ?s2 = "?s1\<lparr>slk := \<lparr>sl_locked = True\<rparr>, spc := (spc ?s1)(1 := (if True then S_inside else S_spinning))\<rparr>"
  have "spin_step spin_system_init ?s1"
    by (rule spin_call) (simp add: spin_system_init_def)
  moreover have "spin_step ?s1 ?s2"
    by (rule spin_try[where spurious = False])
      (simp_all add: spin_system_init_def spin_new_def spin_lock_iter_def cas_weak_def)
  ultimately have r: "spin_step\<^sup>*\<^sup>* spin_system_init ?s2" by simp
  have i: "spc ?s2 1 = S_inside" by simp
  show ?thesis using spin_lock_exclusive[OF r i] r i by blast
qed

end
