(* ===== verification/Kernel_Heap.thy ===== *)
theory Kernel_Heap
  imports Locks
begin

unbundle bit_operations_syntax

text \<open>
  The kernel heap, \<^verbatim>\<open>crates/kernel/src/memory/allocator.rs\<close>: an address-sorted, coalescing, first-fit
  free list shared by all CPUs, and per-CPU stacks of small blocks in six size classes.

  The intrusive free list is a list of \<open>(address, size)\<close> blocks, a CPU's cache of a class the list
  of its block addresses (its counter is the length of that list). The headers that \<open>finish_alloc\<close>
  writes in front of user data are the entries of \<open>live\<close>; \<open>dealloc\<close> consumes the entry it reads.
  Addresses and sizes (\<open>usize\<close>) are \<open>nat\<close>: the region lies below \<open>2^64\<close>, and a Rust \<open>Layout\<close>
  guarantees that its size rounded up to its alignment does not overflow.

  The invariant \<open>heap_inv\<close> says that the free blocks, the cached blocks and the live blocks
  partition the heap region byte for byte, and that the free list is sorted and fully coalesced.
\<close>

section \<open>Model\<close>

record kheap =
  free_list :: "(nat \<times> nat) list"
  caches :: "nat \<Rightarrow> nat \<Rightarrow> nat list"
  live :: "(nat \<times> nat \<times> nat) list"

definition CLASS_SIZES :: "nat list" where
  "CLASS_SIZES = [64, 128, 256, 512, 1024, 2048]"

definition CACHE_CAP :: nat where
  "CACHE_CAP = 64"

text \<open>\<open>size_of::<FreeNode>()\<close> and \<open>size_of::<AllocHeader>()\<close>: two words each, with the alignment of one.\<close>

definition FREE_NODE :: nat where
  "FREE_NODE = 16"

definition ALLOC_HEADER :: nat where
  "ALLOC_HEADER = 16"

definition NODE_ALIGN :: nat where
  "NODE_ALIGN = 8"

definition align_up :: "nat \<Rightarrow> nat \<Rightarrow> nat" where
  "align_up v align = nat (int (v + align - 1) AND NOT (int (align - 1)))"

definition class_for :: "nat \<Rightarrow> nat option" where
  "class_for need = position (\<lambda>c. need \<le> c) CLASS_SIZES"

definition exact_class :: "nat \<Rightarrow> nat option" where
  "exact_class sz = position (\<lambda>c. c = sz) CLASS_SIZES"

definition insert_nolock :: "nat \<Rightarrow> nat \<Rightarrow> (nat \<times> nat) list \<Rightarrow> (nat \<times> nat) list" where
  "insert_nolock addr sz l =
     (if sz < FREE_NODE then l
      else
        (let before = takeWhile (\<lambda>b. fst b < addr) l;
             cur = dropWhile (\<lambda>b. fst b < addr) l;
             (node_size, rest) =
               (case cur of
                  [] \<Rightarrow> (sz, [])
                | (c, csz) # next \<Rightarrow> if addr + sz = c then (sz + csz, next) else (sz, cur))
         in if before \<noteq> [] \<and> fst (last before) + snd (last before) = addr
            then butlast before @ (fst (last before), snd (last before) + node_size) # rest
            else before @ (addr, node_size) # rest))"

definition take_raw :: "nat \<Rightarrow> (nat \<times> nat) list \<Rightarrow> ((nat \<times> nat) \<times> (nat \<times> nat) list) option" where
  "take_raw need l =
     (case position (\<lambda>b. need \<le> snd b) l of
        None \<Rightarrow> None
      | Some i \<Rightarrow>
          (let (addr, tot) = l ! i;
               l' = take i l @ drop (Suc i) l;
               rem = tot - need
           in if FREE_NODE \<le> rem
              then Some ((addr, need), insert_nolock (addr + need) rem l')
              else Some ((addr, tot), l')))"

definition give_raw :: "nat \<Rightarrow> nat \<Rightarrow> (nat \<times> nat) list \<Rightarrow> (nat \<times> nat) list" where
  "give_raw addr sz l = insert_nolock addr sz l"

definition heap_new :: kheap where
  "heap_new = \<lparr>free_list = [], caches = (\<lambda>_ _. []), live = []\<rparr>"

definition heap_init :: "nat \<Rightarrow> nat \<Rightarrow> kheap \<Rightarrow> kheap" where
  "heap_init heap_start heap_size h = h\<lparr>free_list := insert_nolock heap_start heap_size (free_list h)\<rparr>"

text \<open>\<open>KernelAllocator::cpu\<close>, the cache index for \<open>current_cpu_index()\<close>.\<close>

definition heap_cpu :: "nat \<Rightarrow> nat" where
  "heap_cpu i = (if i < MAX_CPUS then i else 0)"

definition set_cache :: "nat \<Rightarrow> nat \<Rightarrow> nat list \<Rightarrow> kheap \<Rightarrow> kheap" where
  "set_cache c ci xs h = h\<lparr>caches := (caches h)(c := (caches h c)(ci := xs))\<rparr>"

definition finish_alloc :: "nat \<Rightarrow> nat \<Rightarrow> nat \<Rightarrow> nat \<Rightarrow> kheap \<Rightarrow> nat option \<times> kheap" where
  "finish_alloc addr block_size header align h =
     (let user = align_up (addr + header) align
      in (Some user, h\<lparr>live := (user, addr, block_size) # live h\<rparr>))"

text \<open>The null pointer is \<open>None\<close>.\<close>

definition alloc :: "nat \<Rightarrow> nat \<Rightarrow> nat \<Rightarrow> kheap \<Rightarrow> nat option \<times> kheap" where
  "alloc cpu lsize lalign h =
     (let header = ALLOC_HEADER;
          align = max (max lalign NODE_ALIGN) NODE_ALIGN;
          need = align_up (header + lsize + align) NODE_ALIGN;
          from_pool = (\<lambda>n. case take_raw n (free_list h) of
              Some ((addr, kept), l) \<Rightarrow> finish_alloc addr kept header align (h\<lparr>free_list := l\<rparr>)
            | None \<Rightarrow> (None, h))
      in case class_for need of
           Some ci \<Rightarrow>
             (let cs = CLASS_SIZES ! ci; c = heap_cpu cpu
              in case caches h c ci of
                   addr # rest \<Rightarrow> finish_alloc addr cs header align (set_cache c ci rest h)
                 | [] \<Rightarrow> from_pool cs)
         | None \<Rightarrow> from_pool need)"

text \<open>\<open>None\<close>: the pointer does not come from \<open>alloc\<close>, so there is no header to read.\<close>

definition dealloc :: "nat \<Rightarrow> nat \<Rightarrow> kheap \<Rightarrow> kheap option" where
  "dealloc cpu ptr h =
     (case position (\<lambda>e. fst e = ptr) (live h) of
        None \<Rightarrow> None
      | Some i \<Rightarrow>
          (let (_, addr, sz) = live h ! i;
               h' = h\<lparr>live := take i (live h) @ drop (Suc i) (live h)\<rparr>;
               c = heap_cpu cpu
           in Some (case exact_class sz of
                Some ci \<Rightarrow>
                  if length (caches h' c ci) < CACHE_CAP
                  then set_cache c ci (addr # caches h' c ci) h'
                  else h'\<lparr>free_list := give_raw addr sz (free_list h')\<rparr>
              | None \<Rightarrow> h'\<lparr>free_list := give_raw addr sz (free_list h')\<rparr>)))"

section \<open>Alignment\<close>

lemma align_up_pow2: "align_up v (2 ^ k) = (v + 2 ^ k - 1) div 2 ^ k * 2 ^ k"
proof -
  have "x AND NOT (2 ^ k - 1) = push_bit k (drop_bit k x)" for x :: int
    by (rule bit_eqI) (auto simp: bit_simps mask_eq_exp_minus_1[symmetric])
  then have a: "x AND NOT (2 ^ k - 1) = x div 2 ^ k * 2 ^ k" for x :: int
    by (simp add: push_bit_eq_mult drop_bit_eq_div)
  have one: "int (2 ^ k - 1) = 2 ^ k - 1"
    by (simp add: of_nat_diff)
  have "align_up v (2 ^ k) = nat (int (v + 2 ^ k - 1) div 2 ^ k * 2 ^ k)"
    unfolding align_up_def one a ..
  also have "int (v + 2 ^ k - 1) div 2 ^ k * 2 ^ k = int ((v + 2 ^ k - 1) div 2 ^ k * 2 ^ k)"
    by (simp add: zdiv_int)
  finally show ?thesis by (simp only: nat_int)
qed

lemma align_up_spec:
  assumes "a = 2 ^ k"
  shows "align_up v a mod a = 0" and "v \<le> align_up v a" and "align_up v a < v + a"
proof -
  have e: "align_up v a = (v + a - 1) div a * a" using assms by (simp add: align_up_pow2)
  have pos: "0 < a" using assms by simp
  obtain q r where qr: "v + a - 1 = q * a + r" "r < a" "q = (v + a - 1) div a"
    using pos by (metis div_mult_mod_eq mod_less_divisor)
  show "align_up v a mod a = 0" by (simp add: e)
  show "v \<le> align_up v a" and "align_up v a < v + a"
    using qr pos by (auto simp: e simp flip: qr(3))
qed

section \<open>Blocks and bytes\<close>

definition span :: "nat \<times> nat \<Rightarrow> nat set" where
  "span b = {fst b ..< fst b + snd b}"

definition bytes :: "(nat \<times> nat) multiset \<Rightarrow> nat multiset" where
  "bytes M = (\<Sum>b \<in># M. mset_set (span b))"

lemma bytes_simps [simp]:
  "bytes {#} = {#}"
  "bytes (add_mset b M) = mset_set (span b) + bytes M"
  "bytes (M + N) = bytes M + bytes N"
  by (simp_all add: bytes_def)

lemma finite_span [simp]: "finite (span b)"
  by (simp add: span_def)

lemma span_join: "mset_set (span (a, s)) + mset_set (span (a + s, t)) = mset_set (span (a, s + t))"
proof -
  have "span (a, s) \<union> span (a + s, t) = span (a, s + t)" by (auto simp: span_def)
  moreover have "span (a, s) \<inter> span (a + s, t) = {}" by (auto simp: span_def)
  ultimately show ?thesis by (metis finite_span mset_set_Union)
qed

lemma count_bytes_mem: "b \<in># M \<Longrightarrow> x \<in> span b \<Longrightarrow> x \<in># bytes M"
  by (auto simp: bytes_def)

lemma mem_bytes_iff: "x \<in># bytes M \<longleftrightarrow> (\<exists>b \<in># M. x \<in> span b)"
  by (auto simp: bytes_def)

lemma bytes_disjoint:
  assumes "bytes (M + N) = mset_set R" and "b \<in># M" and "c \<in># N"
  shows "span b \<inter> span c = {}"
proof (rule ccontr)
  assume "span b \<inter> span c \<noteq> {}"
  then obtain x where x: "x \<in> span b" "x \<in> span c" by blast
  then have "0 < count (bytes M) x" "0 < count (bytes N) x"
    using count_bytes_mem[OF assms(2) x(1)] count_bytes_mem[OF assms(3) x(2)] by simp_all
  then have "2 \<le> count (bytes M) x + count (bytes N) x" by linarith
  then have "2 \<le> count (bytes (M + N)) x" by simp
  moreover have "count (mset_set R) x \<le> 1" by (cases "finite R"; cases "x \<in> R") auto
  ultimately show False unfolding assms(1) by linarith
qed

lemma bytes_within: "bytes M = mset_set R \<Longrightarrow> finite R \<Longrightarrow> b \<in># M \<Longrightarrow> span b \<subseteq> R"
  by (metis count_bytes_mem finite_set_mset_mset_set subsetI)

section \<open>The free list\<close>

definition absorb_next :: "nat \<Rightarrow> nat \<Rightarrow> (nat \<times> nat) list \<Rightarrow> nat \<times> (nat \<times> nat) list" where
  "absorb_next addr sz rest =
     (case rest of [] \<Rightarrow> (sz, [])
      | (c, csz) # next \<Rightarrow> if addr + sz = c then (sz + csz, next) else (sz, rest))"

lemma insert_nolock_split:
  assumes "FREE_NODE \<le> sz"
  obtains before rest where "l = before @ rest"
    and "\<forall>b \<in> set before. fst b < addr" and "rest = [] \<or> addr \<le> fst (hd rest)"
    and "insert_nolock addr sz l =
      (if before \<noteq> [] \<and> fst (last before) + snd (last before) = addr
       then butlast before @ (fst (last before), snd (last before) + fst (absorb_next addr sz rest))
              # snd (absorb_next addr sz rest)
       else before @ (addr, fst (absorb_next addr sz rest)) # snd (absorb_next addr sz rest))"
proof
  let ?b = "takeWhile (\<lambda>b. fst b < addr) l" and ?r = "dropWhile (\<lambda>b. fst b < addr) l"
  show "l = ?b @ ?r" by simp
  show "\<forall>b \<in> set ?b. fst b < addr"
    by (auto dest: set_takeWhileD)
  show "?r = [] \<or> addr \<le> fst (hd ?r)"
    by (metis hd_dropWhile not_less)
  show "insert_nolock addr sz l =
      (if ?b \<noteq> [] \<and> fst (last ?b) + snd (last ?b) = addr
       then butlast ?b @ (fst (last ?b), snd (last ?b) + fst (absorb_next addr sz ?r))
              # snd (absorb_next addr sz ?r)
       else ?b @ (addr, fst (absorb_next addr sz ?r)) # snd (absorb_next addr sz ?r))"
    using assms unfolding insert_nolock_def Let_def absorb_next_def[symmetric]
    by (simp add: case_prod_unfold)
qed

lemma bytes_insert_nolock:
  assumes "FREE_NODE \<le> sz"
  shows "bytes (mset (insert_nolock addr sz l)) = mset_set (span (addr, sz)) + bytes (mset l)"
proof -
  obtain before rest where split: "l = before @ rest"
    "insert_nolock addr sz l =
      (if before \<noteq> [] \<and> fst (last before) + snd (last before) = addr
       then butlast before @ (fst (last before), snd (last before) + fst (absorb_next addr sz rest))
              # snd (absorb_next addr sz rest)
       else before @ (addr, fst (absorb_next addr sz rest)) # snd (absorb_next addr sz rest))"
    by (rule insert_nolock_split[OF assms])
  define nr where "nr = absorb_next addr sz rest"
  have nr: "mset_set (span (addr, fst nr)) + bytes (mset (snd nr))
      = mset_set (span (addr, sz)) + bytes (mset rest)"
    by (cases rest) (auto simp: nr_def absorb_next_def span_join[symmetric] add.assoc split: prod.splits)
  note i = split(2)[folded nr_def]
  show ?thesis
  proof (cases "before \<noteq> [] \<and> fst (last before) + snd (last before) = addr")
    case True
    then obtain bs b t where b: "before = bs @ [(b, t)]" "b + t = addr"
      by (metis append_butlast_last_id prod.collapse)
    have "insert_nolock addr sz l = bs @ (b, t + fst nr) # snd nr"
      unfolding i using b by simp
    then have "bytes (mset (insert_nolock addr sz l))
        = bytes (mset bs) + mset_set (span (b, t)) + (mset_set (span (addr, fst nr)) + bytes (mset (snd nr)))"
      using b(2) by (simp add: span_join[symmetric] add.assoc)
    also have "\<dots> = mset_set (span (addr, sz)) + bytes (mset l)"
      unfolding nr using split(1) b(1) by (simp add: ac_simps)
    finally show ?thesis .
  next
    case False
    then have "insert_nolock addr sz l = before @ (addr, fst nr) # snd nr"
      unfolding i by (rule if_not_P)
    then have "bytes (mset (insert_nolock addr sz l))
        = bytes (mset before) + (mset_set (span (addr, fst nr)) + bytes (mset (snd nr)))"
      by simp
    also have "\<dots> = mset_set (span (addr, sz)) + bytes (mset l)"
      unfolding nr using split(1) by (simp add: ac_simps)
    finally show ?thesis .
  qed
qed

lemma mset_remove_nth:
  "i < length xs \<Longrightarrow> mset xs = add_mset (xs ! i) (mset (take i xs @ drop (Suc i) xs))"
  by (subst id_take_nth_drop) auto

lemma take_raw_Some:
  assumes "take_raw need l = Some ((a, k), l')"
  shows "need \<le> k" and "bytes (mset l) = mset_set (span (a, k)) + bytes (mset l')"
    and "k < need + FREE_NODE"
proof -
  obtain i where i: "position (\<lambda>b. need \<le> snd b) l = Some i"
    using assms by (auto simp: take_raw_def split: option.splits)
  obtain addr tot where b: "l ! i = (addr, tot)" by fastforce
  let ?r = "take i l @ drop (Suc i) l"
  have il: "i < length l" and tot: "need \<le> tot"
    using position_SomeD(1,2)[OF i] b by auto
  have m: "bytes (mset l) = mset_set (span (addr, tot)) + bytes (mset ?r)"
    using mset_remove_nth[OF il] b by simp
  show "need \<le> k" "k < need + FREE_NODE" "bytes (mset l) = mset_set (span (a, k)) + bytes (mset l')"
  proof (atomize (full), cases "FREE_NODE \<le> tot - need")
    case True
    then have e: "a = addr" "k = need" "l' = insert_nolock (addr + need) (tot - need) ?r"
      using assms i b by (auto simp: take_raw_def)
    have "bytes (mset l') = mset_set (span (addr + need, tot - need)) + bytes (mset ?r)"
      unfolding e(3) by (rule bytes_insert_nolock[OF True])
    moreover have "mset_set (span (addr, tot)) = mset_set (span (addr, need)) + mset_set (span (addr + need, tot - need))"
      using span_join[of addr need "tot - need"] tot by simp
    ultimately show "need \<le> k \<and> k < need + FREE_NODE
        \<and> bytes (mset l) = mset_set (span (a, k)) + bytes (mset l')"
      unfolding m by (simp add: e(1,2) FREE_NODE_def ac_simps)
  next
    case False
    then have "a = addr" "k = tot" "l' = ?r"
      using assms i b by (auto simp: take_raw_def)
    with m tot False show "need \<le> k \<and> k < need + FREE_NODE
        \<and> bytes (mset l) = mset_set (span (a, k)) + bytes (mset l')" by auto
  qed
qed

text \<open>Sorted by address, no two blocks touching, no block too small for its node.\<close>

fun coalesced :: "(nat \<times> nat) list \<Rightarrow> bool" where
  "coalesced [] = True"
| "coalesced [b] = (FREE_NODE \<le> snd b)"
| "coalesced (b # c # l) = (FREE_NODE \<le> snd b \<and> fst b + snd b < fst c \<and> coalesced (c # l))"

lemma coalesced_append:
  "coalesced (xs @ ys) \<longleftrightarrow> coalesced xs \<and> coalesced ys
     \<and> (xs \<noteq> [] \<and> ys \<noteq> [] \<longrightarrow> fst (last xs) + snd (last xs) < fst (hd ys))"
proof (induction xs rule: coalesced.induct)
  case (2 b)
  then show ?case by (cases ys) auto
qed auto

lemma coalesced_Cons:
  "coalesced (b # l) \<longleftrightarrow> FREE_NODE \<le> snd b \<and> (l \<noteq> [] \<longrightarrow> fst b + snd b < fst (hd l)) \<and> coalesced l"
  by (cases l) auto

lemma coalesced_bounds:
  assumes "coalesced (xs @ b # ys)"
  shows "\<forall>x \<in> set xs. fst x + snd x < fst b" and "\<forall>y \<in> set ys. fst b + snd b < fst y"
proof -
  have after: "coalesced (b # ys) \<Longrightarrow> \<forall>y \<in> set ys. fst b + snd b < fst y" for b ys
  proof (induction ys arbitrary: b)
    case (Cons y ys)
    then have y: "fst b + snd b < fst y" "coalesced (y # ys)" by simp_all
    have "fst b + snd b < fst z" if "z \<in> set ys" for z
      using Cons.IH[OF y(2)] that y(1) by (meson add_lessD1 less_trans)
    with y(1) show ?case by simp
  qed simp
  show "\<forall>y \<in> set ys. fst b + snd b < fst y"
    using assms by (intro after) (simp add: coalesced_append)
  show "\<forall>x \<in> set xs. fst x + snd x < fst b"
    using assms
  proof (induction xs)
    case (Cons x xs)
    then have "coalesced (x # xs @ b # ys)" and "coalesced (xs @ b # ys)"
      by (simp_all add: coalesced_Cons)
    with Cons.IH after[of x "xs @ b # ys"] show ?case by simp
  qed simp
qed

lemma coalesced_size: "coalesced l \<Longrightarrow> b \<in> set l \<Longrightarrow> FREE_NODE \<le> snd b"
  by (induction l rule: coalesced.induct) auto

lemma coalesced_insert:
  assumes "coalesced l" and "FREE_NODE \<le> sz" and disj: "\<forall>b \<in> set l. span b \<inter> span (addr, sz) = {}"
  shows "coalesced (insert_nolock addr sz l)"
proof -
  obtain before rest where split: "l = before @ rest" "\<forall>b \<in> set before. fst b < addr"
    "rest = [] \<or> addr \<le> fst (hd rest)"
    "insert_nolock addr sz l =
      (if before \<noteq> [] \<and> fst (last before) + snd (last before) = addr
       then butlast before @ (fst (last before), snd (last before) + fst (absorb_next addr sz rest))
              # snd (absorb_next addr sz rest)
       else before @ (addr, fst (absorb_next addr sz rest)) # snd (absorb_next addr sz rest))"
    by (rule insert_nolock_split[OF assms(2)])
  define nr where "nr = absorb_next addr sz rest"
  have co: "coalesced before" "coalesced rest" using assms(1) by (simp_all add: split(1) coalesced_append)
  have pos: "0 < snd b" if "b \<in> set l" for b
    using coalesced_size[OF assms(1) that] by (simp add: FREE_NODE_def)
  have hd_rest: "addr + sz \<le> fst (hd rest)" if "rest \<noteq> []"
  proof (rule ccontr)
    assume "\<not> addr + sz \<le> fst (hd rest)"
    with that split(3) have "fst (hd rest) \<in> span (addr, sz)" by (auto simp: span_def)
    moreover have "fst (hd rest) \<in> span (hd rest)" using pos[of "hd rest"] that split(1) by (simp add: span_def)
    ultimately show False using disj that split(1) by auto
  qed
  have last_before: "fst (last before) + snd (last before) \<le> addr" if "before \<noteq> []"
  proof (rule ccontr)
    assume "\<not> fst (last before) + snd (last before) \<le> addr"
    with that split(2) have "addr \<in> span (last before)" by (auto simp: span_def less_imp_le)
    moreover have "addr \<in> span (addr, sz)" using assms(2) by (simp add: span_def FREE_NODE_def)
    ultimately show False using disj that split(1) by auto
  qed
  have n: "coalesced (snd nr)" "FREE_NODE \<le> fst nr" "snd nr \<noteq> [] \<longrightarrow> addr + fst nr < fst (hd (snd nr))"
    using co(2) assms(2) hd_rest
    by (cases rest; auto simp: nr_def absorb_next_def coalesced_Cons FREE_NODE_def split: prod.splits)+
  show ?thesis
  proof (cases "before \<noteq> [] \<and> fst (last before) + snd (last before) = addr")
    case True
    then obtain bs b t where b: "before = bs @ [(b, t)]" "b + t = addr"
      by (metis append_butlast_last_id prod.collapse)
    have "insert_nolock addr sz l = bs @ (b, t + fst nr) # snd nr"
      unfolding split(4) using b by (simp add: nr_def)
    with n co(1) b show ?thesis by (auto simp: coalesced_append coalesced_Cons FREE_NODE_def)
  next
    case False
    then have "insert_nolock addr sz l = before @ (addr, fst nr) # snd nr"
      unfolding split(4) nr_def by (rule if_not_P)
    with n co(1) False last_before show ?thesis by (auto simp: coalesced_append coalesced_Cons)
  qed
qed

lemma coalesced_remove:
  assumes "coalesced l" and "i < length l"
  shows "coalesced (take i l @ drop (Suc i) l)"
proof -
  have c: "coalesced (take i l @ l ! i # drop (Suc i) l)"
    using assms by (simp add: id_take_nth_drop[symmetric])
  have "fst (last (take i l)) + snd (last (take i l)) < fst (l ! i)" if "take i l \<noteq> []"
    using coalesced_bounds(1)[OF c] that by (metis last_in_set)
  with c show ?thesis by (fastforce simp: coalesced_append coalesced_Cons)
qed

lemma coalesced_take_raw:
  assumes "coalesced l" and "take_raw need l = Some ((a, k), l')"
  shows "coalesced l'"
proof -
  obtain i where i: "position (\<lambda>b. need \<le> snd b) l = Some i"
    using assms by (auto simp: take_raw_def split: option.splits)
  obtain addr tot where b: "l ! i = (addr, tot)" by fastforce
  let ?r = "take i l @ drop (Suc i) l"
  have il: "i < length l" and tot: "need \<le> tot"
    using position_SomeD(1,2)[OF i] b by auto
  have c: "coalesced (take i l @ (addr, tot) # drop (Suc i) l)"
    using assms(1) il b by (metis id_take_nth_drop)
  have d: "\<forall>b \<in> set ?r. span b \<inter> span (addr + need, tot - need) = {}"
    using coalesced_bounds[OF c] tot by (fastforce simp: span_def)
  show ?thesis
  proof (cases "FREE_NODE \<le> tot - need")
    case True
    then have "l' = insert_nolock (addr + need) (tot - need) ?r"
      using assms(2) i b by (auto simp: take_raw_def)
    with coalesced_insert[OF coalesced_remove[OF assms(1) il] True d] show ?thesis by simp
  next
    case False
    then have "l' = ?r" using assms(2) i b by (auto simp: take_raw_def)
    with coalesced_remove[OF assms(1) il] show ?thesis by simp
  qed
qed

lemma coalesced_contiguous:
  assumes "coalesced l" and "{a ..< a + n} \<subseteq> (\<Union>b \<in> set l. span b)" and "0 < n"
  shows "\<exists>b \<in> set l. {a ..< a + n} \<subseteq> span b"
proof -
  have "a \<in> {a ..< a + n}" using assms(3) by simp
  then obtain b where b: "b \<in> set l" "a \<in> span b" using assms(2) by blast
  obtain xs ys where l: "l = xs @ b # ys" using b(1) by (meson split_list)
  note bd = coalesced_bounds[OF assms(1)[unfolded l]]
  have run: "a + i \<in> span b" if "i < n" for i
    using that
  proof (induction i)
    case (Suc i)
    then have i: "a + i \<in> span b" by simp
    show ?case
    proof (rule ccontr)
      assume "a + Suc i \<notin> span b"
      with i have e: "a + Suc i = fst b + snd b" by (auto simp: span_def)
      have "a + Suc i \<in> {a ..< a + n}" using Suc.prems by simp
      then obtain c where c: "c \<in> set l" "a + Suc i \<in> span c"
        using assms(2) by blast
      with \<open>a + Suc i \<notin> span b\<close> have "c \<in> set xs \<or> c \<in> set ys" by (auto simp: l)
      with c(2) e bd i show False by (fastforce simp: span_def)
    qed
  qed (use b in simp)
  have "x \<in> span b" if "x \<in> {a ..< a + n}" for x
    using run[of "x - a"] that by auto
  with b(1) show ?thesis by blast
qed

lemma take_raw_None:
  assumes "coalesced l" and "take_raw need l = None" and "0 < need"
  shows "\<not> {a ..< a + need} \<subseteq> (\<Union>b \<in> set l. span b)"
proof
  assume "{a ..< a + need} \<subseteq> (\<Union>b \<in> set l. span b)"
  from coalesced_contiguous[OF assms(1) this assms(3)]
  obtain b where b: "b \<in> set l" "{a ..< a + need} \<subseteq> span b" by blast
  have "a \<in> span b" "a + (need - 1) \<in> span b" using b(2) assms(3) by auto
  then have "need \<le> snd b" using assms(3) by (auto simp: span_def)
  with b(1) assms(2) position_ex[of b l "\<lambda>b. need \<le> snd b"] show False
    by (auto simp: take_raw_def Let_def split: option.splits prod.splits if_splits)
qed

section \<open>The heap invariant\<close>

definition cached_blocks :: "(nat \<Rightarrow> nat \<Rightarrow> nat list) \<Rightarrow> (nat \<times> nat) multiset" where
  "cached_blocks f = (\<Sum>c < MAX_CPUS. \<Sum>ci < length CLASS_SIZES.
      image_mset (\<lambda>a. (a, CLASS_SIZES ! ci)) (mset (f c ci)))"

definition heap_blocks :: "kheap \<Rightarrow> (nat \<times> nat) multiset" where
  "heap_blocks h = mset (free_list h) + cached_blocks (caches h) + mset (map snd (live h))"

definition live_ok :: "nat \<times> nat \<times> nat \<Rightarrow> bool" where
  "live_ok e = (case e of (u, a, s) \<Rightarrow> a + ALLOC_HEADER \<le> u \<and> u < a + s)"

definition heap_inv_with :: "nat set \<Rightarrow> (nat \<times> nat) multiset \<Rightarrow> kheap \<Rightarrow> bool" where
  "heap_inv_with R M h \<longleftrightarrow> finite R \<and> coalesced (free_list h)
     \<and> bytes (M + heap_blocks h) = mset_set R
     \<and> (\<forall>c ci. length (caches h c ci) \<le> CACHE_CAP)
     \<and> list_all live_ok (live h)"

definition heap_inv :: "nat set \<Rightarrow> kheap \<Rightarrow> bool" where
  "heap_inv R h \<longleftrightarrow> heap_inv_with R {#} h"

lemma sum_change:
  fixes f g :: "nat \<Rightarrow> 'a multiset"
  assumes "x < n" and "f x = g x + d" and "\<And>y. y \<noteq> x \<Longrightarrow> f y = g y"
  shows "sum f {..< n} = sum g {..< n} + d"
proof -
  have "sum f {..< n} = f x + sum f ({..< n} - {x})" "sum g {..< n} = g x + sum g ({..< n} - {x})"
    using assms(1) by (simp_all add: sum.remove)
  moreover have "sum f ({..< n} - {x}) = sum g ({..< n} - {x})"
    using assms(3) by (intro sum.cong) auto
  ultimately show ?thesis using assms(2) by (simp add: ac_simps)
qed

lemma cached_push:
  assumes "c < MAX_CPUS" and "ci < length CLASS_SIZES"
  shows "cached_blocks (f(c := (f c)(ci := a # f c ci))) = add_mset (a, CLASS_SIZES ! ci) (cached_blocks f)"
proof -
  let ?g = "\<lambda>xs ci. image_mset (\<lambda>a. (a, CLASS_SIZES ! ci)) (mset (xs ci))"
  have i: "sum (?g ((f c)(ci := a # f c ci))) {..< length CLASS_SIZES}
      = sum (?g (f c)) {..< length CLASS_SIZES} + {#(a, CLASS_SIZES ! ci)#}"
    by (rule sum_change[OF assms(2)]) simp_all
  have "cached_blocks (f(c := (f c)(ci := a # f c ci))) = cached_blocks f + {#(a, CLASS_SIZES ! ci)#}"
    unfolding cached_blocks_def by (rule sum_change[OF assms(1)]) (simp only: fun_upd_same i, simp)
  then show ?thesis by simp
qed

lemma cached_pop:
  assumes "c < MAX_CPUS" and "ci < length CLASS_SIZES" and "f c ci = a # r"
  shows "cached_blocks f = add_mset (a, CLASS_SIZES ! ci) (cached_blocks (f(c := (f c)(ci := r))))"
  using cached_push[OF assms(1,2), of "f(c := (f c)(ci := r))" a] assms(3)
  by (simp add: fun_upd_idem)

lemma heap_cpu_bound: "heap_cpu i < MAX_CPUS"
  by (simp add: heap_cpu_def MAX_CPUS_def)

lemma class_for_Some: "class_for need = Some ci \<Longrightarrow> ci < length CLASS_SIZES \<and> need \<le> CLASS_SIZES ! ci"
  unfolding class_for_def by (auto dest: position_SomeD)

lemma exact_class_Some: "exact_class sz = Some ci \<Longrightarrow> ci < length CLASS_SIZES \<and> CLASS_SIZES ! ci = sz"
  unfolding exact_class_def by (auto dest: position_SomeD)

text \<open>A block is taken out of the free list or of a cache.\<close>

lemma take_from_pool:
  assumes "heap_inv R h" and "take_raw n (free_list h) = Some ((a, k), l)"
  shows "heap_inv_with R {#(a, k)#} (h\<lparr>free_list := l\<rparr>)"
  using assms(1) take_raw_Some(2)[OF assms(2)] coalesced_take_raw[OF _ assms(2)]
  by (auto simp: heap_inv_def heap_inv_with_def heap_blocks_def ac_simps)

lemma take_from_cache:
  assumes "heap_inv R h" and "c < MAX_CPUS" and "ci < length CLASS_SIZES" and "caches h c ci = a # r"
  shows "heap_inv_with R {#(a, CLASS_SIZES ! ci)#} (set_cache c ci r h)"
proof -
  have "length r \<le> CACHE_CAP"
    using assms(1,4) unfolding heap_inv_def heap_inv_with_def by (metis Suc_leD length_Cons)
  with assms(1) cached_pop[where f = "caches h", OF assms(2-4)] show ?thesis
    by (auto simp: heap_inv_def heap_inv_with_def heap_blocks_def set_cache_def ac_simps)
qed

text \<open>The block becomes a live allocation.\<close>

lemma finish_alloc_inv:
  assumes "heap_inv_with R {#(a, k)#} h" and "align = 2 ^ j"
    and "ALLOC_HEADER + lsize + align \<le> k"
    and "finish_alloc a k ALLOC_HEADER align h = (r, h')"
  obtains u where "r = Some u" and "heap_inv R h'" and "live h' = (u, a, k) # live h" and "u mod align = 0"
    and "{u - ALLOC_HEADER ..< u + lsize} \<subseteq> span (a, k)" and "a + ALLOC_HEADER \<le> u"
proof -
  let ?u = "align_up (a + ALLOC_HEADER) align"
  note al = align_up_spec[OF assms(2), of "a + ALLOC_HEADER"]
  have r: "r = Some ?u" "h' = h\<lparr>live := (?u, a, k) # live h\<rparr>"
    using assms(4) by (simp_all add: finish_alloc_def Let_def)
  show thesis
  proof
    show "r = Some ?u" by (rule r)
    show "live h' = (?u, a, k) # live h" by (simp add: r)
    show "?u mod align = 0" by (rule al(1))
    show "{?u - ALLOC_HEADER ..< ?u + lsize} \<subseteq> span (a, k)"
      using al assms(3) by (auto simp: span_def)
    show "a + ALLOC_HEADER \<le> ?u" by (rule al(2))
    show "heap_inv R h'"
      using assms(1,3) al(2,3)
      by (auto simp: r(2) heap_inv_def heap_inv_with_def heap_blocks_def live_ok_def ac_simps)
  qed
qed

lemma max_pow2: "\<exists>j. max (max (2 ^ k) NODE_ALIGN) NODE_ALIGN = 2 ^ j"
proof -
  have "NODE_ALIGN = 2 ^ 3" by (simp add: NODE_ALIGN_def)
  then show ?thesis by (cases "NODE_ALIGN \<le> 2 ^ k") (auto simp: max_def intro: exI[of _ 3])
qed

text \<open>The block size that \<open>alloc\<close> asks for.\<close>

definition alloc_need :: "nat \<Rightarrow> nat \<Rightarrow> nat" where
  "alloc_need lsize lalign =
     align_up (ALLOC_HEADER + lsize + max (max lalign NODE_ALIGN) NODE_ALIGN) NODE_ALIGN"

definition alloc_request :: "nat \<Rightarrow> nat \<Rightarrow> nat" where
  "alloc_request lsize lalign =
     (case class_for (alloc_need lsize lalign) of Some ci \<Rightarrow> CLASS_SIZES ! ci | None \<Rightarrow> alloc_need lsize lalign)"

lemma alloc_need_ge: "ALLOC_HEADER + lsize + max (max lalign NODE_ALIGN) NODE_ALIGN \<le> alloc_need lsize lalign"
  unfolding alloc_need_def by (rule align_up_spec(2)[where k = 3]) (simp add: NODE_ALIGN_def)

lemma alloc_request_ge: "alloc_need lsize lalign \<le> alloc_request lsize lalign"
  by (auto simp: alloc_request_def dest: class_for_Some split: option.split)

lemma alloc_cases:
  assumes "heap_inv R h" and "alloc cpu lsize lalign h = (r, h')"
  obtains (fail) "r = None" and "h' = h" and "take_raw (alloc_request lsize lalign) (free_list h) = None"
  | (ok) a k g where "heap_inv_with R {#(a, k)#} g" and "alloc_need lsize lalign \<le> k" and "live g = live h"
      and "finish_alloc a k ALLOC_HEADER (max (max lalign NODE_ALIGN) NODE_ALIGN) g = (r, h')"
proof -
  let ?al = "max (max lalign NODE_ALIGN) NODE_ALIGN"
  have pool: thesis
    if e: "(case take_raw (alloc_request lsize lalign) (free_list h) of
        Some ((addr, kept), l) \<Rightarrow> finish_alloc addr kept ALLOC_HEADER ?al (h\<lparr>free_list := l\<rparr>)
      | None \<Rightarrow> (None, h)) = (r, h')"
  proof (cases "take_raw (alloc_request lsize lalign) (free_list h)")
    case None
    with e show thesis by (intro fail) auto
  next
    case (Some x)
    then obtain a k l where x: "take_raw (alloc_request lsize lalign) (free_list h) = Some ((a, k), l)"
      by (cases x) auto
    show thesis
    proof (rule ok)
      show "heap_inv_with R {#(a, k)#} (h\<lparr>free_list := l\<rparr>)" by (rule take_from_pool[OF assms(1) x])
      show "alloc_need lsize lalign \<le> k" using take_raw_Some(1)[OF x] alloc_request_ge by (rule order_trans[rotated])
    qed (use e x in simp_all)
  qed
  show thesis
  proof (cases "class_for (alloc_need lsize lalign)")
    case None
    then have "alloc_request lsize lalign = alloc_need lsize lalign" by (simp add: alloc_request_def)
    with None show thesis using assms(2) by (intro pool) (auto simp: alloc_def alloc_need_def Let_def split: option.splits)
  next
    case (Some ci)
    then have rq: "alloc_request lsize lalign = CLASS_SIZES ! ci" by (simp add: alloc_request_def)
    note ci = class_for_Some[OF Some]
    show thesis
    proof (cases "caches h (heap_cpu cpu) ci")
      case Nil
      with Some rq show thesis using assms(2) by (intro pool) (auto simp: alloc_def alloc_need_def Let_def split: option.splits)
    next
      case (Cons a rest)
      show thesis
      proof (rule ok)
        show "heap_inv_with R {#(a, CLASS_SIZES ! ci)#} (set_cache (heap_cpu cpu) ci rest h)"
          by (rule take_from_cache[OF assms(1) heap_cpu_bound _ Cons]) (use ci in simp)
        show "live (set_cache (heap_cpu cpu) ci rest h) = live h" by (simp add: set_cache_def)
      qed (use assms(2) Some Cons ci in \<open>simp_all add: alloc_def alloc_need_def Let_def\<close>)
    qed
  qed
qed

lemma give_back:
  assumes "heap_inv_with R {#(a, s)#} h" and "FREE_NODE \<le> s"
  shows "heap_inv R (h\<lparr>free_list := give_raw a s (free_list h)\<rparr>)"
proof -
  have b: "bytes ({#(a, s)#} + heap_blocks h) = mset_set R" "coalesced (free_list h)"
    using assms(1) by (simp_all add: heap_inv_with_def)
  have "span b \<inter> span (a, s) = {}" if "b \<in> set (free_list h)" for b
    using bytes_disjoint[OF b(1), of "(a, s)" b] that by (auto simp: heap_blocks_def)
  then have "coalesced (give_raw a s (free_list h))"
    unfolding give_raw_def using coalesced_insert[OF b(2) assms(2)] by blast
  with assms show ?thesis
    by (simp add: heap_inv_def heap_inv_with_def heap_blocks_def give_raw_def bytes_insert_nolock ac_simps)
qed

lemma cache_back:
  assumes "heap_inv_with R {#(a, CLASS_SIZES ! ci)#} h" and "c < MAX_CPUS" and "ci < length CLASS_SIZES"
    and "length (caches h c ci) < CACHE_CAP"
  shows "heap_inv R (set_cache c ci (a # caches h c ci) h)"
  using assms(1,4) cached_push[OF assms(2,3), of "caches h" a]
  by (auto simp: heap_inv_def heap_inv_with_def heap_blocks_def set_cache_def ac_simps)

lemma dealloc_inv:
  assumes "heap_inv R h" and "dealloc cpu ptr h = Some h'"
  shows "heap_inv R h'"
proof -
  obtain i a s where i: "position (\<lambda>e. fst e = ptr) (live h) = Some i" and e: "live h ! i = (ptr, a, s)"
    using assms(2) by (cases "position (\<lambda>e. fst e = ptr) (live h)")
      (auto simp: dealloc_def dest!: position_SomeD(2) split: prod.splits)
  have il: "i < length (live h)" using position_SomeD(1)[OF i] .
  let ?g = "h\<lparr>live := take i (live h) @ drop (Suc i) (live h)\<rparr>"
  have m: "mset (map snd (live h)) = add_mset (a, s) (mset (map snd (take i (live h) @ drop (Suc i) (live h))))"
    using mset_remove_nth[OF il] e by simp
  have ok: "live_ok (ptr, a, s)" using assms(1) il e by (metis heap_inv_def heap_inv_with_def list_all_length)
  then have s: "FREE_NODE \<le> s" by (simp add: live_ok_def FREE_NODE_def ALLOC_HEADER_def)
  have g: "heap_inv_with R {#(a, s)#} ?g"
    using assms(1) m il
    by (auto simp: heap_inv_def heap_inv_with_def heap_blocks_def list_all_iff ac_simps
        dest: in_set_takeD in_set_dropD)
  have h': "h' = (case exact_class s of
                Some ci \<Rightarrow>
                  if length (caches ?g (heap_cpu cpu) ci) < CACHE_CAP
                  then set_cache (heap_cpu cpu) ci (a # caches ?g (heap_cpu cpu) ci) ?g
                  else ?g\<lparr>free_list := give_raw a s (free_list ?g)\<rparr>
              | None \<Rightarrow> ?g\<lparr>free_list := give_raw a s (free_list ?g)\<rparr>)"
    using assms(2) i e by (simp add: dealloc_def Let_def)
  show ?thesis
  proof (cases "exact_class s")
    case None
    with h' give_back[OF g s] show ?thesis by simp
  next
    case (Some ci)
    note ci = exact_class_Some[OF Some]
    with g have g': "heap_inv_with R {#(a, CLASS_SIZES ! ci)#} ?g" by simp
    show ?thesis
      using h' Some give_back[OF g s] cache_back[OF g' heap_cpu_bound[of cpu]] ci by (auto split: if_splits)
  qed
qed

lemma alloc_inv:
  assumes "heap_inv R h" and "alloc cpu lsize (2 ^ k) h = (r, h')"
  shows "heap_inv R h'"
  using assms
proof (cases rule: alloc_cases)
  case (ok a sz g)
  obtain j where j: "max (max (2 ^ k) NODE_ALIGN) NODE_ALIGN = 2 ^ j" using max_pow2 by blast
  have "ALLOC_HEADER + lsize + max (max (2 ^ k) NODE_ALIGN) NODE_ALIGN \<le> sz"
    using alloc_need_ge ok(2) by (rule order_trans)
  from finish_alloc_inv[OF ok(1) j this ok(4)] show ?thesis by blast
qed (use assms(1) in simp)

lemma alloc_ok:
  assumes "heap_inv R h" and "lalign = 2 ^ k" and "alloc cpu lsize lalign h = (Some p, h')"
  shows "p mod lalign = 0" and "heap_inv R h'" and "{p - ALLOC_HEADER ..< p + lsize} \<subseteq> R"
    and "\<And>q b. (q, b) \<in> set (live h) \<Longrightarrow> {p - ALLOC_HEADER ..< p + lsize} \<inter> span b = {}"
    and "\<exists>b. live h' = (p, b) # live h \<and> {p - ALLOC_HEADER ..< p + lsize} \<subseteq> span b" and "ALLOC_HEADER \<le> p"
proof -
  let ?al = "max (max lalign NODE_ALIGN) NODE_ALIGN"
  obtain a sz g where ok: "heap_inv_with R {#(a, sz)#} g" "alloc_need lsize lalign \<le> sz" "live g = live h"
    "finish_alloc a sz ALLOC_HEADER ?al g = (Some p, h')"
    using assms(1,3) by (cases rule: alloc_cases) auto
  obtain j where j: "?al = 2 ^ j" using max_pow2 assms(2) by blast
  have sz: "ALLOC_HEADER + lsize + ?al \<le> sz" using alloc_need_ge ok(2) by (rule order_trans)
  obtain u where u: "Some p = Some u" "heap_inv R h'" "live h' = (u, a, sz) # live g" "u mod ?al = 0"
    "{u - ALLOC_HEADER ..< u + lsize} \<subseteq> span (a, sz)" "a + ALLOC_HEADER \<le> u"
    by (rule finish_alloc_inv[OF ok(1) j sz ok(4)])
  have up: "u = p" using u(1) by simp
  have b: "bytes ({#(a, sz)#} + heap_blocks g) = mset_set R" "finite R"
    using ok(1) by (simp_all add: heap_inv_with_def)
  show "heap_inv R h'" by (rule u(2))
  show "\<exists>b. live h' = (p, b) # live h \<and> {p - ALLOC_HEADER ..< p + lsize} \<subseteq> span b"
    using u(3,5) ok(3) up by auto
  show "ALLOC_HEADER \<le> p" using u(6) up by simp
  have "span (a, sz) \<subseteq> R" using bytes_within[OF b] by simp
  with u(5) up show "{p - ALLOC_HEADER ..< p + lsize} \<subseteq> R" by simp
  show "{p - ALLOC_HEADER ..< p + lsize} \<inter> span c = {}" if "(q, c) \<in> set (live h)" for q c
  proof -
    have "c \<in> snd ` set (live h)" using that by (metis image_eqI snd_conv)
    then have "c \<in># heap_blocks g" by (simp add: heap_blocks_def ok(3))
    then have "span (a, sz) \<inter> span c = {}" by (intro bytes_disjoint[OF b(1)]) simp_all
    with u(5) up show ?thesis by blast
  qed
  have "lalign \<le> ?al" by simp
  then have "(2 :: nat) ^ k \<le> 2 ^ j" unfolding j unfolding assms(2) .
  then have "(2 :: nat) ^ k dvd 2 ^ j" by (simp add: le_imp_power_dvd)
  then have "lalign dvd ?al" unfolding j unfolding assms(2) .
  from dvd_trans[OF this mod_0_imp_dvd[OF u(4)]] show "p mod lalign = 0"
    unfolding up by (rule dvd_imp_mod_0)
qed

lemma alloc_fail:
  assumes "heap_inv R h" and "alloc cpu lsize lalign h = (None, h')"
  shows "h' = h" and "\<not> {a ..< a + alloc_request lsize lalign} \<subseteq> (\<Union>b \<in> set (free_list h). span b)"
proof -
  have f: "h' = h" "take_raw (alloc_request lsize lalign) (free_list h) = None"
    using assms by (cases rule: alloc_cases, simp_all add: finish_alloc_def Let_def)+
  show "h' = h" by (rule f(1))
  have "0 < alloc_request lsize lalign"
    using alloc_need_ge[of lsize lalign] alloc_request_ge[of lsize lalign] by (simp add: ALLOC_HEADER_def)
  moreover have "coalesced (free_list h)" using assms(1) by (simp add: heap_inv_def heap_inv_with_def)
  ultimately show "\<not> {a ..< a + alloc_request lsize lalign} \<subseteq> (\<Union>b \<in> set (free_list h). span b)"
    using take_raw_None f(2) by blast
qed

section \<open>Properties\<close>

text \<open>
  C14: an allocation is good. The pointer is aligned as the layout asks; its bytes and its header
  lie in the heap region and in no block that was live before, and no live block is touched. When
  \<open>alloc\<close> fails, it changes nothing and no contiguous run of free bytes of the requested block size
  exists, so first fit with coalescing loses nothing to external fragmentation of adjacent blocks.
\<close>

theorem alloc_correct:
  assumes "heap_inv R h" and "lalign = 2 ^ k"
  shows "case alloc cpu lsize lalign h of
      (Some p, h') \<Rightarrow> p mod lalign = 0 \<and> heap_inv R h'
        \<and> {p - ALLOC_HEADER ..< p + lsize} \<subseteq> R
        \<and> (\<forall>(q, b) \<in> set (live h). {p - ALLOC_HEADER ..< p + lsize} \<inter> span b = {})
        \<and> (\<exists>b. live h' = (p, b) # live h)
    | (None, h') \<Rightarrow> h' = h
        \<and> (\<forall>a. \<not> {a ..< a + alloc_request lsize lalign} \<subseteq> (\<Union>b \<in> set (free_list h). span b))"
proof (cases "alloc cpu lsize lalign h")
  case (Pair r h')
  show ?thesis
  proof (cases r)
    case None
    with Pair alloc_fail[OF assms(1), of cpu lsize lalign h'] show ?thesis by simp
  next
    case (Some p)
    note a = alloc_ok[OF assms Pair[unfolded Some]]
    have "\<forall>(q, b) \<in> set (live h). {p - ALLOC_HEADER ..< p + lsize} \<inter> span b = {}"
      using a(4) by blast
    with a(1-3) a(5) show ?thesis unfolding Pair Some by auto
  qed
qed

text \<open>The heap right after \<open>init\<close> satisfies the invariant.\<close>

lemma heap_inv_init:
  assumes "FREE_NODE \<le> sz"
  shows "heap_inv {start ..< start + sz} (heap_init start sz heap_new)"
proof -
  have "insert_nolock start sz [] = [(start, sz)]"
    using assms by (simp add: insert_nolock_def)
  moreover have "cached_blocks (\<lambda>_ _. []) = {#}" by (simp add: cached_blocks_def)
  ultimately show ?thesis
    using assms by (simp add: heap_inv_def heap_inv_with_def heap_blocks_def heap_init_def heap_new_def span_def)
qed

theorem alloc_correct_witness:
  "\<exists>p h'. alloc 0 100 32 (heap_init 0x1000 0x1000 heap_new) = (Some p, h') \<and> p = 0x1020 \<and> p mod 32 = 0"
proof -
  have "FREE_NODE \<le> 0x1000" by (simp add: FREE_NODE_def)
  from alloc_correct[OF heap_inv_init[OF this, of "0x1000"], where lalign = 32 and k = 5 and cpu = 0 and lsize = 100]
  have "case alloc 0 100 32 (heap_init 0x1000 0x1000 heap_new) of (Some p, h') \<Rightarrow> p mod 32 = 0 | _ \<Rightarrow> True"
    by (auto split: prod.splits option.splits)
  moreover have "fst (alloc 0 100 32 (heap_init 0x1000 0x1000 heap_new)) = Some 0x1020" by code_simp
  ultimately show ?thesis by (cases "alloc 0 100 32 (heap_init 0x1000 0x1000 heap_new)") simp
qed

text \<open>The allocator's operations as one step.\<close>

inductive heap_step :: "kheap \<Rightarrow> kheap \<Rightarrow> bool" where
  heap_alloc: "alloc cpu lsize (2 ^ k) h = (r, h') \<Longrightarrow> heap_step h h'"
| heap_dealloc: "dealloc cpu ptr h = Some h' \<Longrightarrow> heap_step h h'"

text \<open>
  C17: the heap never loses or duplicates a byte. After any sequence of allocations and
  deallocations on any CPUs, the free blocks, the cached blocks and the live blocks partition the
  heap region exactly, the free list is sorted and fully coalesced, and no cache exceeds its cap.
\<close>

theorem heap_partition:
  assumes "FREE_NODE \<le> sz" and "heap_step\<^sup>*\<^sup>* (heap_init start sz heap_new) h"
  shows "bytes (mset (free_list h) + cached_blocks (caches h) + mset (map snd (live h))) = mset_set {start ..< start + sz}
    \<and> coalesced (free_list h) \<and> (\<forall>c ci. length (caches h c ci) \<le> CACHE_CAP)"
proof -
  have "heap_inv {start ..< start + sz} h"
    using assms(2) heap_inv_init[OF assms(1)]
    by (induction rule: rtranclp_induct) (auto elim!: heap_step.cases intro: alloc_inv dealloc_inv)
  then show ?thesis by (simp add: heap_inv_def heap_inv_with_def heap_blocks_def)
qed

theorem heap_partition_witness:
  "coalesced (free_list (the (dealloc 1 0x1020 (snd (alloc 0 100 32 (heap_init 0x1000 0x1000 heap_new))))))"
proof -
  let ?h0 = "heap_init 0x1000 0x1000 heap_new"
  let ?h1 = "snd (alloc 0 100 32 ?h0)"
  have "heap_step ?h0 ?h1"
    using heap_alloc[of 0 100 5 ?h0 "fst (alloc 0 100 32 ?h0)" ?h1] by simp
  moreover have "dealloc 1 0x1020 ?h1 \<noteq> None" by code_simp
  then have "heap_step ?h1 (the (dealloc 1 0x1020 ?h1))"
    by (auto intro: heap_dealloc[of 1 "0x1020"])
  ultimately have "heap_step\<^sup>*\<^sup>* ?h0 (the (dealloc 1 0x1020 ?h1))" by simp
  moreover have "FREE_NODE \<le> 0x1000" by (simp add: FREE_NODE_def)
  ultimately show ?thesis using heap_partition by blast
qed

end
