(* ===== verification/Vmm.thy ===== *)
theory Vmm
  imports Kernel_Heap
begin

unbundle bit_operations_syntax

text \<open>
  The virtual memory manager, \<^verbatim>\<open>crates/kernel/src/memory/vmm.rs\<close>: four-level x86-64 page tables.
  Tables live in identity-mapped memory that is addressed in 8-byte cells (\<open>vmem\<close>), and are
  allocated from the kernel heap of \<open>Kernel_Heap\<close>.

  The invariant \<open>pt_wf\<close> describes the user half of the address spaces (entries 1 to 255 of every
  top-level table) as a forest: \<open>tabs\<close> gives each table its level, a present entry of a level-\<open>l\<close>
  table leads to a level-\<open>l - 1\<close> table, and no two entries lead to the same table. The kernel's own
  mappings (entries 0 and 256 to 511, set up by the boot loader, possibly with large pages) are
  outside the invariant. The translation look-aside buffer is not modelled.
\<close>

section \<open>Model\<close>

definition PAGE_SIZE :: u64 where "PAGE_SIZE = 4096"
definition PRESENT :: u64 where "PRESENT = 1"
definition WRITABLE :: u64 where "WRITABLE = 2"
definition USER :: u64 where "USER = 4"
definition PWT :: u64 where "PWT = 8"
definition PCD :: u64 where "PCD = 16"
definition NO_EXECUTE :: u64 where "NO_EXECUTE = 0x8000000000000000"
definition ADDR_MASK :: u64 where "ADDR_MASK = 0x000ffffffffff000"

datatype map_error = OutOfMemory | InvalidAddress

text \<open>\<open>MapFlags\<close> is a wrapped \<open>u64\<close>.\<close>

definition MAP_READ :: u64 where "MAP_READ = 0"
definition MAP_READ_WRITE :: u64 where "MAP_READ_WRITE = WRITABLE"
definition USER_READ :: u64 where "USER_READ = USER"
definition USER_READ_WRITE :: u64 where "USER_READ_WRITE = USER OR WRITABLE"
definition USER_MMIO :: u64 where "USER_MMIO = USER OR WRITABLE OR PWT OR PCD"

definition no_execute :: "u64 \<Rightarrow> u64" where
  "no_execute flags = flags OR NO_EXECUTE"

record vmm_state =
  vmem :: "u64 \<Rightarrow> u64"
  kh :: kheap
  kernel_pml4 :: u64
  current_pml4 :: u64
  cr3_reg :: u64
  this_cpu :: nat

definition vmm_init :: "vmm_state \<Rightarrow> vmm_state" where
  "vmm_init s = (let cr3 = cr3_reg s AND ADDR_MASK in s\<lparr>current_pml4 := cr3, kernel_pml4 := cr3\<rparr>)"

definition switch_cr3 :: "u64 \<Rightarrow> vmm_state \<Rightarrow> vmm_state" where
  "switch_cr3 cr3 s = s\<lparr>current_pml4 := cr3 AND ADDR_MASK, cr3_reg := cr3 AND ADDR_MASK\<rparr>"

definition active_cr3 :: "vmm_state \<Rightarrow> u64" where
  "active_cr3 s = cr3_reg s AND ADDR_MASK"

definition entry_addr :: "u64 \<Rightarrow> nat \<Rightarrow> u64" where
  "entry_addr table index = table + 8 * word_of_nat index"

definition read_entry :: "u64 \<Rightarrow> nat \<Rightarrow> vmm_state \<Rightarrow> u64" where
  "read_entry table index s = vmem s (entry_addr table index)"

definition write_entry :: "u64 \<Rightarrow> nat \<Rightarrow> u64 \<Rightarrow> vmm_state \<Rightarrow> vmm_state" where
  "write_entry table index v s = s\<lparr>vmem := (vmem s)(entry_addr table index := v)\<rparr>"

text \<open>\<open>alloc_zeroed\<close> with a page-sized, page-aligned layout.\<close>

definition alloc_table :: "vmm_state \<Rightarrow> (map_error + u64) \<times> vmm_state" where
  "alloc_table s =
     (case alloc (this_cpu s) 4096 4096 (kh s) of
        (None, h) \<Rightarrow> (Inl OutOfMemory, s\<lparr>kh := h\<rparr>)
      | (Some p, h) \<Rightarrow>
          (Inr (word_of_nat p),
           s\<lparr>kh := h, vmem := (\<lambda>a. if p \<le> unat a \<and> unat a < p + 4096 then 0 else vmem s a)\<rparr>))"

definition next_table :: "u64 \<Rightarrow> nat \<Rightarrow> u64 \<Rightarrow> vmm_state \<Rightarrow> (map_error + u64) \<times> vmm_state" where
  "next_table parent index flags s =
     (let entry = read_entry parent index s
      in if entry AND PRESENT \<noteq> 0 then (Inr (entry AND ADDR_MASK), s)
         else
           (case alloc_table s of
              (Inl e, s') \<Rightarrow> (Inl e, s')
            | (Inr table, s') \<Rightarrow>
                (Inr table,
                 write_entry parent index
                   ((table AND ADDR_MASK) OR PRESENT OR WRITABLE OR (flags AND USER)) s')))"

text \<open>The null pointer is 0.\<close>

definition table_if_present :: "u64 \<Rightarrow> nat \<Rightarrow> vmm_state \<Rightarrow> u64" where
  "table_if_present parent index s =
     (let entry = read_entry parent index s
      in if entry AND PRESENT \<noteq> 0 then entry AND ADDR_MASK else 0)"

definition pt_index :: "nat \<Rightarrow> u64 \<Rightarrow> nat" where
  "pt_index shift virt = unat (drop_bit shift virt AND 0x1ff)"

definition map_page :: "u64 \<Rightarrow> u64 \<Rightarrow> u64 \<Rightarrow> u64 \<Rightarrow> vmm_state \<Rightarrow> (map_error + unit) \<times> vmm_state" where
  "map_page cr3 virt phys flags s =
     (if virt AND (PAGE_SIZE - 1) \<noteq> 0 \<or> phys AND (PAGE_SIZE - 1) \<noteq> 0 then (Inl InvalidAddress, s)
      else
        (case next_table (cr3 AND ADDR_MASK) (pt_index 39 virt) flags s of
           (Inl e, s1) \<Rightarrow> (Inl e, s1)
         | (Inr pdpt, s1) \<Rightarrow>
             (case next_table pdpt (pt_index 30 virt) flags s1 of
                (Inl e, s2) \<Rightarrow> (Inl e, s2)
              | (Inr pd, s2) \<Rightarrow>
                  (case next_table pd (pt_index 21 virt) flags s2 of
                     (Inl e, s3) \<Rightarrow> (Inl e, s3)
                   | (Inr pt, s3) \<Rightarrow>
                       (Inr (), write_entry pt (pt_index 12 virt)
                                  ((phys AND ADDR_MASK) OR PRESENT OR flags) s3)))))"

text \<open>The loop of \<open>map_range\<close>: \<open>n\<close> pages are left, \<open>page\<close> is the next one.\<close>

primrec map_pages :: "nat \<Rightarrow> nat \<Rightarrow> u64 \<Rightarrow> u64 \<Rightarrow> u64 \<Rightarrow> u64 \<Rightarrow> vmm_state \<Rightarrow> (map_error + unit) \<times> vmm_state" where
  "map_pages 0 page cr3 virt phys flags s = (Inr (), s)"
| "map_pages (Suc n) page cr3 virt phys flags s =
     (case map_page cr3 (virt + word_of_nat page * PAGE_SIZE) (phys + word_of_nat page * PAGE_SIZE) flags s of
        (Inl e, s') \<Rightarrow> (Inl e, s')
      | (Inr _, s') \<Rightarrow> map_pages n (Suc page) cr3 virt phys flags s')"

definition map_range :: "u64 \<Rightarrow> u64 \<Rightarrow> u64 \<Rightarrow> u64 \<Rightarrow> u64 \<Rightarrow> vmm_state \<Rightarrow> (map_error + unit) \<times> vmm_state" where
  "map_range cr3 virt phys sz flags s =
     (if sz = 0 then (Inr (), s)
      else map_pages (div_ceil (unat sz) (unat PAGE_SIZE)) 0 cr3 virt phys flags s)"

definition unmap_page :: "u64 \<Rightarrow> u64 \<Rightarrow> vmm_state \<Rightarrow> vmm_state" where
  "unmap_page cr3 virt s =
     (let pdpt = table_if_present (cr3 AND ADDR_MASK) (pt_index 39 virt) s
      in if pdpt = 0 then s
         else let pd = table_if_present pdpt (pt_index 30 virt) s
         in if pd = 0 then s
            else let pt = table_if_present pd (pt_index 21 virt) s
            in if pt = 0 then s
               else write_entry pt (pt_index 12 virt) 0 s)"

definition unmap_range :: "u64 \<Rightarrow> u64 \<Rightarrow> u64 \<Rightarrow> vmm_state \<Rightarrow> vmm_state" where
  "unmap_range cr3 virt sz s =
     (if sz = 0 then s
      else fold (\<lambda>page. unmap_page cr3 (virt + word_of_nat page * PAGE_SIZE))
             [0 ..< div_ceil (unat sz) (unat PAGE_SIZE)] s)"

definition translate :: "u64 \<Rightarrow> u64 \<Rightarrow> vmm_state \<Rightarrow> u64 option" where
  "translate cr3 virt s =
     (let pdpt = table_if_present (cr3 AND ADDR_MASK) (pt_index 39 virt) s
      in if pdpt = 0 then None
         else let pd = table_if_present pdpt (pt_index 30 virt) s
         in if pd = 0 then None
            else let pt = table_if_present pd (pt_index 21 virt) s
            in if pt = 0 then None
               else let entry = read_entry pt (pt_index 12 virt) s
               in if entry AND PRESENT \<noteq> 0 then Some (entry AND ADDR_MASK) else None)"

text \<open>The loop of \<open>user_accessible\<close>: \<open>levels\<close> are left below this one, so the shift is \<open>12 + 9 * levels\<close>.\<close>

primrec walk_accessible :: "nat \<Rightarrow> u64 \<Rightarrow> u64 \<Rightarrow> u64 \<Rightarrow> vmm_state \<Rightarrow> bool" where
  "walk_accessible 0 table virt need s =
     (let entry = read_entry table (pt_index 12 virt) s
      in \<not> (entry AND PRESENT = 0 \<or> entry AND need \<noteq> need))"
| "walk_accessible (Suc levels) table virt need s =
     (let entry = read_entry table (pt_index (12 + 9 * Suc levels) virt) s
      in if entry AND PRESENT = 0 \<or> entry AND need \<noteq> need then False
         else walk_accessible levels (entry AND ADDR_MASK) virt need s)"

definition user_accessible :: "u64 \<Rightarrow> u64 \<Rightarrow> bool \<Rightarrow> vmm_state \<Rightarrow> bool" where
  "user_accessible cr3 virt wr s =
     walk_accessible 3 (cr3 AND ADDR_MASK) virt (USER OR (if wr then WRITABLE else 0)) s"

definition create_address_space :: "vmm_state \<Rightarrow> (map_error + u64) \<times> vmm_state" where
  "create_address_space s =
     (case alloc_table s of
        (Inl e, s') \<Rightarrow> (Inl e, s')
      | (Inr pml4, s') \<Rightarrow>
          (let kernel = kernel_pml4 s';
               s0 = write_entry pml4 0 (read_entry kernel 0 s') s';
               s1 = fold (\<lambda>i. write_entry pml4 i 0) [1 ..< 256] s0;
               s2 = fold (\<lambda>i s. write_entry pml4 i (read_entry kernel i s) s) [256 ..< 512] s1
           in (Inr pml4, s2)))"

definition free_user_address_space :: "u64 \<Rightarrow> vmm_state \<Rightarrow> vmm_state" where
  "free_user_address_space cr3 s =
     (let pml4 = cr3 AND ADDR_MASK
      in if pml4 = 0 \<or> pml4 = kernel_pml4 s AND ADDR_MASK then s
         else fold (\<lambda>i. write_entry pml4 i 0) [1 ..< 256] s)"

section \<open>Addresses and entries\<close>

abbreviation is_present :: "u64 \<Rightarrow> bool" where
  "is_present e \<equiv> e AND PRESENT \<noteq> 0"

definition page :: "u64 \<Rightarrow> nat set" where
  "page t = {unat t ..< unat t + 4096}"

lemma ADDR_MASK_eq: "ADDR_MASK = push_bit 12 (mask 40)"
  by (simp add: ADDR_MASK_def mask_eq_exp_minus_1)

lemma bit_ADDR_MASK: "bit ADDR_MASK n \<longleftrightarrow> 12 \<le> n \<and> n < 52"
  by (auto simp: ADDR_MASK_eq bit_simps)

lemma masked_table:
  assumes "t AND ADDR_MASK = t"
  shows "unat t mod 4096 = 0" and "unat t + 4096 \<le> 2 ^ 52"
proof -
  have b: "bit t n \<Longrightarrow> 12 \<le> n \<and> n < 52" for n
    using assms bit_ADDR_MASK by (metis bit_and_iff)
  have "take_bit 12 t = 0"
    by (rule bit_eqI) (auto simp: bit_take_bit_iff dest: b)
  then have "take_bit 12 (unat t) = 0" by (metis unsigned_0 unsigned_take_bit_eq)
  then show a: "unat t mod 4096 = 0" by (simp add: take_bit_eq_mod)
  have "take_bit 52 t = t"
    by (rule bit_eqI) (auto simp: bit_take_bit_iff dest: b)
  then have "unat t = unat t mod 2 ^ 52"
    by (metis unsigned_take_bit_eq take_bit_eq_mod)
  then have "unat t < 2 ^ 52"
    by (metis mod_less_divisor zero_less_numeral zero_less_power)
  moreover obtain q where "unat t = 4096 * q" using a by (auto elim: dvdE simp: mod_eq_0_iff_dvd)
  ultimately show "unat t + 4096 \<le> 2 ^ 52" by simp
qed

lemma masked_of_nat:
  assumes "p mod 4096 = 0" and "p + 4096 \<le> 2 ^ 52"
  shows "unat (word_of_nat p :: u64) = p" and "(word_of_nat p :: u64) AND ADDR_MASK = word_of_nat p"
proof -
  have lt: "p < 2 ^ 52" using assms(2) by simp
  show u: "unat (word_of_nat p :: u64) = p"
    using lt by (simp add: unat_of_nat)
  have "bit p n \<Longrightarrow> 12 \<le> n \<and> n < 52" for n
  proof -
    assume n: "bit p n"
    have "take_bit 12 p = 0" using assms(1) by (simp add: take_bit_eq_mod)
    moreover have "take_bit 52 p = p" using lt by (simp add: take_bit_eq_mod)
    ultimately show "12 \<le> n \<and> n < 52"
      using n by (metis bit_0_eq bit_take_bit_iff bot_apply not_le bot_bool_def)
  qed
  then show "(word_of_nat p :: u64) AND ADDR_MASK = word_of_nat p"
    by (intro bit_eqI) (auto simp: bit_and_iff bit_ADDR_MASK bit_of_nat_iff)
qed

lemma unat_entry_addr:
  assumes "t AND ADDR_MASK = t" and "i < 512"
  shows "unat (entry_addr t i) = unat t + 8 * i"
proof -
  have t: "unat t + 4096 \<le> 2 ^ 52" by (rule masked_table(2)[OF assms(1)])
  have "unat (word_of_nat (8 * i) :: u64) = 8 * i mod 2 ^ 64" by (simp only: unat_of_nat) simp
  then have "unat (word_of_nat (8 * i) :: u64) = 8 * i" using assms(2) by (simp only:) simp
  moreover have "entry_addr t i = t + word_of_nat (8 * i)" by (simp add: entry_addr_def)
  ultimately show ?thesis using t assms(2) by (simp add: unat_add_exact)
qed

lemma entry_addr_inj:
  assumes "t AND ADDR_MASK = t" and "i < 512" and "u AND ADDR_MASK = u" and "j < 512"
  shows "entry_addr t i = entry_addr u j \<longleftrightarrow> t = u \<and> i = j"
proof
  assume e: "entry_addr t i = entry_addr u j"
  then have n: "unat t + 8 * i = unat u + 8 * j"
    using unat_entry_addr[OF assms(1,2)] unat_entry_addr[OF assms(3,4)] by simp
  obtain q q' where q: "unat t = 4096 * q" "unat u = 4096 * q'"
    using masked_table(1)[OF assms(1)] masked_table(1)[OF assms(3)] by (auto elim!: dvdE simp: mod_eq_0_iff_dvd)
  have "q = q'" using n assms(2,4) by (simp add: q)
  with n q have "unat t = unat u" and "i = j" by auto
  then show "t = u \<and> i = j" by (simp add: word_unat_eq_iff)
qed simp

lemma pt_index_lt [simp]: "pt_index k v < 512"
proof -
  have "drop_bit k v AND 0x1ff \<le> (0x1ff :: u64)" by (rule word_and_le1)
  then have "unat (drop_bit k v AND 0x1ff) \<le> 0x1ff" by (simp add: word_le_nat_alt)
  then show ?thesis by (simp add: pt_index_def)
qed

lemma read_write_entry:
  assumes "t AND ADDR_MASK = t" and "i < 512" and "u AND ADDR_MASK = u" and "j < 512"
  shows "read_entry t i (write_entry u j v s) = (if t = u \<and> i = j then v else read_entry t i s)"
  using entry_addr_inj[OF assms] by (auto simp: read_entry_def write_entry_def)

lemma entry_value:
  assumes "x AND ADDR_MASK = 0"
  shows "((t AND ADDR_MASK) OR x) AND ADDR_MASK = t AND ADDR_MASK"
  using assms by (simp add: bit.conj_disj_distrib2 and.assoc)

lemma new_entry:
  fixes flags :: u64
  assumes "t AND ADDR_MASK = t"
  defines "e \<equiv> (t AND ADDR_MASK) OR PRESENT OR WRITABLE OR (flags AND USER)"
  shows "e AND ADDR_MASK = t" and "is_present e"
    and "flags AND USER = USER \<Longrightarrow> e AND (USER OR WRITABLE) = USER OR WRITABLE"
proof -
  have "(PRESENT OR WRITABLE OR (flags AND USER)) AND ADDR_MASK = 0"
    by (simp add: bit.conj_disj_distrib2 and.assoc) (simp add: PRESENT_def WRITABLE_def USER_def ADDR_MASK_def)
  from entry_value[OF this, of t] show "e AND ADDR_MASK = t" by (simp add: e_def assms(1))
  show "is_present e"
  proof
    assume "e AND PRESENT = 0"
    moreover have "bit (e AND PRESENT) 0" by (simp add: e_def PRESENT_def bit_simps)
    ultimately show False by simp
  qed
  show "e AND (USER OR WRITABLE) = USER OR WRITABLE" if "flags AND USER = USER"
    unfolding e_def that by (rule bit_eqI) (auto simp: bit_simps)
qed

section \<open>The forest of user page tables\<close>

definition valid_idx :: "nat \<Rightarrow> nat \<Rightarrow> bool" where
  "valid_idx l i \<longleftrightarrow> i < 512 \<and> (l = 4 \<longrightarrow> 1 \<le> i \<and> i < 256)"

definition user_virt :: "u64 \<Rightarrow> bool" where
  "user_virt v \<longleftrightarrow> 1 \<le> pt_index 39 v \<and> pt_index 39 v < 256"

text \<open>A table is either outside the heap region (the boot loader's) or inside a live heap block.\<close>

definition table_ok :: "nat set \<Rightarrow> kheap \<Rightarrow> u64 \<Rightarrow> bool" where
  "table_ok R h t \<longleftrightarrow> t AND ADDR_MASK = t \<and> t \<noteq> 0
     \<and> (page t \<inter> R = {} \<or> (\<exists>q b. (q, b) \<in> set (live h) \<and> page t \<subseteq> span b))"

definition pt_wf :: "nat set \<Rightarrow> (u64 \<Rightarrow> nat option) \<Rightarrow> vmm_state \<Rightarrow> bool" where
  "pt_wf R tabs s \<longleftrightarrow>
     heap_inv R (kh s) \<and> R \<subseteq> {..< 2 ^ 52}
     \<and> (\<forall>t l. tabs t = Some l \<longrightarrow> 1 \<le> l \<and> l \<le> 4 \<and> table_ok R (kh s) t)
     \<and> (\<forall>t l i. tabs t = Some l \<and> 2 \<le> l \<and> valid_idx l i \<and> is_present (read_entry t i s)
          \<longrightarrow> tabs (read_entry t i s AND ADDR_MASK) = Some (l - 1))
     \<and> (\<forall>t l i u m j. tabs t = Some l \<and> 2 \<le> l \<and> valid_idx l i \<and> is_present (read_entry t i s)
          \<and> tabs u = Some m \<and> 2 \<le> m \<and> valid_idx m j \<and> is_present (read_entry u j s)
          \<and> read_entry t i s AND ADDR_MASK = read_entry u j s AND ADDR_MASK
          \<longrightarrow> t = u \<and> i = j)"

text \<open>Every inner entry of the user half grants user and write access; the leaf decides.\<close>

definition open_inner :: "(u64 \<Rightarrow> nat option) \<Rightarrow> vmm_state \<Rightarrow> bool" where
  "open_inner tabs s \<longleftrightarrow>
     (\<forall>t l i. tabs t = Some l \<and> 2 \<le> l \<and> valid_idx l i \<and> is_present (read_entry t i s)
        \<longrightarrow> read_entry t i s AND (USER OR WRITABLE) = USER OR WRITABLE)"

lemma pt_wfD:
  assumes "pt_wf R tabs s"
  shows "heap_inv R (kh s)" and "R \<subseteq> {..< 2 ^ 52}"
    and "\<And>t l. tabs t = Some l \<Longrightarrow> 1 \<le> l \<and> l \<le> 4 \<and> table_ok R (kh s) t"
    and "\<And>t l i. tabs t = Some l \<Longrightarrow> 2 \<le> l \<Longrightarrow> valid_idx l i \<Longrightarrow> is_present (read_entry t i s)
          \<Longrightarrow> tabs (read_entry t i s AND ADDR_MASK) = Some (l - 1)"
    and "\<And>t l i u m j. tabs t = Some l \<Longrightarrow> 2 \<le> l \<Longrightarrow> valid_idx l i \<Longrightarrow> is_present (read_entry t i s)
          \<Longrightarrow> tabs u = Some m \<Longrightarrow> 2 \<le> m \<Longrightarrow> valid_idx m j \<Longrightarrow> is_present (read_entry u j s)
          \<Longrightarrow> read_entry t i s AND ADDR_MASK = read_entry u j s AND ADDR_MASK \<Longrightarrow> t = u \<and> i = j"
  using assms unfolding pt_wf_def by blast+

lemma pt_wf_masked: "pt_wf R tabs s \<Longrightarrow> tabs t = Some l \<Longrightarrow> t AND ADDR_MASK = t"
  using pt_wfD(3)[of R tabs s t l] by (simp add: table_ok_def)

lemma pt_wf_nonzero: "pt_wf R tabs s \<Longrightarrow> tabs t = Some l \<Longrightarrow> t \<noteq> 0"
  using pt_wfD(3)[of R tabs s t l] by (simp add: table_ok_def)

lemma valid_idx_lt: "valid_idx l i \<Longrightarrow> i < 512"
  by (simp add: valid_idx_def)

text \<open>A walk from a level-\<open>n + 1\<close> table down to the leaf cell, and what is read there.\<close>

primrec leaf :: "nat \<Rightarrow> u64 \<Rightarrow> u64 \<Rightarrow> vmm_state \<Rightarrow> (u64 \<times> nat) option" where
  "leaf 0 t v s = Some (t, pt_index 12 v)"
| "leaf (Suc n) t v s =
     (let c = table_if_present t (pt_index (12 + 9 * Suc n) v) s in if c = 0 then None else leaf n c v s)"

definition leaf_value :: "vmm_state \<Rightarrow> (u64 \<times> nat) option \<Rightarrow> u64 option" where
  "leaf_value s c = (case c of None \<Rightarrow> None
     | Some (pt, i) \<Rightarrow> if is_present (read_entry pt i s) then Some (read_entry pt i s AND ADDR_MASK) else None)"

lemma translate_leaf: "translate cr3 v s = leaf_value s (leaf 3 (cr3 AND ADDR_MASK) v s)"
  by (simp add: translate_def leaf_value_def numeral_3_eq_3 Let_def)

text \<open>The index at each level of a user address is valid there.\<close>

definition idx_ok :: "nat \<Rightarrow> u64 \<Rightarrow> bool" where
  "idx_ok n v \<longleftrightarrow> (n = 3 \<longrightarrow> user_virt v)"

lemma idx_ok_valid: "idx_ok (Suc n) v \<Longrightarrow> n \<le> 2 \<Longrightarrow> valid_idx (Suc (Suc n)) (pt_index (12 + 9 * Suc n) v)"
  by (auto simp: idx_ok_def valid_idx_def user_virt_def)

lemma idx_ok_le: "n \<le> 2 \<Longrightarrow> idx_ok n v"
  by (simp add: idx_ok_def)

lemma leaf_step:
  assumes "pt_wf R tabs s" and "tabs t = Some (Suc (Suc n))" and "idx_ok (Suc n) v"
  shows "leaf (Suc n) t v s =
      (let e = read_entry t (pt_index (12 + 9 * Suc n) v) s
       in if is_present e then leaf n (e AND ADDR_MASK) v s else None)"
    and "valid_idx (Suc (Suc n)) (pt_index (12 + 9 * Suc n) v)"
    and "is_present (read_entry t (pt_index (12 + 9 * Suc n) v) s)
      \<Longrightarrow> tabs (read_entry t (pt_index (12 + 9 * Suc n) v) s AND ADDR_MASK) = Some (Suc n)"
proof -
  have n: "n \<le> 2" using pt_wfD(3)[OF assms(1,2)] by simp
  show v: "valid_idx (Suc (Suc n)) (pt_index (12 + 9 * Suc n) v)" by (rule idx_ok_valid[OF assms(3) n])
  show c: "tabs (read_entry t (pt_index (12 + 9 * Suc n) v) s AND ADDR_MASK) = Some (Suc n)"
    if "is_present (read_entry t (pt_index (12 + 9 * Suc n) v) s)"
    using pt_wfD(4)[OF assms(1,2) _ v that] by simp
  show "leaf (Suc n) t v s =
      (let e = read_entry t (pt_index (12 + 9 * Suc n) v) s
       in if is_present e then leaf n (e AND ADDR_MASK) v s else None)"
    using c pt_wf_nonzero[OF assms(1)] by (auto simp: table_if_present_def Let_def)
qed

lemma leaf_tabs:
  assumes "pt_wf R tabs s" and "tabs t = Some (Suc n)" and "idx_ok n v" and "leaf n t v s = Some (p, i)"
  shows "tabs p = Some 1 \<and> i < 512"
  using assms(2-)
proof (induction n arbitrary: t)
  case (Suc n)
  note st = leaf_step[OF assms(1) Suc.prems(1,2)]
  have "n \<le> 2" using pt_wfD(3)[OF assms(1) Suc.prems(1)] by simp
  with Suc.prems(3) st Suc.IH idx_ok_le show ?case by (auto simp: Let_def split: if_splits)
qed auto

lemma leaf_cong:
  assumes "pt_wf R tabs s"
    and same: "\<And>t l i. tabs t = Some l \<Longrightarrow> 2 \<le> l \<Longrightarrow> i < 512 \<Longrightarrow> read_entry t i s' = read_entry t i s"
    and "tabs t = Some (Suc n)" and "idx_ok n v"
  shows "leaf n t v s' = leaf n t v s"
  using assms(3-)
proof (induction n arbitrary: t)
  case (Suc n)
  note st = leaf_step[OF assms(1) Suc.prems(1,2)]
  have n: "n \<le> 2" using pt_wfD(3)[OF assms(1) Suc.prems(1)] by simp
  let ?i = "pt_index (12 + 9 * Suc n) v"
  have e: "read_entry t ?i s' = read_entry t ?i s"
    by (rule same[OF Suc.prems(1)]) (simp_all only: pt_index_lt le_add1 numeral_2_eq_2 Suc_le_mono le0)
  show ?case
  proof (cases "is_present (read_entry t ?i s)")
    case True
    have "leaf n (read_entry t ?i s AND ADDR_MASK) v s' = leaf n (read_entry t ?i s AND ADDR_MASK) v s"
      by (rule Suc.IH[OF st(3)[OF True] idx_ok_le[OF n]])
    then show ?thesis unfolding leaf.simps table_if_present_def Let_def e by simp
  next
    case False
    then show ?thesis unfolding leaf.simps table_if_present_def Let_def e by simp
  qed
qed simp

text \<open>The forest has one path to a leaf cell: same cell, same root and same indices.\<close>

lemma leaf_inj:
  assumes "pt_wf R tabs s" and "tabs t = Some (Suc n)" and "idx_ok n v" and "leaf n t v s = Some c"
    and "tabs u = Some (Suc n)" and "idx_ok n w" and "leaf n u w s = Some c"
  shows "t = u \<and> (\<forall>k \<le> n. pt_index (12 + 9 * k) v = pt_index (12 + 9 * k) w)"
  using assms(2-)
proof (induction n arbitrary: t u)
  case (Suc n)
  note st = leaf_step[OF assms(1) Suc.prems(1,2)]
  note su = leaf_step[OF assms(1) Suc.prems(4,5)]
  have n: "n \<le> 2" using pt_wfD(3)[OF assms(1) Suc.prems(1)] by simp
  let ?i = "pt_index (12 + 9 * Suc n) v" and ?j = "pt_index (12 + 9 * Suc n) w"
  have p: "is_present (read_entry t ?i s)" "is_present (read_entry u ?j s)"
    using st(1) su(1) Suc.prems(3,6) by (auto simp: Let_def split: if_splits)
  have l: "leaf n (read_entry t ?i s AND ADDR_MASK) v s = Some c" "leaf n (read_entry u ?j s AND ADDR_MASK) w s = Some c"
    using st(1) su(1) p Suc.prems(3,6) by (auto simp: Let_def)
  have ih: "read_entry t ?i s AND ADDR_MASK = read_entry u ?j s AND ADDR_MASK"
    "\<forall>k \<le> n. pt_index (12 + 9 * k) v = pt_index (12 + 9 * k) w"
    using Suc.IH[OF st(3)[OF p(1)] idx_ok_le[OF n] l(1) su(3)[OF p(2)] idx_ok_le[OF n] l(2)] by auto
  have "t = u \<and> ?i = ?j"
    by (rule pt_wfD(5)[OF assms(1) Suc.prems(1) _ st(2) p(1) Suc.prems(4) _ su(2) p(2) ih(1)]) simp_all
  with ih(2) show ?case by (auto simp: le_Suc_eq)
qed auto

section \<open>Allocating tables\<close>

lemma alloc_table_fail:
  assumes "pt_wf R tabs s" and "alloc_table s = (Inl e, s')"
  shows "e = OutOfMemory" and "s' = s"
proof -
  obtain h where a: "alloc (this_cpu s) 4096 4096 (kh s) = (None, h)" and e: "e = OutOfMemory" "s' = s\<lparr>kh := h\<rparr>"
    using assms(2) by (auto simp: alloc_table_def split: prod.splits option.splits)
  show "e = OutOfMemory" by (rule e)
  show "s' = s" using alloc_fail(1)[OF pt_wfD(1)[OF assms(1)] a] e by simp
qed

lemma alloc_table_ok:
  assumes "pt_wf R tabs s" and "alloc_table s = (Inr c, s')"
  shows "tabs c = None" and "table_ok R (kh s') c" and "pt_wf R tabs s'"
    and "\<And>t l i. tabs t = Some l \<Longrightarrow> i < 512 \<Longrightarrow> read_entry t i s' = read_entry t i s"
    and "\<And>i. i < 512 \<Longrightarrow> read_entry c i s' = 0"
    and "kernel_pml4 s' = kernel_pml4 s"
proof -
  obtain p h where a: "alloc (this_cpu s) 4096 4096 (kh s) = (Some p, h)"
    and c: "c = word_of_nat p"
    and s': "s' = s\<lparr>kh := h, vmem := (\<lambda>a. if p \<le> unat a \<and> unat a < p + 4096 then 0 else vmem s a)\<rparr>"
    using assms(2) by (auto simp: alloc_table_def split: prod.splits option.splits)
  have pow: "(4096 :: nat) = 2 ^ 12" by simp
  note al = alloc_ok[OF pt_wfD(1)[OF assms(1)] pow a]
  have sub: "{p ..< p + 4096} \<subseteq> {p - ALLOC_HEADER ..< p + 4096}" by auto
  then have pR: "{p ..< p + 4096} \<subseteq> R" using al(3) by (rule order_trans)
  have "p + 4095 \<in> {p ..< p + 4096}" by simp
  then have "p + 4095 \<in> {..< 2 ^ 52}" using pR pt_wfD(2)[OF assms(1)] by blast
  then have p52: "p + 4096 \<le> 2 ^ 52" by simp
  note m = masked_of_nat[OF al(1) p52]
  have page_c: "page c = {p ..< p + 4096}" by (simp add: page_def c m(1))
  obtain b where b: "live h = (p, b) # live (kh s)" "{p - ALLOC_HEADER ..< p + 4096} \<subseteq> span b"
    using al(5) by blast
  have c0: "c \<noteq> 0"
  proof
    assume "c = 0"
    then have "p = 0" using m(1) c by simp
    then show False using al(6) by (simp add: ALLOC_HEADER_def)
  qed
  show ok: "table_ok R (kh s') c"
    unfolding table_ok_def
  proof (intro conjI disjI2 exI)
    show "c AND ADDR_MASK = c" using m(2) by (simp add: c)
    show "c \<noteq> 0" by (rule c0)
    show "(p, b) \<in> set (live (kh s'))" using b(1) by (simp add: s')
    show "page c \<subseteq> span b" unfolding page_c using sub b(2) by (rule order_trans)
  qed
  have disj: "page t \<inter> page c = {}" if "tabs t = Some l" for t l
  proof -
    have "page t \<inter> R = {} \<or> (\<exists>q b. (q, b) \<in> set (live (kh s)) \<and> page t \<subseteq> span b)"
      using pt_wfD(3)[OF assms(1) that] by (simp add: table_ok_def)
    moreover have "page c \<subseteq> {p - ALLOC_HEADER ..< p + 4096}" by (auto simp: page_c)
    ultimately show ?thesis using pR al(4) page_c by blast
  qed
  show cN: "tabs c = None"
  proof (rule ccontr)
    assume "tabs c \<noteq> None"
    then obtain l where "tabs c = Some l" by blast
    from disj[OF this] show False by (simp add: page_def)
  qed
  show rd: "read_entry t i s' = read_entry t i s" if "tabs t = Some l" "i < 512" for t l i
  proof -
    have "unat (entry_addr t i) \<in> page t"
      using unat_entry_addr[OF pt_wf_masked[OF assms(1) that(1)] that(2)] that(2) by (simp add: page_def)
    with disj[OF that(1)] have "unat (entry_addr t i) \<notin> {p ..< p + 4096}" unfolding page_c by blast
    then show ?thesis by (auto simp: read_entry_def s')
  qed
  show "read_entry c i s' = 0" if "i < 512" for i
  proof -
    have "c AND ADDR_MASK = c" using m(2) by (simp add: c)
    from unat_entry_addr[OF this that] that show ?thesis
      by (simp add: read_entry_def s' c m(1))
  qed
  show "kernel_pml4 s' = kernel_pml4 s" by (simp add: s')
  have tok: "table_ok R (kh s) t \<Longrightarrow> table_ok R (kh s') t" for t
    using b(1) by (auto simp: table_ok_def s')
  show "pt_wf R tabs s'"
    unfolding pt_wf_def
  proof (intro conjI allI impI; (elim conjE)?)
    show "heap_inv R (kh s')" using al(2) by (simp add: s')
    show "R \<subseteq> {..< 2 ^ 52}" by (rule pt_wfD(2)[OF assms(1)])
  next
    fix t l assume "tabs t = Some l"
    then show "1 \<le> l" "l \<le> 4" "table_ok R (kh s') t" using pt_wfD(3)[OF assms(1), of t l] tok by auto
  next
    fix t l i assume t: "tabs t = Some l" "2 \<le> l" "valid_idx l i" "is_present (read_entry t i s')"
    then show "tabs (read_entry t i s' AND ADDR_MASK) = Some (l - 1)"
      using pt_wfD(4)[OF assms(1) t(1-3)] rd[OF t(1) valid_idx_lt[OF t(3)]] by simp
  next
    fix t l i u m j
    assume t: "tabs t = Some l" "2 \<le> l" "valid_idx l i" "is_present (read_entry t i s')"
      and u: "tabs u = Some m" "2 \<le> m" "valid_idx m j" "is_present (read_entry u j s')"
      and e: "read_entry t i s' AND ADDR_MASK = read_entry u j s' AND ADDR_MASK"
    have "t = u \<and> i = j"
      using pt_wfD(5)[OF assms(1) t(1-3) _ u(1-3)] t(4) u(4) e
        rd[OF t(1) valid_idx_lt[OF t(3)]] rd[OF u(1) valid_idx_lt[OF u(3)]] by simp
    then show "t = u" "i = j" by simp_all
  qed
qed

lemma leaf_zero_table:
  assumes "\<And>j. j < 512 \<Longrightarrow> read_entry c j s = 0"
  shows "leaf_value s (leaf n c v s) = None"
  using assms by (cases n) (simp_all add: leaf_value_def table_if_present_def)

lemma grow_leaf:
  assumes "pt_wf R tabs s" and "tabs t = Some l" and "2 \<le> l" and "\<not> is_present (read_entry t i s)"
    and same: "\<And>u m j. tabs u = Some m \<Longrightarrow> j < 512 \<Longrightarrow> (u, j) \<noteq> (t, i) \<Longrightarrow> read_entry u j s' = read_entry u j s"
    and zero: "\<And>j. j < 512 \<Longrightarrow> read_entry (read_entry t i s' AND ADDR_MASK) j s' = 0"
    and "tabs u = Some (Suc n)" and "idx_ok n v"
  shows "leaf_value s' (leaf n u v s') = leaf_value s (leaf n u v s)"
  using assms(7-)
proof (induction n arbitrary: u)
  case 0
  have "u \<noteq> t" using 0(1) assms(2,3) by auto
  then show ?case using same[OF 0(1) pt_index_lt, of 12 v] by (simp add: leaf_value_def)
next
  case (Suc n)
  note st = leaf_step[OF assms(1) Suc.prems(1,2)]
  have n: "n \<le> 2" using pt_wfD(3)[OF assms(1) Suc.prems(1)] by simp
  let ?i = "pt_index (12 + 9 * Suc n) v"
  show ?case
  proof (cases "(u, ?i) = (t, i)")
    case True
    then have "leaf (Suc n) u v s = None" using st(1) assms(4) by simp
    moreover have "leaf_value s' (leaf n (read_entry t i s' AND ADDR_MASK) v s') = None"
      by (rule leaf_zero_table[OF zero])
    ultimately show ?thesis
      using True by (auto simp: leaf_value_def table_if_present_def Let_def)
  next
    case False
    have e: "read_entry u ?i s' = read_entry u ?i s"
      by (rule same[OF Suc.prems(1) pt_index_lt False])
    show ?thesis
    proof (cases "is_present (read_entry u ?i s)")
      case True
      have "leaf_value s' (leaf n (read_entry u ?i s AND ADDR_MASK) v s')
          = leaf_value s (leaf n (read_entry u ?i s AND ADDR_MASK) v s)"
        by (rule Suc.IH[OF st(3)[OF True] idx_ok_le[OF n]])
      then show ?thesis unfolding leaf.simps table_if_present_def Let_def e by (simp add: leaf_value_def)
    next
      case False
      then show ?thesis unfolding leaf.simps table_if_present_def Let_def e by (simp add: leaf_value_def)
    qed
  qed
qed

text \<open>
  What adding tables to the forest keeps: the known tables and their present entries, all leaf
  entries, and the result of every walk.
\<close>

definition grows :: "nat set \<Rightarrow> u64 \<Rightarrow> (u64 \<Rightarrow> nat option) \<Rightarrow> vmm_state \<Rightarrow> (u64 \<Rightarrow> nat option) \<Rightarrow> vmm_state \<Rightarrow> bool" where
  "grows R flags tabs s tabs' s' \<longleftrightarrow>
     pt_wf R tabs' s' \<and> tabs \<subseteq>\<^sub>m tabs' \<and> kernel_pml4 s' = kernel_pml4 s
     \<and> (\<forall>t l i. tabs t = Some l \<and> i < 512 \<and> (l = 1 \<or> is_present (read_entry t i s))
          \<longrightarrow> read_entry t i s' = read_entry t i s)
     \<and> (\<forall>t n v. tabs t = Some (Suc n) \<and> idx_ok n v
          \<longrightarrow> leaf_value s' (leaf n t v s') = leaf_value s (leaf n t v s))
     \<and> (flags AND USER = USER \<longrightarrow> open_inner tabs s \<longrightarrow> open_inner tabs' s')"

lemma grows_refl: "pt_wf R tabs s \<Longrightarrow> grows R flags tabs s tabs s"
  by (simp add: grows_def)

lemma map_le_SomeD: "m \<subseteq>\<^sub>m m' \<Longrightarrow> m x = Some y \<Longrightarrow> m' x = Some y"
  by (metis domI map_le_def)

lemma grows_trans:
  assumes "grows R flags tabs s tabs1 s1" and "grows R flags tabs1 s1 tabs2 s2"
  shows "grows R flags tabs s tabs2 s2"
  unfolding grows_def
proof (intro conjI allI impI)
  have le: "tabs \<subseteq>\<^sub>m tabs1" "tabs1 \<subseteq>\<^sub>m tabs2" using assms by (simp_all add: grows_def)
  show "pt_wf R tabs2 s2" "kernel_pml4 s2 = kernel_pml4 s" using assms by (simp_all add: grows_def)
  show "tabs \<subseteq>\<^sub>m tabs2" using le by (rule map_le_trans)
  show "open_inner tabs2 s2" if "flags AND USER = USER" "open_inner tabs s"
    using assms that by (simp add: grows_def)
next
  fix t l i assume a: "tabs t = Some l \<and> i < 512 \<and> (l = 1 \<or> is_present (read_entry t i s))"
  then have "read_entry t i s1 = read_entry t i s" "tabs1 t = Some l"
    using assms(1) by (auto simp: grows_def intro: map_le_SomeD)
  with a assms(2) show "read_entry t i s2 = read_entry t i s" by (metis grows_def)
next
  fix t n v assume a: "tabs t = Some (Suc n) \<and> idx_ok n v"
  then have "tabs1 t = Some (Suc n)" using assms(1) by (auto simp: grows_def intro: map_le_SomeD)
  with a assms show "leaf_value s2 (leaf n t v s2) = leaf_value s (leaf n t v s)" by (simp add: grows_def)
qed

lemma add_table_wf:
  assumes wf: "pt_wf R tabs s" and t: "tabs t = Some l" "2 \<le> l" "valid_idx l i" and "\<not> is_present (read_entry t i s)"
    and new: "tabs c = None" "table_ok R (kh s) c" and zero: "\<And>j. j < 512 \<Longrightarrow> read_entry c j s = 0"
    and e: "e AND ADDR_MASK = c" "is_present e"
  shows "pt_wf R (tabs(c \<mapsto> l - 1)) (write_entry t i e s)"
proof -
  let ?s = "write_entry t i e s" and ?tabs = "tabs(c \<mapsto> l - 1)"
  have cm: "c AND ADDR_MASK = c" using new(2) by (simp add: table_ok_def)
  have rd: "read_entry u j ?s = (if u = t \<and> j = i then e else read_entry u j s)"
    if "tabs u = Some m \<or> u = c" "j < 512" for u m j
    using read_write_entry[OF _ that(2) pt_wf_masked[OF wf t(1)] valid_idx_lt[OF t(3)]]
      pt_wf_masked[OF wf] cm that(1) by blast
  have ct: "c \<noteq> t" using new(1) t(1) by auto
  have czero: "read_entry c j ?s = 0" if "j < 512" for j
    using rd[of c _ j] zero that ct by simp
  have kid: "?tabs (read_entry u j ?s AND ADDR_MASK) = Some (m - 1) \<and>
      (if u = t \<and> j = i then read_entry u j ?s AND ADDR_MASK = c
       else tabs u = Some m \<and> is_present (read_entry u j s) \<and> read_entry u j ?s = read_entry u j s
            \<and> tabs (read_entry u j s AND ADDR_MASK) \<noteq> None)"
    if u: "?tabs u = Some m" "2 \<le> m" "valid_idx m j" "is_present (read_entry u j ?s)" for u m j
  proof -
    have uc: "u \<noteq> c" using czero[of j] u(3,4) by (auto simp: valid_idx_def)
    then have tu: "tabs u = Some m" using u(1) by simp
    have j: "j < 512" using u(3) by (rule valid_idx_lt)
    show ?thesis
    proof (cases "u = t \<and> j = i")
      case True
      with rd[of u m j] tu j e t(1) show ?thesis by simp
    next
      case False
      then have r: "read_entry u j ?s = read_entry u j s" using rd[of u m j] tu j by auto
      then have p: "is_present (read_entry u j s)" using u(4) by simp
      have k: "tabs (read_entry u j s AND ADDR_MASK) = Some (m - 1)" by (rule pt_wfD(4)[OF wf tu u(2,3) p])
      then have "read_entry u j s AND ADDR_MASK \<noteq> c" using new(1) by auto
      with False r p tu k show ?thesis by auto
    qed
  qed
  show ?thesis
    unfolding pt_wf_def
  proof (intro conjI allI impI; (elim conjE)?)
    show "heap_inv R (kh ?s)" using pt_wfD(1)[OF wf] by (simp add: write_entry_def)
    show "R \<subseteq> {..< 2 ^ 52}" by (rule pt_wfD(2)[OF wf])
  next
    fix u m assume "?tabs u = Some m"
    then show "1 \<le> m" "m \<le> 4" "table_ok R (kh ?s) u"
      using pt_wfD(3)[OF wf, of u m] pt_wfD(3)[OF wf t(1)] new(2) t(2)
      by (auto simp: write_entry_def split: if_splits)
  next
    fix u m j assume "?tabs u = Some m" "2 \<le> m" "valid_idx m j" "is_present (read_entry u j ?s)"
    from kid[OF this] show "?tabs (read_entry u j ?s AND ADDR_MASK) = Some (m - 1)" by blast
  next
    fix u m j u' m' j'
    assume u: "?tabs u = Some m" "2 \<le> m" "valid_idx m j" "is_present (read_entry u j ?s)"
      and u': "?tabs u' = Some m'" "2 \<le> m'" "valid_idx m' j'" "is_present (read_entry u' j' ?s)"
      and eq: "read_entry u j ?s AND ADDR_MASK = read_entry u' j' ?s AND ADDR_MASK"
    have "u = u' \<and> j = j'"
    proof (cases "u = t \<and> j = i"; cases "u' = t \<and> j' = i")
      assume "\<not> (u = t \<and> j = i)" "\<not> (u' = t \<and> j' = i)"
      with kid[OF u] kid[OF u'] eq have "tabs u = Some m" "tabs u' = Some m'"
        "is_present (read_entry u j s)" "is_present (read_entry u' j' s)"
        "read_entry u j s AND ADDR_MASK = read_entry u' j' s AND ADDR_MASK"
        by auto
      then show ?thesis using pt_wfD(5)[OF wf _ u(2,3) _ _ u'(2,3)] by blast
    qed (use kid[OF u] kid[OF u'] eq new(1) in auto)
    then show "u = u'" "j = j'" by simp_all
  qed
qed

lemma next_table_spec:
  assumes wf: "pt_wf R tabs s" and t: "tabs t = Some l" "2 \<le> l" "valid_idx l i"
    and n: "next_table t i flags s = (r, s')"
  shows "(r = Inl OutOfMemory \<and> s' = s) \<or>
    (\<exists>c tabs'. r = Inr c \<and> grows R flags tabs s tabs' s' \<and> tabs' c = Some (l - 1)
       \<and> is_present (read_entry t i s') \<and> read_entry t i s' AND ADDR_MASK = c)"
proof (cases "is_present (read_entry t i s)")
  case True
  then have "r = Inr (read_entry t i s AND ADDR_MASK)" "s' = s"
    using n by (auto simp: next_table_def)
  with True pt_wfD(4)[OF wf t True] grows_refl[OF wf] show ?thesis by blast
next
  case False
  show ?thesis
  proof (cases "alloc_table s")
    case (Pair x s1)
    show ?thesis
    proof (cases x)
      case (Inl e)
      with n False Pair have "r = Inl e" "s' = s1" by (simp_all add: next_table_def)
      with alloc_table_fail[OF wf Pair[unfolded Inl]] show ?thesis by simp
    next
      case (Inr c)
      note al = alloc_table_ok[OF wf Pair[unfolded Inr]]
      define e where "e = (c AND ADDR_MASK) OR PRESENT OR WRITABLE OR (flags AND USER)"
      have r: "r = Inr c" "s' = write_entry t i e s1"
        using n False Pair Inr by (simp_all add: next_table_def e_def)
      have cm: "c AND ADDR_MASK = c" using al(2) by (simp add: table_ok_def)
      note ne = new_entry[OF cm, of flags, folded e_def]
      have i: "i < 512" by (rule valid_idx_lt[OF t(3)])
      have tm: "t AND ADDR_MASK = t" by (rule pt_wf_masked[OF wf t(1)])
      have np: "\<not> is_present (read_entry t i s1)" using al(4)[OF t(1) i] False by simp
      have wf': "pt_wf R (tabs(c \<mapsto> l - 1)) s'"
        unfolding r(2) by (rule add_table_wf[OF al(3) t np al(1,2,5) ne(1,2)])
      have here: "read_entry t i s' = e" unfolding r(2) using read_write_entry[OF tm i tm i] by simp
      have other: "read_entry u j s' = read_entry u j s"
        if "tabs u = Some m" "j < 512" "(u, j) \<noteq> (t, i)" for u m j
        using read_write_entry[OF pt_wf_masked[OF wf that(1)] that(2) tm i] al(4)[OF that(1,2)] that(3)
        by (auto simp: r(2))
      have zero: "read_entry c j s' = 0" if "j < 512" for j
        using read_write_entry[OF cm that tm i] al(5)[OF that] al(1) t(1) by (auto simp: r(2))
      have "grows R flags tabs s (tabs(c \<mapsto> l - 1)) s'"
        unfolding grows_def
      proof (intro conjI allI impI)
        show "tabs \<subseteq>\<^sub>m tabs(c \<mapsto> l - 1)" using al(1) by (auto simp: map_le_def)
        show "kernel_pml4 s' = kernel_pml4 s" using al(6) by (simp add: r(2) write_entry_def)
        show "pt_wf R (tabs(c \<mapsto> l - 1)) s'" by (rule wf')
      next
        fix u m j assume a: "tabs u = Some m \<and> j < 512 \<and> (m = 1 \<or> is_present (read_entry u j s))"
        then have "(u, j) \<noteq> (t, i)" using False t(1,2) by auto
        with a other show "read_entry u j s' = read_entry u j s" by blast
      next
        fix u n v assume a: "tabs u = Some (Suc n) \<and> idx_ok n v"
        show "leaf_value s' (leaf n u v s') = leaf_value s (leaf n u v s)"
          by (rule grow_leaf[OF wf t(1,2) False other]) (use a zero here ne(1) in auto)
      next
        assume u: "flags AND USER = USER" and o: "open_inner tabs s"
        show "open_inner (tabs(c \<mapsto> l - 1)) s'"
          unfolding open_inner_def
        proof (intro allI impI; elim conjE)
          fix u m j
          assume a: "(tabs(c \<mapsto> l - 1)) u = Some m" "2 \<le> m" "valid_idx m j" "is_present (read_entry u j s')"
          have uc: "u \<noteq> c" using zero[of j] a(3,4) by (auto simp: valid_idx_def)
          then have tu: "tabs u = Some m" using a(1) by simp
          show "read_entry u j s' AND (USER OR WRITABLE) = USER OR WRITABLE"
          proof (cases "(u, j) = (t, i)")
            case True
            with here ne(3)[OF u] show ?thesis by simp
          next
            case False
            with other[OF tu valid_idx_lt[OF a(3)]] o tu a show ?thesis by (simp add: open_inner_def)
          qed
        qed
      qed
      with r(1) here ne(1,2) show ?thesis by auto
    qed
  qed
qed

section \<open>Leaf entries\<close>

lemma write_leaf_inner:
  assumes "pt_wf R tabs s" and "tabs p = Some 1" and "i < 512" and "tabs t = Some l" and "2 \<le> l" and "j < 512"
  shows "read_entry t j (write_entry p i e s) = read_entry t j s"
  using assms read_write_entry[OF pt_wf_masked[OF assms(1,4)] assms(6) pt_wf_masked[OF assms(1,2)] assms(3)]
  by auto

lemma write_leaf:
  assumes wf: "pt_wf R tabs s" and p: "tabs p = Some 1" "i < 512"
  shows "pt_wf R tabs (write_entry p i e s)"
    and "tabs t = Some (Suc n) \<Longrightarrow> idx_ok n v \<Longrightarrow> leaf n t v (write_entry p i e s) = leaf n t v s"
    and "open_inner tabs (write_entry p i e s) = open_inner tabs s"
proof -
  let ?s = "write_entry p i e s"
  note inner = write_leaf_inner[OF wf p]
  have keep: "tabs t = Some l \<Longrightarrow> 2 \<le> l \<Longrightarrow> valid_idx l j \<Longrightarrow> read_entry t j ?s = read_entry t j s" for t l j
    by (rule inner) (simp_all add: valid_idx_lt)
  show "pt_wf R tabs ?s"
    unfolding pt_wf_def
  proof (intro conjI allI impI; (elim conjE)?)
    show "heap_inv R (kh ?s)" using pt_wfD(1)[OF wf] by (simp add: write_entry_def)
    show "R \<subseteq> {..< 2 ^ 52}" by (rule pt_wfD(2)[OF wf])
  next
    fix u m assume "tabs u = Some m"
    then show "1 \<le> m" "m \<le> 4" "table_ok R (kh ?s) u"
      using pt_wfD(3)[OF wf, of u m] by (simp_all add: write_entry_def)
  next
    fix u m j assume "tabs u = Some m" "2 \<le> m" "valid_idx m j" "is_present (read_entry u j ?s)"
    then show "tabs (read_entry u j ?s AND ADDR_MASK) = Some (m - 1)"
      using pt_wfD(4)[OF wf] keep by simp
  next
    fix u m j u' m' j'
    assume u: "tabs u = Some m" "2 \<le> m" "valid_idx m j" "is_present (read_entry u j ?s)"
      and u': "tabs u' = Some m'" "2 \<le> m'" "valid_idx m' j'" "is_present (read_entry u' j' ?s)"
      and eq: "read_entry u j ?s AND ADDR_MASK = read_entry u' j' ?s AND ADDR_MASK"
    have "u = u' \<and> j = j'"
      using pt_wfD(5)[OF wf u(1-3) _ u'(1-3)] u(4) u'(4) eq keep[OF u(1-3)] keep[OF u'(1-3)] by simp
    then show "u = u'" "j = j'" by simp_all
  qed
  show "leaf n t v ?s = leaf n t v s" if "tabs t = Some (Suc n)" "idx_ok n v"
    by (rule leaf_cong[OF wf _ that]) (rule inner)
  show "open_inner tabs ?s = open_inner tabs s"
    using keep unfolding open_inner_def by metis
qed

lemma leaf_value_write:
  assumes wf: "pt_wf R tabs s" and p: "tabs p = Some 1" "i < 512" and c: "tabs t = Some 1" "j < 512"
  shows "leaf_value (write_entry p i e s) (Some (t, j)) =
    (if (t, j) = (p, i) then if is_present e then Some (e AND ADDR_MASK) else None
     else leaf_value s (Some (t, j)))"
  using read_write_entry[OF pt_wf_masked[OF wf c(1)] c(2) pt_wf_masked[OF wf p(1)] p(2)]
  by (auto simp: leaf_value_def)

text \<open>Writing one leaf cell changes the translation of the one page whose walk ends there.\<close>

lemma write_leaf_translate:
  assumes wf: "pt_wf R tabs s" and t: "tabs t = Some (Suc n)" "idx_ok n v" "leaf n t v s = Some (p, i)"
    and u: "tabs u = Some (Suc n)" "idx_ok n w"
  shows "leaf_value (write_entry p i e s) (leaf n u w (write_entry p i e s)) =
    (if u = t \<and> (\<forall>k \<le> n. pt_index (12 + 9 * k) w = pt_index (12 + 9 * k) v)
     then if is_present e then Some (e AND ADDR_MASK) else None
     else leaf_value s (leaf n u w s))"
proof -
  have p: "tabs p = Some 1" "i < 512" using leaf_tabs[OF wf t] by simp_all
  have l: "leaf n u w (write_entry p i e s) = leaf n u w s" by (rule write_leaf(2)[OF wf p u])
  have same: "leaf n u w s = Some (p, i)" if "u = t \<and> (\<forall>k \<le> n. pt_index (12 + 9 * k) w = pt_index (12 + 9 * k) v)"
  proof -
    have "leaf n t w s = leaf n t v s" if "\<forall>k \<le> n. pt_index (12 + 9 * k) w = pt_index (12 + 9 * k) v" for t
      using that by (induction n arbitrary: t) (auto simp: Let_def)
    with that t(3) show ?thesis by simp
  qed
  show ?thesis
  proof (cases "leaf n u w s")
    case None
    with same have "\<not> (u = t \<and> (\<forall>k \<le> n. pt_index (12 + 9 * k) w = pt_index (12 + 9 * k) v))"
      by (metis option.distinct(1))
    with None l show ?thesis by (simp only: if_False leaf_value_def option.case)
  next
    case (Some c)
    obtain q j where c: "c = (q, j)" by fastforce
    have q: "tabs q = Some 1" "j < 512" using leaf_tabs[OF wf u] Some c by simp_all
    have "(q, j) = (p, i) \<longleftrightarrow> u = t \<and> (\<forall>k \<le> n. pt_index (12 + 9 * k) w = pt_index (12 + 9 * k) v)"
      using leaf_inj[OF wf u _ t] Some c same by auto
    then show ?thesis unfolding l Some c leaf_value_write[OF wf p q] by simp
  qed
qed

section \<open>Mapping and unmapping\<close>

lemma user_idx_ok: "user_virt v \<Longrightarrow> idx_ok 3 v"
  by (simp add: idx_ok_def)

lemma table_via_entry:
  "is_present (read_entry t i s) \<Longrightarrow> table_if_present t i s = read_entry t i s AND ADDR_MASK"
  by (simp add: table_if_present_def)

lemma grows_entry:
  "grows R flags tabs s tabs' s' \<Longrightarrow> tabs t = Some l \<Longrightarrow> i < 512 \<Longrightarrow> is_present (read_entry t i s)
    \<Longrightarrow> read_entry t i s' = read_entry t i s"
  unfolding grows_def by blast

lemma grows_tabs: "grows R flags tabs s tabs' s' \<Longrightarrow> tabs t = Some l \<Longrightarrow> tabs' t = Some l"
  unfolding grows_def by (blast intro: map_le_SomeD)

lemma grows_wf: "grows R flags tabs s tabs' s' \<Longrightarrow> pt_wf R tabs' s'"
  by (simp add: grows_def)

lemma map_page_cases:
  assumes wf: "pt_wf R tabs s" and root: "tabs (cr3 AND ADDR_MASK) = Some 4" and v: "user_virt v"
    and m: "map_page cr3 v phys flags s = (r, s')"
  obtains (misaligned) "r = Inl InvalidAddress" and "s' = s"
      and "v AND (PAGE_SIZE - 1) \<noteq> 0 \<or> phys AND (PAGE_SIZE - 1) \<noteq> 0"
  | (no_memory) tabs' where "r = Inl OutOfMemory" and "grows R flags tabs s tabs' s'"
      and "v AND (PAGE_SIZE - 1) = 0" and "phys AND (PAGE_SIZE - 1) = 0"
  | (mapped) tabs' s3 pt where "r = Inr ()" and "grows R flags tabs s tabs' s3"
      and "leaf 3 (cr3 AND ADDR_MASK) v s3 = Some (pt, pt_index 12 v)"
      and "s' = write_entry pt (pt_index 12 v) ((phys AND ADDR_MASK) OR PRESENT OR flags) s3"
      and "v AND (PAGE_SIZE - 1) = 0" and "phys AND (PAGE_SIZE - 1) = 0"
proof (cases "v AND (PAGE_SIZE - 1) \<noteq> 0 \<or> phys AND (PAGE_SIZE - 1) \<noteq> 0")
  case True
  with m show thesis by (intro misaligned) (auto simp: map_page_def)
next
  case False
  then have al: "v AND (PAGE_SIZE - 1) = 0" "phys AND (PAGE_SIZE - 1) = 0" by simp_all
  let ?root = "cr3 AND ADDR_MASK" and ?i4 = "pt_index 39 v" and ?i3 = "pt_index 30 v" and ?i2 = "pt_index 21 v"
  have vi: "valid_idx 4 ?i4" "valid_idx 3 ?i3" "valid_idx 2 ?i2"
    using v by (simp_all add: valid_idx_def user_virt_def)
  note m' = m[unfolded map_page_def, simplified False if_False]
  obtain r1 s1 where n1: "next_table ?root ?i4 flags s = (r1, s1)" by fastforce
  from next_table_spec[OF wf root _ vi(1) n1] consider "r1 = Inl OutOfMemory" "s1 = s"
    | t3 tabs1 where "r1 = Inr t3" "grows R flags tabs s tabs1 s1" "tabs1 t3 = Some 3"
      "is_present (read_entry ?root ?i4 s1)" "read_entry ?root ?i4 s1 AND ADDR_MASK = t3"
    by auto
  then show thesis
  proof cases
    case 1
    with m' n1 have "r = Inl OutOfMemory" "s' = s" by simp_all
    with grows_refl[OF wf] show thesis by (intro no_memory[OF _ _ al]) simp_all
  next
    case (2 t3 tabs1)
    note wf1 = grows_wf[OF 2(2)]
    obtain r2 s2 where n2: "next_table t3 ?i3 flags s1 = (r2, s2)" by fastforce
    from next_table_spec[OF wf1 2(3) _ vi(2) n2] consider "r2 = Inl OutOfMemory" "s2 = s1"
      | t2 tabs2 where "r2 = Inr t2" "grows R flags tabs1 s1 tabs2 s2" "tabs2 t2 = Some 2"
        "is_present (read_entry t3 ?i3 s2)" "read_entry t3 ?i3 s2 AND ADDR_MASK = t2"
      by auto
    then show thesis
    proof cases
      case o: 1
      with m' n1 n2 2(1) have "r = Inl OutOfMemory" "s' = s1" by simp_all
      with 2(2) show thesis by (intro no_memory[OF _ _ al]) simp_all
    next
      case l3: (2 t2 tabs2)
      note g2 = grows_trans[OF 2(2) l3(2)]
      obtain r3 s3 where n3: "next_table t2 ?i2 flags s2 = (r3, s3)" by fastforce
      from next_table_spec[OF grows_wf[OF g2] l3(3) _ vi(3) n3] consider "r3 = Inl OutOfMemory" "s3 = s2"
        | t1 tabs3 where "r3 = Inr t1" "grows R flags tabs2 s2 tabs3 s3" "tabs3 t1 = Some 1"
          "is_present (read_entry t2 ?i2 s3)" "read_entry t2 ?i2 s3 AND ADDR_MASK = t1"
        by auto
      then show thesis
      proof cases
        case o: 1
        with m' n1 n2 n3 2(1) l3(1) have "r = Inl OutOfMemory" "s' = s2" by simp_all
        with g2 show thesis by (intro no_memory[OF _ _ al]) simp_all
      next
        case l2: (2 t1 tabs3)
        note g3 = grows_trans[OF g2 l2(2)]
        have root1: "tabs1 ?root = Some 4" by (rule grows_tabs[OF 2(2) root])
        note g13 = grows_trans[OF l3(2) l2(2)]
        have e4: "read_entry ?root ?i4 s3 = read_entry ?root ?i4 s1"
          by (rule grows_entry[OF g13 root1 _ 2(4)]) simp
        have e3: "read_entry t3 ?i3 s3 = read_entry t3 ?i3 s2"
          by (rule grows_entry[OF l2(2) grows_tabs[OF l3(2) 2(3)] _ l3(4)]) simp
        have nz: "t3 \<noteq> 0" "t2 \<noteq> 0" "t1 \<noteq> 0"
          using pt_wf_nonzero[OF wf1 2(3)] pt_wf_nonzero[OF grows_wf[OF g2] l3(3)]
            pt_wf_nonzero[OF grows_wf[OF g3] l2(3)] by simp_all
        have "leaf 3 ?root v s3 = Some (t1, pt_index 12 v)"
          using e4 e3 nz 2(4,5) l3(4,5) l2(4,5) by (simp add: numeral_3_eq_3 Let_def table_via_entry)
        moreover have "r = Inr ()" "s' = write_entry t1 (pt_index 12 v) ((phys AND ADDR_MASK) OR PRESENT OR flags) s3"
          using m' n1 n2 n3 2(1) l3(1) l2(1) by simp_all
        ultimately show thesis using g3 by (intro mapped[OF _ _ _ _ al]) simp_all
      qed
    qed
  qed
qed

lemma grows_translate:
  assumes "grows R flags tabs s tabs' s'" and "tabs (cr3 AND ADDR_MASK) = Some 4" and "user_virt w"
  shows "translate cr3 w s' = translate cr3 w s"
proof -
  have "tabs (cr3 AND ADDR_MASK) = Some (Suc 3)" using assms(2) by simp
  then show ?thesis
    unfolding translate_leaf using assms(1) user_idx_ok[OF assms(3)] unfolding grows_def by (elim conjE) simp
qed

definition same_page :: "u64 \<Rightarrow> u64 \<Rightarrow> bool" where
  "same_page v w \<longleftrightarrow> (\<forall>k \<le> 3. pt_index (12 + 9 * k) v = pt_index (12 + 9 * k) w)"

lemma write_leaf_translates:
  assumes wf: "pt_wf R tabs s" and t: "tabs (cr3 AND ADDR_MASK) = Some 4" "user_virt v"
    and l: "leaf 3 (cr3 AND ADDR_MASK) v s = Some (p, i)"
    and u: "tabs (cr3' AND ADDR_MASK) = Some 4" "user_virt w"
  shows "translate cr3' w (write_entry p i e s) =
    (if cr3' AND ADDR_MASK = cr3 AND ADDR_MASK \<and> same_page w v
     then if is_present e then Some (e AND ADDR_MASK) else None
     else translate cr3' w s)"
  using write_leaf_translate[OF wf _ user_idx_ok[OF t(2)] l, of "cr3' AND ADDR_MASK" w e] t u user_idx_ok[OF u(2)]
  unfolding translate_leaf same_page_def by simp

lemma leaf_entry:
  fixes phys :: u64
  assumes "flags AND ADDR_MASK = 0"
  defines "e \<equiv> (phys AND ADDR_MASK) OR PRESENT OR flags"
  shows "is_present e" and "e AND ADDR_MASK = phys AND ADDR_MASK"
proof -
  have "(PRESENT OR flags) AND ADDR_MASK = 0"
    using assms(1) by (simp add: bit.conj_disj_distrib2) (simp add: PRESENT_def ADDR_MASK_def)
  from entry_value[OF this] show "e AND ADDR_MASK = phys AND ADDR_MASK" by (simp add: e_def)
  show "is_present e"
  proof
    assume "e AND PRESENT = 0"
    moreover have "bit (e AND PRESENT) 0" by (simp add: e_def PRESENT_def bit_simps)
    ultimately show False by simp
  qed
qed

lemma leaf_flags:
  fixes phys flags :: u64
  assumes "flags AND USER = USER"
  defines "e \<equiv> (phys AND ADDR_MASK) OR PRESENT OR flags"
  shows "e AND (USER OR (if wr then WRITABLE else 0)) = USER OR (if wr then WRITABLE else 0)
    \<longleftrightarrow> (wr \<longrightarrow> flags AND WRITABLE = WRITABLE)"
proof -
  have "PRESENT AND USER = 0" "PRESENT AND WRITABLE = 0" "ADDR_MASK AND USER = 0" "ADDR_MASK AND WRITABLE = 0"
    "USER AND WRITABLE = 0"
    by (simp_all add: PRESENT_def USER_def WRITABLE_def ADDR_MASK_def)
  then have u: "e AND USER = USER" and w: "e AND WRITABLE = flags AND WRITABLE" and uw: "USER AND WRITABLE = 0"
    using assms(1) by (simp_all add: e_def bit.conj_disj_distrib2 and.assoc)
  have "flags AND WRITABLE = WRITABLE" if "USER OR (flags AND WRITABLE) = USER OR WRITABLE"
  proof -
    have "(USER OR (flags AND WRITABLE)) AND WRITABLE = (USER OR WRITABLE) AND WRITABLE" using that by simp
    then show ?thesis by (simp add: bit.conj_disj_distrib2 uw and.assoc)
  qed
  then show ?thesis by (auto simp: bit.conj_disj_distrib u w)
qed

lemma unmap_page_leaf:
  assumes "pt_wf R tabs s" and "tabs (cr3 AND ADDR_MASK) = Some 4" and "user_virt v"
  shows "unmap_page cr3 v s = (case leaf 3 (cr3 AND ADDR_MASK) v s of
      None \<Rightarrow> s | Some (p, i) \<Rightarrow> write_entry p i 0 s)"
  by (simp add: unmap_page_def numeral_3_eq_3 Let_def)

lemma walk_accessible_Suc:
  "walk_accessible (Suc n) t v need s \<longleftrightarrow>
     is_present (read_entry t (pt_index (12 + 9 * Suc n) v) s)
     \<and> read_entry t (pt_index (12 + 9 * Suc n) v) s AND need = need
     \<and> walk_accessible n (read_entry t (pt_index (12 + 9 * Suc n) v) s AND ADDR_MASK) v need s"
  unfolding walk_accessible.simps Let_def by simp

lemma walk_accessible_leaf:
  assumes "pt_wf R tabs s" and "tabs t = Some (Suc n)" and "idx_ok n v" and "walk_accessible n t v need s"
  shows "\<exists>p i. leaf n t v s = Some (p, i) \<and> is_present (read_entry p i s) \<and> read_entry p i s AND need = need"
  using assms(2-)
proof (induction n arbitrary: t)
  case 0
  then show ?case by (auto simp: Let_def)
next
  case (Suc n)
  note st = leaf_step[OF assms(1) Suc.prems(1,2)]
  have n: "n \<le> 2" using pt_wfD(3)[OF assms(1) Suc.prems(1)] by simp
  let ?e = "read_entry t (pt_index (12 + 9 * Suc n) v) s"
  have e: "is_present ?e" "walk_accessible n (?e AND ADDR_MASK) v need s"
    using Suc.prems(3) unfolding walk_accessible_Suc by blast+
  have "leaf (Suc n) t v s = leaf n (?e AND ADDR_MASK) v s" using st(1) e(1) by (simp only: Let_def if_True not_False_eq_True)
  with Suc.IH[OF st(3)[OF e(1)] idx_ok_le[OF n] e(2)] show ?case by (simp only:)
qed

lemma walk_accessible_open:
  assumes "pt_wf R tabs s" and "open_inner tabs s" and need: "(USER OR WRITABLE) AND need = need"
    and "tabs t = Some (Suc n)" and "idx_ok n v" and "leaf n t v s = Some (p, i)"
    and "is_present (read_entry p i s)" and "read_entry p i s AND need = need"
  shows "walk_accessible n t v need s"
  using assms(4-)
proof (induction n arbitrary: t)
  case 0
  then show ?case by (auto simp: Let_def)
next
  case (Suc n)
  note st = leaf_step[OF assms(1) Suc.prems(1,2)]
  have n: "n \<le> 2" using pt_wfD(3)[OF assms(1) Suc.prems(1)] by simp
  let ?i = "pt_index (12 + 9 * Suc n) v"
  let ?e = "read_entry t ?i s"
  have le: "(if is_present ?e then leaf n (?e AND ADDR_MASK) v s else None) = Some (p, i)"
    using st(1) Suc.prems(3) unfolding Let_def by (rule subst)
  then have e: "is_present ?e" by (rule contrapos_pp) simp
  with le have l: "leaf n (?e AND ADDR_MASK) v s = Some (p, i)" by (simp only: if_True not_False_eq_True)
  have two: "2 \<le> Suc (Suc n)" by simp
  have "?e AND (USER OR WRITABLE) = USER OR WRITABLE"
    using assms(2) Suc.prems(1) two st(2) e unfolding open_inner_def by blast
  then have "?e AND need = need" using need by (metis and.assoc)
  with e Suc.IH[OF st(3)[OF e] idx_ok_le[OF n] l Suc.prems(4,5)]
  show ?case unfolding walk_accessible_Suc by (intro conjI)
qed

end
