(* ===== verification/Address_Space.thy ===== *)
theory Address_Space
  imports Vmm
begin

unbundle bit_operations_syntax

text \<open>
  Address spaces as a whole, and the properties of \<^verbatim>\<open>memory/vmm.rs\<close>. The operations are those of
  \<open>Vmm\<close>; here are the lemmas on creating and clearing a top-level table, and the theorems that
  state what \<open>map_page\<close>, \<open>unmap_page\<close>, \<open>user_accessible\<close>, \<open>create_address_space\<close> and
  \<open>free_user_address_space\<close> do to the translation of every user page of every address space.
\<close>

section \<open>Address spaces\<close>

lemma fold_write:
  assumes "u AND ADDR_MASK = u" and "\<forall>i \<in> set is. i < 512" and "t AND ADDR_MASK = t" and "j < 512"
  shows "read_entry t j (fold (\<lambda>i. write_entry u i (f i)) is s)
    = (if t = u \<and> j \<in> set is then f j else read_entry t j s)"
  using assms(2)
proof (induction "is" arbitrary: s)
  case (Cons i "is")
  then have "i < 512" by simp
  from read_write_entry[OF assms(3,4,1) this, of "f i" s] Cons.IH[of "write_entry u i (f i) s"] Cons.prems
  show ?case by (auto split: if_splits)
qed simp

lemma fold_write_fields [simp]:
  "kh (fold (\<lambda>i. write_entry u i (f i)) is s) = kh s"
  "kernel_pml4 (fold (\<lambda>i. write_entry u i (f i)) is s) = kernel_pml4 s"
  by (induction "is" arbitrary: s) (simp_all add: write_entry_def)

lemma fold_copy:
  assumes "u AND ADDR_MASK = u" and "k AND ADDR_MASK = k" and "k \<noteq> u" and "\<forall>i \<in> set is. i < 512"
    and "\<forall>i < 512. g i = read_entry k i s"
  shows "fold (\<lambda>i s. write_entry u i (read_entry k i s) s) is s = fold (\<lambda>i. write_entry u i (g i)) is s"
  using assms(4,5)
proof (induction "is" arbitrary: s)
  case (Cons i "is")
  then have i: "i < 512" "g i = read_entry k i s" by simp_all
  have "g j = read_entry k j (write_entry u i (g i) s)" if "j < 512" for j
    using read_write_entry[OF assms(2) that assms(1) i(1), of "g i" s] assms(3) spec[OF Cons.prems(2), of j] that
    by (simp only: if_False simp_thms)
  then have "\<forall>j < 512. g j = read_entry k j (write_entry u i (g i) s)" by blast
  moreover have "\<forall>i \<in> set is. i < 512" using Cons.prems(1) by simp
  ultimately show ?case using Cons.IH unfolding fold_simps i(2)[symmetric] by blast
qed simp

text \<open>Clearing entries keeps the forest.\<close>

lemma pt_wf_shrink:
  assumes wf: "pt_wf R tabs s" and kh: "kh s' = kh s"
    and sh: "\<And>t l i. tabs t = Some l \<Longrightarrow> 2 \<le> l \<Longrightarrow> valid_idx l i \<Longrightarrow> is_present (read_entry t i s')
      \<Longrightarrow> read_entry t i s' = read_entry t i s"
  shows "pt_wf R tabs s'"
  unfolding pt_wf_def
proof (intro conjI allI impI; (elim conjE)?)
  show "heap_inv R (kh s')" "R \<subseteq> {..< 2 ^ 52}" using pt_wfD(1,2)[OF wf] kh by simp_all
next
  fix t l assume "tabs t = Some l"
  then show "1 \<le> l" "l \<le> 4" "table_ok R (kh s') t" using pt_wfD(3)[OF wf, of t l] kh by simp_all
next
  fix t l i assume t: "tabs t = Some l" "2 \<le> l" "valid_idx l i" "is_present (read_entry t i s')"
  with sh[OF t] pt_wfD(4)[OF wf t(1-3)] show "tabs (read_entry t i s' AND ADDR_MASK) = Some (l - 1)" by simp
next
  fix t l i u m j
  assume t: "tabs t = Some l" "2 \<le> l" "valid_idx l i" "is_present (read_entry t i s')"
    and u: "tabs u = Some m" "2 \<le> m" "valid_idx m j" "is_present (read_entry u j s')"
    and e: "read_entry t i s' AND ADDR_MASK = read_entry u j s' AND ADDR_MASK"
  have "t = u \<and> i = j"
    using pt_wfD(5)[OF wf t(1-3) _ u(1-3)] t(4) u(4) e sh[OF t] sh[OF u] by simp
  then show "t = u" "i = j" by simp_all
qed

lemma pt_wf_extend:
  assumes wf: "pt_wf R tabs s" and new: "tabs p = None" "table_ok R (kh s) p"
    and np: "\<And>i. valid_idx 4 i \<Longrightarrow> \<not> is_present (read_entry p i s)"
  shows "pt_wf R (tabs(p \<mapsto> 4)) s"
proof -
  have old: "tabs t = Some l" if "(tabs(p \<mapsto> 4)) t = Some l" "valid_idx l i" "is_present (read_entry t i s)" for t l i
    using that np by (auto split: if_splits)
  show ?thesis
    unfolding pt_wf_def
  proof (intro conjI allI impI; (elim conjE)?)
    show "heap_inv R (kh s)" "R \<subseteq> {..< 2 ^ 52}" using pt_wfD(1,2)[OF wf] by simp_all
  next
    fix t l assume "(tabs(p \<mapsto> 4)) t = Some l"
    then show "1 \<le> l" "l \<le> 4" "table_ok R (kh s) t" using pt_wfD(3)[OF wf, of t l] new(2) by (auto split: if_splits)
  next
    fix t l i assume t: "(tabs(p \<mapsto> 4)) t = Some l" "2 \<le> l" "valid_idx l i" "is_present (read_entry t i s)"
    from pt_wfD(4)[OF wf old[OF t(1,3,4)] t(2-4)] new(1)
    show "(tabs(p \<mapsto> 4)) (read_entry t i s AND ADDR_MASK) = Some (l - 1)" by auto
  next
    fix t l i u m j
    assume t: "(tabs(p \<mapsto> 4)) t = Some l" "2 \<le> l" "valid_idx l i" "is_present (read_entry t i s)"
      and u: "(tabs(p \<mapsto> 4)) u = Some m" "2 \<le> m" "valid_idx m j" "is_present (read_entry u j s)"
      and e: "read_entry t i s AND ADDR_MASK = read_entry u j s AND ADDR_MASK"
    have "t = u \<and> i = j" by (rule pt_wfD(5)[OF wf old[OF t(1,3,4)] t(2-4) old[OF u(1,3,4)] u(2-4) e])
    then show "t = u" "i = j" by simp_all
  qed
qed

lemma root_unmapped:
  assumes "user_virt v" and "\<And>i. valid_idx 4 i \<Longrightarrow> \<not> is_present (read_entry (cr3 AND ADDR_MASK) i s)"
  shows "translate cr3 v s = None"
proof -
  have "valid_idx 4 (pt_index 39 v)" using assms(1) by (simp add: valid_idx_def user_virt_def)
  from assms(2)[OF this] show ?thesis by (simp add: translate_def table_if_present_def)
qed

lemma valid_idx_4: "valid_idx 4 i \<longleftrightarrow> i \<in> set [1 ..< 256]"
  by (auto simp: valid_idx_def)

text \<open>Walks from a root see only that root and lower tables.\<close>

lemma translate_other_root:
  assumes wf: "pt_wf R tabs s" and t: "tabs (cr3 AND ADDR_MASK) = Some 4" "user_virt v"
    and same: "\<And>t l i. tabs t = Some l \<Longrightarrow> i < 512 \<Longrightarrow> t \<noteq> p \<Longrightarrow> read_entry t i s' = read_entry t i s"
    and p: "tabs p = None \<or> tabs p = Some 4" and ne: "cr3 AND ADDR_MASK \<noteq> p"
  shows "translate cr3 v s' = translate cr3 v s"
proof -
  let ?r = "cr3 AND ADDR_MASK" and ?i = "pt_index 39 v"
  have vi: "valid_idx 4 ?i" using t(2) by (simp add: valid_idx_def user_virt_def)
  have e: "read_entry ?r ?i s' = read_entry ?r ?i s" by (rule same[OF t(1) pt_index_lt ne])
  have low: "leaf_value s' (leaf n u v s') = leaf_value s (leaf n u v s)"
    if "tabs u = Some (Suc n)" "n \<le> 2" for n u
    using that
  proof (induction n arbitrary: u)
    case 0
    then have "u \<noteq> p" using p by auto
    from same[OF 0(1) pt_index_lt this, of 12 v] show ?case by (simp add: leaf_value_def)
  next
    case (Suc n)
    have ok: "idx_ok (Suc n) v" by (rule idx_ok_le[OF Suc.prems(2)])
    note st = leaf_step[OF wf Suc.prems(1) ok]
    let ?j = "pt_index (12 + 9 * Suc n) v"
    have "u \<noteq> p" using p Suc.prems by auto
    then have e: "read_entry u ?j s' = read_entry u ?j s" by (rule same[OF Suc.prems(1) pt_index_lt])
    show ?case
    proof (cases "is_present (read_entry u ?j s)")
      case True
      have "leaf_value s' (leaf n (read_entry u ?j s AND ADDR_MASK) v s')
          = leaf_value s (leaf n (read_entry u ?j s AND ADDR_MASK) v s)"
        by (rule Suc.IH[OF st(3)[OF True]]) (use Suc.prems(2) in simp)
      then show ?thesis unfolding leaf.simps table_if_present_def Let_def e by (simp add: leaf_value_def)
    next
      case False
      then show ?thesis unfolding leaf.simps table_if_present_def Let_def e by (simp add: leaf_value_def)
    qed
  qed
  have t3: "leaf 3 ?r v q = (let c = table_if_present ?r ?i q in if c = 0 then None else leaf 2 c v q)" for q
    using leaf.simps(2)[of 2 ?r v q] by simp
  show ?thesis
  proof (cases "is_present (read_entry ?r ?i s)")
    case True
    then have "tabs (read_entry ?r ?i s AND ADDR_MASK) = Some (Suc 2)"
      using pt_wfD(4)[OF wf t(1) _ vi] by simp
    from low[OF this] show ?thesis
      unfolding translate_leaf t3 table_if_present_def Let_def e by (simp add: leaf_value_def)
  next
    case False
    then show ?thesis unfolding translate_leaf t3 table_if_present_def Let_def e by (simp add: leaf_value_def)
  qed
qed

lemma created_space:
  assumes wf: "pt_wf R tabs s" and k: "tabs (kernel_pml4 s) = Some 4" and c: "create_address_space s = (Inr p, s')"
  shows "tabs p = None" and "pt_wf R (tabs(p \<mapsto> 4)) s'"
    and "i = 0 \<or> 256 \<le> i \<and> i < 512 \<Longrightarrow> read_entry p i s' = read_entry (kernel_pml4 s) i s"
    and "user_virt v \<Longrightarrow> translate p v s' = None"
    and "tabs (cr3 AND ADDR_MASK) = Some 4 \<Longrightarrow> user_virt v \<Longrightarrow> translate cr3 v s' = translate cr3 v s"
  supply upt_rec_numeral [simp del]
proof -
  obtain s1 where a: "alloc_table s = (Inr p, s1)"
    using c by (auto simp: create_address_space_def Let_def split: prod.splits sum.splits)
  note al = alloc_table_ok[OF wf a]
  let ?k = "kernel_pml4 s"
  define f where "f = (\<lambda>i. if i = 0 \<or> 256 \<le> i then read_entry ?k i s else 0)"
  have pm: "p AND ADDR_MASK = p" using al(2) by (simp add: table_ok_def)
  have km: "?k AND ADDR_MASK = ?k" by (rule pt_wf_masked[OF wf k])
  have kp: "?k \<noteq> p" using k al(1) by auto
  have k1: "read_entry ?k i s1 = read_entry ?k i s" if "i < 512" for i by (rule al(4)[OF k that])
  define g where "g = fold (\<lambda>i. write_entry p i 0) [1 ..< 256] (write_entry p 0 (read_entry ?k 0 s1) s1)"
  have kg: "read_entry ?k i g = read_entry ?k i s" if "i < 512" for i
    using fold_write[OF pm _ km that, of "[1 ..< 256]"] read_write_entry[OF km that pm, of 0] kp k1[OF that]
    by (simp add: g_def)
  have "s' = fold (\<lambda>i s. write_entry p i (read_entry ?k i s) s) [256 ..< 512] g"
    using c by (simp add: create_address_space_def a al(6) g_def Let_def)
  also have "\<dots> = fold (\<lambda>i. write_entry p i (read_entry ?k i s)) [256 ..< 512] g"
    by (rule fold_copy[OF pm km kp]) (use kg in auto)
  finally have s': "s' = fold (\<lambda>i. write_entry p i (read_entry ?k i s)) [256 ..< 512] g" .
  have rd: "read_entry t j s' = (if t = p then f j else read_entry t j s1)"
    if "t AND ADDR_MASK = t" "j < 512" for t j
    using fold_write[OF pm _ that, of "[256 ..< 512]"] fold_write[OF pm _ that, of "[1 ..< 256]"]
      read_write_entry[OF that pm, of 0] k1[of 0] that(2)
    unfolding s' g_def f_def by (auto split: if_splits)
  show "tabs p = None" by (rule al(1))
  have kh: "kh s' = kh s1" unfolding s' g_def by (simp add: write_entry_def)
  have wf1: "pt_wf R tabs s'"
  proof (rule pt_wf_shrink[OF al(3) kh])
    fix t l i assume t: "tabs t = Some l" "valid_idx l i"
    then have "t \<noteq> p" using al(1) by auto
    then show "read_entry t i s' = read_entry t i s1"
      using rd[OF pt_wf_masked[OF wf t(1)] valid_idx_lt[OF t(2)]] by simp
  qed
  have np: "\<not> is_present (read_entry p i s')" if "valid_idx 4 i" for i
    using rd[OF pm valid_idx_lt[OF that]] that by (simp add: f_def valid_idx_def)
  show "pt_wf R (tabs(p \<mapsto> 4)) s'"
    by (rule pt_wf_extend[OF wf1 al(1) _ np]) (use al(2) kh in simp)
  show "read_entry p i s' = read_entry ?k i s" if "i = 0 \<or> 256 \<le> i \<and> i < 512"
    using rd[OF pm, of i] that by (auto simp: f_def)
  show "translate p v s' = None" if "user_virt v"
    by (rule root_unmapped[OF that]) (use np pm in simp)
  show "translate cr3 v s' = translate cr3 v s" if "tabs (cr3 AND ADDR_MASK) = Some 4" "user_virt v"
  proof (rule translate_other_root[OF wf that])
    fix t l and i :: nat assume t: "tabs t = Some l" "i < 512" "t \<noteq> p"
    then show "read_entry t i s' = read_entry t i s"
      using rd[OF pt_wf_masked[OF wf t(1)] t(2)] al(4)[OF t(1,2)] by simp
  qed (use al(1) that(1) in auto)
qed

lemma freed_space:
  assumes wf: "pt_wf R tabs s" and k: "tabs (kernel_pml4 s) = Some 4"
    and t: "tabs (cr3 AND ADDR_MASK) = Some 4" and ne: "cr3 AND ADDR_MASK \<noteq> kernel_pml4 s"
  shows "pt_wf R tabs (free_user_address_space cr3 s)"
    and "user_virt v \<Longrightarrow> translate cr3 v (free_user_address_space cr3 s) = None"
    and "tabs (cr3' AND ADDR_MASK) = Some 4 \<Longrightarrow> cr3' AND ADDR_MASK \<noteq> cr3 AND ADDR_MASK \<Longrightarrow> user_virt v
      \<Longrightarrow> translate cr3' v (free_user_address_space cr3 s) = translate cr3' v s"
  supply upt_rec_numeral [simp del]
proof -
  let ?p = "cr3 AND ADDR_MASK" and ?s = "free_user_address_space cr3 s"
  have km: "kernel_pml4 s AND ADDR_MASK = kernel_pml4 s" by (rule pt_wf_masked[OF wf k])
  have s': "?s = fold (\<lambda>i. write_entry ?p i 0) [1 ..< 256] s"
    using pt_wf_nonzero[OF wf t] ne by (simp add: free_user_address_space_def km)
  have pm: "?p AND ADDR_MASK = ?p" by (rule pt_wf_masked[OF wf t])
  have rd: "read_entry u j ?s = (if u = ?p \<and> 1 \<le> j \<and> j < 256 then 0 else read_entry u j s)"
    if "u AND ADDR_MASK = u" "j < 512" for u j
    unfolding s' using fold_write[OF pm _ that, of "[1 ..< 256]" "\<lambda>_. 0" s] by auto
  have kh: "kh ?s = kh s" unfolding s' by simp
  show "pt_wf R tabs ?s"
  proof (rule pt_wf_shrink[OF wf kh])
    fix u l i assume u: "tabs u = Some l" "valid_idx l i" "is_present (read_entry u i ?s)"
    then show "read_entry u i ?s = read_entry u i s"
      using rd[OF pt_wf_masked[OF wf u(1)] valid_idx_lt[OF u(2)]] by (auto split: if_splits)
  qed
  show "translate cr3 v ?s = None" if "user_virt v"
    by (rule root_unmapped[OF that]) (use rd[OF pm] in \<open>auto simp: valid_idx_def\<close>)
  show "translate cr3' v ?s = translate cr3' v s"
    if "tabs (cr3' AND ADDR_MASK) = Some 4" "cr3' AND ADDR_MASK \<noteq> cr3 AND ADDR_MASK" "user_virt v"
  proof (rule translate_other_root[OF wf that(1,3)])
    fix u l and i :: nat assume u: "tabs u = Some l" "i < 512" "u \<noteq> ?p"
    then show "read_entry u i ?s = read_entry u i s" using rd[OF pt_wf_masked[OF wf u(1)] u(2)] by simp
  qed (use t that(2) in auto)
qed

section \<open>Properties\<close>

text \<open>
  C10: \<open>map_page\<close> implements an update of the address-space map. On success the page translates to
  the frame it was given; no other user page of any address space changes its translation,
  whatever tables had to be allocated. A misaligned request is rejected and changes nothing; when
  table memory runs out, every translation is as before. In every case the forest stays well formed.
\<close>

theorem map_page_correct:
  assumes "pt_wf R tabs s" and "tabs (cr3 AND ADDR_MASK) = Some 4" and "user_virt v" and "flags AND ADDR_MASK = 0"
  shows "case map_page cr3 v phys flags s of (r, s') \<Rightarrow>
      (\<exists>tabs'. pt_wf R tabs' s' \<and> tabs \<subseteq>\<^sub>m tabs')
      \<and> (r = Inl InvalidAddress \<longleftrightarrow> v AND (PAGE_SIZE - 1) \<noteq> 0 \<or> phys AND (PAGE_SIZE - 1) \<noteq> 0)
      \<and> (r = Inr () \<longrightarrow> translate cr3 v s' = Some (phys AND ADDR_MASK))
      \<and> (\<forall>cr3' w. tabs (cr3' AND ADDR_MASK) = Some 4 \<and> user_virt w
           \<and> \<not> (r = Inr () \<and> cr3' AND ADDR_MASK = cr3 AND ADDR_MASK \<and> same_page w v)
           \<longrightarrow> translate cr3' w s' = translate cr3' w s)"
proof (cases "map_page cr3 v phys flags s")
  case (Pair r s')
  from assms(1-3) Pair show ?thesis
  proof (cases rule: map_page_cases)
    case misaligned
    with assms(1) Pair show ?thesis by auto
  next
    case (no_memory tabs')
    have a: "pt_wf R tabs' s'" "tabs \<subseteq>\<^sub>m tabs'" using no_memory(2) by (simp_all add: grows_def)
    with no_memory(3,4) grows_translate[OF no_memory(2)] show ?thesis
      unfolding Pair prod.case no_memory(1) by auto
  next
    case (mapped tabs' s3 pt)
    let ?e = "(phys AND ADDR_MASK) OR PRESENT OR flags"
    note wf3 = grows_wf[OF mapped(2)]
    have root: "tabs' (cr3 AND ADDR_MASK) = Some 4" by (rule grows_tabs[OF mapped(2) assms(2)])
    have le: "tabs \<subseteq>\<^sub>m tabs'" using mapped(2) by (simp add: grows_def)
    have p: "tabs' pt = Some 1" "pt_index 12 v < 512"
      using leaf_tabs[OF wf3 _ user_idx_ok[OF assms(3)] mapped(3)] root by simp_all
    have wf': "pt_wf R tabs' s'" unfolding mapped(4) by (rule write_leaf(1)[OF wf3 p])
    note tr = write_leaf_translates[OF wf3 root assms(3) mapped(3), where e = ?e, folded mapped(4)]
    note le4 = leaf_entry[OF assms(4), of phys]
    have "translate cr3 v s' = Some (phys AND ADDR_MASK)"
      using tr[OF root assms(3)] le4 by (simp add: same_page_def)
    moreover have "translate cr3' w s' = translate cr3' w s"
      if "tabs (cr3' AND ADDR_MASK) = Some 4" "user_virt w"
        "\<not> (cr3' AND ADDR_MASK = cr3 AND ADDR_MASK \<and> same_page w v)" for cr3' w
      using tr[OF grows_tabs[OF mapped(2) that(1)] that(2)] that(3) grows_translate[OF mapped(2) that(1,2)]
      by (simp only: if_False)
    ultimately show ?thesis
      unfolding Pair prod.case using wf' le mapped(1,5,6) by auto
  qed
qed

text \<open>A small machine: one empty top-level table below a one-megabyte kernel heap.\<close>

definition demo_vmm :: vmm_state where
  "demo_vmm = \<lparr>vmem = (\<lambda>_. 0), kh = heap_init 0x100000 0x100000 heap_new, kernel_pml4 = 0x1000,
     current_pml4 = 0x1000, cr3_reg = 0x1000, this_cpu = 0\<rparr>"

lemma demo_heap: "heap_inv {0x100000 ..< 0x200000} (kh demo_vmm)"
  using heap_inv_init[of "0x100000" "0x100000"] by (simp add: demo_vmm_def FREE_NODE_def)

lemma demo_wf:
  "pt_wf {0x100000 ..< 0x200000} [0x1000 \<mapsto> 4] demo_vmm" "open_inner [0x1000 \<mapsto> 4] demo_vmm"
  using demo_heap
  by (auto simp: pt_wf_def open_inner_def table_ok_def page_def read_entry_def ADDR_MASK_def split: if_splits)
    (simp_all add: demo_vmm_def)

lemma demo_user: "user_virt 0x8000000000"
  by (simp add: user_virt_def pt_index_def drop_bit_eq_div)

lemma demo_root: "[0x1000 \<mapsto> 4] (0x1000 AND ADDR_MASK) = Some (4 :: nat)"
  by (simp add: ADDR_MASK_def)

theorem map_page_correct_witness:
  "translate 0x1000 0x8000000000 (snd (map_page 0x1000 0x8000000000 0x5000 USER_READ_WRITE demo_vmm)) = Some 0x5000"
proof -
  have f: "USER_READ_WRITE AND ADDR_MASK = 0"
    by (simp add: USER_READ_WRITE_def USER_def WRITABLE_def ADDR_MASK_def)
  have r: "fst (map_page 0x1000 0x8000000000 0x5000 USER_READ_WRITE demo_vmm) = Inr ()"
    by code_simp
  show ?thesis
    using map_page_correct[OF demo_wf(1) demo_root demo_user f, of "0x5000"] r
    by (auto simp: case_prod_unfold ADDR_MASK_def)
qed



text \<open>
  C33: \<open>unmap_page\<close> removes exactly one translation: the page it is given no longer translates, every
  other user page of every address space translates as before, and the forest stays well formed.
\<close>

theorem unmap_page_correct:
  assumes "pt_wf R tabs s" and "tabs (cr3 AND ADDR_MASK) = Some 4" and "user_virt v"
  shows "pt_wf R tabs (unmap_page cr3 v s) \<and> translate cr3 v (unmap_page cr3 v s) = None
    \<and> (\<forall>cr3' w. tabs (cr3' AND ADDR_MASK) = Some 4 \<and> user_virt w
         \<and> \<not> (cr3' AND ADDR_MASK = cr3 AND ADDR_MASK \<and> same_page w v)
         \<longrightarrow> translate cr3' w (unmap_page cr3 v s) = translate cr3' w s)"
proof (cases "leaf 3 (cr3 AND ADDR_MASK) v s")
  case None
  then have "unmap_page cr3 v s = s" using unmap_page_leaf[OF assms] by simp
  with assms(1) None show ?thesis by (simp add: translate_leaf leaf_value_def)
next
  case (Some c)
  obtain p i where c: "c = (p, i)" by fastforce
  note l = Some[unfolded c]
  have u: "unmap_page cr3 v s = write_entry p i 0 s" using unmap_page_leaf[OF assms] l by simp
  have p: "tabs p = Some 1" "i < 512"
    using leaf_tabs[OF assms(1) _ user_idx_ok[OF assms(3)] l] assms(2) by simp_all
  note tr = write_leaf_translates[OF assms l, where e = 0]
  have z: "\<not> is_present 0" by simp
  have "translate cr3 v (write_entry p i 0 s) = None"
    using tr[OF assms(2,3)] z by (simp add: same_page_def)
  moreover have "translate cr3' w (write_entry p i 0 s) = translate cr3' w s"
    if "tabs (cr3' AND ADDR_MASK) = Some 4" "user_virt w"
      "\<not> (cr3' AND ADDR_MASK = cr3 AND ADDR_MASK \<and> same_page w v)" for cr3' w
    using tr[OF that(1,2)] that(3) by (simp only: if_False)
  ultimately show ?thesis unfolding u using write_leaf(1)[OF assms(1) p] by blast
qed

text \<open>The small machine with one page mapped, its tables below the heap.\<close>

definition demo_mapped :: vmm_state where
  "demo_mapped = write_entry 0x4000 0 0x5007 (write_entry 0x3000 0 0x4007
     (write_entry 0x2000 0 0x3007 (write_entry 0x1000 1 0x2007 demo_vmm)))"

lemma demo_table_ok:
  "t \<in> {0x1000, 0x2000, 0x3000, 0x4000} \<Longrightarrow> t AND ADDR_MASK = t \<and> table_ok {0x100000 ..< 0x200000} h t"
  by (auto simp: table_ok_def page_def ADDR_MASK_def)

lemma demo_mapped_wf:
  "pt_wf {0x100000 ..< 0x200000} [0x1000 \<mapsto> 4, 0x2000 \<mapsto> 3, 0x3000 \<mapsto> 2, 0x4000 \<mapsto> 1] demo_mapped"
proof -
  let ?R = "{0x100000 ..< 0x200000} :: nat set"
  let ?s1 = "write_entry 0x1000 1 0x2007 demo_vmm"
  let ?s2 = "write_entry 0x2000 0 0x3007 ?s1"
  let ?s3 = "write_entry 0x3000 0 0x4007 ?s2"
  have z: "read_entry t i demo_vmm = 0" for t i by (simp add: read_entry_def demo_vmm_def)
  note rw = read_write_entry demo_table_ok
  have 1: "pt_wf ?R [0x1000 \<mapsto> 4, 0x2000 \<mapsto> 4 - 1] ?s1"
    by (rule add_table_wf[OF demo_wf(1)]) (simp_all add: z valid_idx_def demo_table_ok PRESENT_def, simp_all add: ADDR_MASK_def)
  have 2: "pt_wf ?R [0x1000 \<mapsto> 4, 0x2000 \<mapsto> 4 - 1, 0x3000 \<mapsto> 3 - 1] ?s2"
    by (rule add_table_wf[OF 1]) (simp_all add: z rw valid_idx_def PRESENT_def, simp_all add: ADDR_MASK_def)
  have 3: "pt_wf ?R [0x1000 \<mapsto> 4, 0x2000 \<mapsto> 4 - 1, 0x3000 \<mapsto> 3 - 1, 0x4000 \<mapsto> 2 - 1] ?s3"
    by (rule add_table_wf[OF 2]) (simp_all add: z rw valid_idx_def PRESENT_def, simp_all add: ADDR_MASK_def)
  have "pt_wf ?R [0x1000 \<mapsto> 4, 0x2000 \<mapsto> 4 - 1, 0x3000 \<mapsto> 3 - 1, 0x4000 \<mapsto> 2 - 1] demo_mapped"
    unfolding demo_mapped_def by (rule write_leaf(1)[OF 3]) simp_all
  then show ?thesis by simp
qed

theorem unmap_page_correct_witness:
  "translate 0x1000 0x8000000000 demo_mapped = Some 0x5000
   \<and> translate 0x1000 0x8000000000 (unmap_page 0x1000 0x8000000000 demo_mapped) = None"
proof
  show "translate 0x1000 0x8000000000 demo_mapped = Some 0x5000" by code_simp
  have "[0x1000 \<mapsto> 4, 0x2000 \<mapsto> 3, 0x3000 \<mapsto> 2, 0x4000 \<mapsto> 1] (0x1000 AND ADDR_MASK) = Some (4 :: nat)"
    by (simp add: ADDR_MASK_def)
  from unmap_page_correct[OF demo_mapped_wf this demo_user]
  show "translate 0x1000 0x8000000000 (unmap_page 0x1000 0x8000000000 demo_mapped) = None" by blast
qed

text \<open>
  C28: a new address space is empty and isolated. \<open>create_address_space\<close> returns a fresh top-level
  table that shares exactly the kernel's entries (0 and 256 to 511), in which no user page
  translates, without changing any translation elsewhere; \<open>free_user_address_space\<close> leaves no user
  page of that space mapped and touches no other space.
\<close>

theorem address_space_correct:
  assumes "pt_wf R tabs s" and "tabs (kernel_pml4 s) = Some 4"
  shows "(\<forall>p s'. create_address_space s = (Inr p, s') \<longrightarrow>
       tabs p = None \<and> pt_wf R (tabs(p \<mapsto> 4)) s'
       \<and> (\<forall>i. i = 0 \<or> 256 \<le> i \<and> i < 512 \<longrightarrow> read_entry p i s' = read_entry (kernel_pml4 s) i s)
       \<and> (\<forall>v. user_virt v \<longrightarrow> translate p v s' = None)
       \<and> (\<forall>cr3 v. tabs (cr3 AND ADDR_MASK) = Some 4 \<and> user_virt v \<longrightarrow> translate cr3 v s' = translate cr3 v s))
   \<and> (\<forall>cr3. tabs (cr3 AND ADDR_MASK) = Some 4 \<and> cr3 AND ADDR_MASK \<noteq> kernel_pml4 s \<longrightarrow>
       pt_wf R tabs (free_user_address_space cr3 s)
       \<and> (\<forall>v. user_virt v \<longrightarrow> translate cr3 v (free_user_address_space cr3 s) = None)
       \<and> (\<forall>cr3' v. tabs (cr3' AND ADDR_MASK) = Some 4 \<and> cr3' AND ADDR_MASK \<noteq> cr3 AND ADDR_MASK \<and> user_virt v
            \<longrightarrow> translate cr3' v (free_user_address_space cr3 s) = translate cr3' v s))"
proof (intro conjI allI impI)
  fix p s' assume c: "create_address_space s = (Inr p, s')"
  note s = created_space[OF assms c]
  show "tabs p = None" "pt_wf R (tabs(p \<mapsto> 4)) s'" by (rule s)+
  show "read_entry p i s' = read_entry (kernel_pml4 s) i s" if "i = 0 \<or> 256 \<le> i \<and> i < 512" for i
    by (rule s(3)[OF that])
  show "translate p v s' = None" if "user_virt v" for v by (rule s(4)[OF that])
  show "translate cr3 v s' = translate cr3 v s" if "tabs (cr3 AND ADDR_MASK) = Some 4 \<and> user_virt v" for cr3 v
    by (rule s(5)) (use that in simp_all)
next
  fix cr3 assume f: "tabs (cr3 AND ADDR_MASK) = Some 4 \<and> cr3 AND ADDR_MASK \<noteq> kernel_pml4 s"
  then have f': "tabs (cr3 AND ADDR_MASK) = Some 4" "cr3 AND ADDR_MASK \<noteq> kernel_pml4 s" by simp_all
  note s = freed_space[OF assms f']
  show "pt_wf R tabs (free_user_address_space cr3 s)" by (rule s(1))
  show "translate cr3 v (free_user_address_space cr3 s) = None" if "user_virt v" for v by (rule s(2)[OF that])
  show "translate cr3' v (free_user_address_space cr3 s) = translate cr3' v s"
    if "tabs (cr3' AND ADDR_MASK) = Some 4 \<and> cr3' AND ADDR_MASK \<noteq> cr3 AND ADDR_MASK \<and> user_virt v" for cr3' v
    by (rule s(3)) (use that in simp_all)
qed

theorem address_space_correct_witness:
  "\<exists>p s'. create_address_space demo_vmm = (Inr p, s') \<and> translate p 0x8000000000 s' = None"
proof -
  have k: "[0x1000 \<mapsto> 4] (kernel_pml4 demo_vmm) = Some (4 :: nat)" by (simp add: demo_vmm_def)
  have "\<not> isl (fst (alloc_table demo_vmm))" by code_simp
  then obtain p s1 where "alloc_table demo_vmm = (Inr p, s1)"
    by (metis prod.collapse sum.collapse(2))
  then obtain s' where c: "create_address_space demo_vmm = (Inr p, s')"
    unfolding create_address_space_def Let_def by (simp only: prod.case sum.case)
  with address_space_correct[OF demo_wf(1) k] demo_user show ?thesis by blast
qed

end
