(* ===== verification/Uaccess.thy ===== *)
theory Uaccess
  imports Address_Space
begin

unbundle bit_operations_syntax

text \<open>
  Access to user memory from system calls, \<^verbatim>\<open>crates/kernel/src/memory/uaccess.rs\<close>. A pointer that came
  from user mode is dereferenced only after every page of the range has been checked with
  \<open>user_accessible\<close>. Memory is byte addressed through the page tables of the active address space;
  an access to a page that does not translate is a page fault in the kernel and is \<open>None\<close>.

  The loop over the pages is a \<open>partial_function\<close>: that it returns is a theorem.
\<close>

section \<open>Model\<close>

definition USER_MIN :: u64 where "USER_MIN = 0x0000008000000000"
definition USER_MAX :: u64 where "USER_MAX = 0x0000800000000000"
definition MAX_TRANSFER :: u64 where "MAX_TRANSFER = 16 * 1024 * 1024"

record machine =
  vm :: vmm_state
  ram :: "u64 \<Rightarrow> u8"

text \<open>\<open>addr & !0xfff\<close>.\<close>

definition page_down :: "u64 \<Rightarrow> u64" where
  "page_down v = v AND NOT 0xfff"

partial_function (option) validate_loop :: "u64 \<Rightarrow> u64 \<Rightarrow> u64 \<Rightarrow> bool \<Rightarrow> vmm_state \<Rightarrow> bool option" where
  "validate_loop cr3 pg last_pg wr s =
     (if \<not> user_accessible cr3 pg wr s then Some False
      else if pg = last_pg then Some True
      else validate_loop cr3 (pg + 4096) last_pg wr s)"

definition validate_range_in :: "u64 \<Rightarrow> u64 \<Rightarrow> u64 \<Rightarrow> bool \<Rightarrow> vmm_state \<Rightarrow> bool option" where
  "validate_range_in cr3 ptr len wr s =
     (if len = 0 then Some True
      else if len > MAX_TRANSFER then Some False
      else
        (case checked_add ptr len of
           None \<Rightarrow> Some False
         | Some end_ \<Rightarrow>
             if ptr < USER_MIN \<or> end_ > USER_MAX then Some False
             else validate_loop cr3 (page_down ptr) (page_down (end_ - 1)) wr s))"

definition validate_range :: "u64 \<Rightarrow> u64 \<Rightarrow> bool \<Rightarrow> vmm_state \<Rightarrow> bool option" where
  "validate_range ptr len wr s = validate_range_in (active_cr3 s) ptr len wr s"

text \<open>The byte at a virtual address of the address space \<open>cr3\<close>.\<close>

definition phys_addr :: "u64 \<Rightarrow> u64 \<Rightarrow> vmm_state \<Rightarrow> u64 option" where
  "phys_addr cr3 virt s = map_option (\<lambda>frame. frame OR (virt AND 0xfff)) (translate cr3 virt s)"

text \<open>\<open>copy_nonoverlapping\<close> from and to a virtual address, byte by byte.\<close>

primrec load_bytes :: "nat \<Rightarrow> u64 \<Rightarrow> u64 \<Rightarrow> machine \<Rightarrow> u8 list option" where
  "load_bytes 0 cr3 virt m = Some []"
| "load_bytes (Suc n) cr3 virt m =
     (case phys_addr cr3 virt (vm m) of
        None \<Rightarrow> None
      | Some p \<Rightarrow> map_option ((#) (ram m p)) (load_bytes n cr3 (virt + 1) m))"

primrec store_bytes :: "u8 list \<Rightarrow> u64 \<Rightarrow> u64 \<Rightarrow> machine \<Rightarrow> machine option" where
  "store_bytes [] cr3 virt m = Some m"
| "store_bytes (b # bs) cr3 virt m =
     (case phys_addr cr3 virt (vm m) of
        None \<Rightarrow> None
      | Some p \<Rightarrow> store_bytes bs cr3 (virt + 1) (m\<lparr>ram := (ram m)(p := b)\<rparr>))"

text \<open>
  The outer option of the following functions is \<open>None\<close> for a page fault (or a check that never
  returns); the inner result is what the Rust function returns.
\<close>

definition read_bytes :: "u64 \<Rightarrow> u64 \<Rightarrow> machine \<Rightarrow> u8 list option option" where
  "read_bytes ptr len m =
     (case validate_range ptr len False (vm m) of
        None \<Rightarrow> None
      | Some False \<Rightarrow> Some None
      | Some True \<Rightarrow> map_option Some (load_bytes (unat len) (active_cr3 (vm m)) ptr m))"

definition write_bytes_in :: "u64 \<Rightarrow> u64 \<Rightarrow> u8 list \<Rightarrow> machine \<Rightarrow> (bool \<times> machine) option" where
  "write_bytes_in cr3 ptr src m =
     (case validate_range_in cr3 ptr (word_of_nat (length src)) True (vm m) of
        None \<Rightarrow> None
      | Some False \<Rightarrow> Some (False, m)
      | Some True \<Rightarrow> map_option (Pair True) (store_bytes src cr3 ptr m))"

definition write_bytes :: "u64 \<Rightarrow> u8 list \<Rightarrow> machine \<Rightarrow> (bool \<times> machine) option" where
  "write_bytes ptr src m = write_bytes_in (active_cr3 (vm m)) ptr src m"

text \<open>A plain value is written as its little-endian bytes.\<close>

definition write_value :: "u64 \<Rightarrow> nat \<Rightarrow> nat \<Rightarrow> machine \<Rightarrow> (bool \<times> machine) option" where
  "write_value ptr sz v m = write_bytes ptr (to_le sz v) m"

section \<open>Pages\<close>

lemma and_not_mask: "v AND NOT (mask n) = push_bit n (drop_bit n v)" for v :: u64
  by (rule bit_eqI) (auto simp: bit_simps)

lemma drop_push_drop: "drop_bit n (push_bit n (drop_bit n v)) = drop_bit n v" for v :: u64
  by (rule bit_eqI) (auto simp: bit_simps dest: bit_imp_le_length)

lemma page_down_eq: "page_down v = push_bit 12 (drop_bit 12 v)"
proof -
  have "(0xfff :: u64) = mask 12" by (simp add: mask_eq_exp_minus_1)
  then show ?thesis unfolding page_down_def by (simp only: and_not_mask)
qed

lemma unat_lt64: "unat (v :: u64) < 2 ^ 64"
  using unsigned_less[of v] by simp

lemma unat_page_down: "unat (page_down v) = unat v div 4096 * 4096"
proof -
  have le: "unat v div 4096 * 4096 < 2 ^ 64"
    using unat_lt64[of v] div_times_less_eq_dividend[of "unat v" 4096] by linarith
  have d: "unat (drop_bit 12 v) = unat v div 4096"
    by (simp add: drop_bit_eq_div unat_div)
  have "unat (push_bit 12 (drop_bit 12 v)) = take_bit LENGTH(64) (push_bit 12 (unat (drop_bit 12 v)))"
    by (rule unsigned_push_bit_eq)
  also have "\<dots> = take_bit 64 (unat v div 4096 * 4096)"
    unfolding d push_bit_eq_mult by simp
  also have "\<dots> = unat v div 4096 * 4096" using le by (simp only: take_bit_eq_mod mod_less)
  finally show ?thesis by (simp only: page_down_eq)
qed

lemma pt_index_page: "12 \<le> k \<Longrightarrow> pt_index k (page_down v) = pt_index k v"
proof -
  assume "12 \<le> k"
  then obtain j where k: "k = j + 12" by (metis add.commute le_Suc_ex)
  have "drop_bit k w = drop_bit j (drop_bit 12 w)" for w :: u64 unfolding k by simp
  then show ?thesis unfolding pt_index_def page_down_eq by (simp only: drop_push_drop)
qed

lemma walk_accessible_page: "walk_accessible n t (page_down v) need s = walk_accessible n t v need s"
  by (induction n arbitrary: t) (simp_all add: pt_index_page Let_def)

lemma user_accessible_page: "user_accessible cr3 (page_down v) wr s = user_accessible cr3 v wr s"
  by (simp add: user_accessible_def walk_accessible_page)

lemma user_accessible_cong:
  assumes "unat v div 4096 = unat w div 4096"
  shows "user_accessible cr3 v wr s = user_accessible cr3 w wr s"
proof -
  have "page_down v = page_down w"
    using assms by (simp add: word_unat_eq_iff unat_page_down)
  then show ?thesis by (metis user_accessible_page)
qed

section \<open>The check returns, and what it accepts\<close>

lemma validate_loop_spec:
  assumes "unat last_pg = unat pg + 4096 * n"
  shows "validate_loop cr3 pg last_pg wr s
    = Some (\<forall>k \<le> n. user_accessible cr3 (pg + word_of_nat (4096 * k)) wr s)"
  using assms
proof (induction n arbitrary: pg)
  case 0
  then have "pg = last_pg" by (simp add: word_unat_eq_iff)
  then show ?case by (subst validate_loop.simps) simp
next
  case (Suc n)
  have ne: "pg \<noteq> last_pg" using Suc.prems by auto
  have "unat pg + 4096 < 2 ^ 64" using Suc.prems unat_lt64[of last_pg] by simp
  then have "unat (pg + 4096) = unat pg + 4096" by (subst unat_add_exact) simp_all
  then have IH: "validate_loop cr3 (pg + 4096) last_pg wr s
      = Some (\<forall>k \<le> n. user_accessible cr3 (pg + 4096 + word_of_nat (4096 * k)) wr s)"
    using Suc.prems by (intro Suc.IH) simp
  have all: "(\<forall>k \<le> Suc n. P k) \<longleftrightarrow> P 0 \<and> (\<forall>k \<le> n. P (Suc k))" for P
    by (metis Suc_le_mono le0 not0_implies_Suc)
  show ?case
    unfolding all by (subst validate_loop.simps) (use ne IH in \<open>simp add: add.assoc\<close>)
qed

definition in_user_range :: "u64 \<Rightarrow> u64 \<Rightarrow> bool" where
  "in_user_range ptr len \<longleftrightarrow> len \<le> MAX_TRANSFER \<and> unat ptr + unat len < 2 ^ 64
     \<and> unat USER_MIN \<le> unat ptr \<and> unat ptr + unat len \<le> unat USER_MAX"

lemma validate_range_spec:
  "validate_range_in cr3 ptr len wr s = Some (len = 0 \<or>
     in_user_range ptr len \<and> (\<forall>a. unat ptr \<le> unat a \<and> unat a < unat ptr + unat len \<longrightarrow> user_accessible cr3 a wr s))"
proof (cases "len = 0 \<or> \<not> in_user_range ptr len")
  case True
  then show ?thesis
    by (auto simp: validate_range_in_def in_user_range_def checked_add_def word_less_nat_alt
        word_le_nat_alt unat_add_exact not_le split: option.splits)
next
  case False
  then have l: "0 < unat len" and r: "in_user_range ptr len" by (auto simp: unat_gt_0)
  let ?e = "ptr + len"
  have e: "unat ?e = unat ptr + unat len" using r by (simp add: in_user_range_def unat_add_exact)
  have e1: "unat (?e - 1) = unat ptr + unat len - 1"
    using e l by (subst unat_minus_one) auto
  let ?f = "page_down ptr" and ?l = "page_down (?e - 1)"
  define n where "n = (unat ptr + unat len - 1) div 4096 - unat ptr div 4096"
  have mono: "unat ptr div 4096 \<le> (unat ptr + unat len - 1) div 4096"
    using l by (intro div_le_mono) linarith
  have "unat ?l = unat ?f + 4096 * n"
    unfolding unat_page_down e1 n_def using mono by (simp add: algebra_simps)
  from validate_loop_spec[OF this]
  have v: "validate_range_in cr3 ptr len wr s = Some (\<forall>k \<le> n. user_accessible cr3 (?f + word_of_nat (4096 * k)) wr s)"
    using False r e l
    by (simp add: validate_range_in_def checked_add_def in_user_range_def word_less_nat_alt word_le_nat_alt)
  have pg: "unat (?f + word_of_nat (4096 * k)) div 4096 = unat ptr div 4096 + k" if "k \<le> n" for k
  proof -
    have "unat ptr div 4096 * 4096 + 4096 * k \<le> (unat ptr + unat len - 1) div 4096 * 4096"
      using that mono unfolding n_def by linarith
    also have "\<dots> < 2 ^ 64" using r l div_times_less_eq_dividend[of "unat ptr + unat len - 1" 4096]
      unfolding in_user_range_def by linarith
    finally have lt: "unat ptr div 4096 * 4096 + 4096 * k < 2 ^ 64" .
    then have "unat (word_of_nat (4096 * k) :: u64) = 4096 * k"
      by (simp only: unat_of_nat) simp
    then have "unat (?f + word_of_nat (4096 * k)) = unat ptr div 4096 * 4096 + 4096 * k"
      using lt by (subst unat_add_exact) (simp_all only: unat_page_down)
    then show ?thesis by simp
  qed
  have "(\<forall>k \<le> n. user_accessible cr3 (?f + word_of_nat (4096 * k)) wr s)
      \<longleftrightarrow> (\<forall>a. unat ptr \<le> unat a \<and> unat a < unat ptr + unat len \<longrightarrow> user_accessible cr3 a wr s)"
    (is "?L \<longleftrightarrow> ?R")
  proof
    assume L: ?L
    show ?R
    proof (intro allI impI)
      fix a :: u64 assume a: "unat ptr \<le> unat a \<and> unat a < unat ptr + unat len"
      let ?k = "unat a div 4096 - unat ptr div 4096"
      have b: "unat ptr div 4096 \<le> unat a div 4096" "unat a div 4096 \<le> (unat ptr + unat len - 1) div 4096"
        using a by (auto intro!: div_le_mono)
      then have k: "?k \<le> n" unfolding n_def by (intro diff_le_mono)
      have "unat (?f + word_of_nat (4096 * ?k)) div 4096 = unat a div 4096" using pg[OF k] b(1) by simp
      from user_accessible_cong[OF this] L k show "user_accessible cr3 a wr s" by blast
    qed
  next
    assume R: ?R
    show ?L
    proof (intro allI impI)
      fix k assume k: "k \<le> n"
      define x where "x = max (unat ptr) ((unat ptr div 4096 + k) * 4096)"
      have x: "unat ptr \<le> x" "x < unat ptr + unat len" "x div 4096 = unat ptr div 4096 + k"
        using k l mono unfolding x_def n_def by (auto simp: max_def not_le)
      have "x < 2 ^ 64" using x(2) r by (simp add: in_user_range_def)
      then have u: "unat (word_of_nat x :: u64) = x" by (simp add: unat_of_nat)
      then have "user_accessible cr3 (word_of_nat x) wr s" using R x by simp
      moreover have "unat (?f + word_of_nat (4096 * k)) div 4096 = unat (word_of_nat x :: u64) div 4096"
        using pg[OF k] x(3) u by simp
      ultimately show "user_accessible cr3 (?f + word_of_nat (4096 * k)) wr s"
        using user_accessible_cong by blast
    qed
  qed
  with v False r show ?thesis by simp
qed

section \<open>Copies\<close>

lemma pt_index_39: "pt_index 39 v = unat v div 2 ^ 39 mod 512"
proof -
  have "(0x1ff :: u64) = mask 9" by (simp add: mask_eq_exp_minus_1)
  then have "pt_index 39 v = unat (take_bit 9 (drop_bit 39 v))"
    unfolding pt_index_def by (simp only: take_bit_eq_mask)
  also have "\<dots> = take_bit 9 (unat (drop_bit 39 v))" by (rule unsigned_take_bit_eq)
  also have "unat (drop_bit 39 v) = unat v div 2 ^ 39" by (simp add: drop_bit_eq_div unat_div)
  finally show ?thesis by (simp add: take_bit_eq_mod)
qed

lemma user_range_virt:
  assumes "unat USER_MIN \<le> unat a" and "unat a < unat USER_MAX"
  shows "user_virt a"
proof -
  have "2 ^ 39 \<le> unat a" "unat a < 256 * 2 ^ 39" using assms by (simp_all add: USER_MIN_def USER_MAX_def)
  then have "1 \<le> unat a div 2 ^ 39" "unat a div 2 ^ 39 < 256" by (simp_all add: less_mult_imp_div_less)
  then show ?thesis unfolding user_virt_def pt_index_39 by simp
qed

lemma in_range_virt:
  "in_user_range ptr len \<Longrightarrow> unat ptr \<le> unat a \<Longrightarrow> unat a < unat ptr + unat len \<Longrightarrow> user_virt a"
  by (rule user_range_virt) (auto simp: in_user_range_def)

lemma walk_accessible_mono:
  "walk_accessible n t v (USER OR WRITABLE) s \<Longrightarrow> walk_accessible n t v USER s"
proof (induction n arbitrary: t)
  have m: "e AND (USER OR WRITABLE) = USER OR WRITABLE \<Longrightarrow> e AND USER = USER" for e :: u64
  proof -
    assume "e AND (USER OR WRITABLE) = USER OR WRITABLE"
    moreover have "(USER OR WRITABLE) AND USER = USER" by (simp add: USER_def WRITABLE_def)
    ultimately show ?thesis by (metis and.assoc)
  qed
  {
    case 0
    then show ?case by (auto simp: Let_def dest: m)
  next
    case (Suc n)
    then show ?case unfolding walk_accessible_Suc using m by blast
  }
qed

lemma user_accessible_read: "user_accessible cr3 v True s \<Longrightarrow> user_accessible cr3 v False s"
  unfolding user_accessible_def by (simp add: walk_accessible_mono)

lemma store_bytes_ok:
  assumes "\<forall>i < length bs. phys_addr cr3 (v + word_of_nat i) (vm m) \<noteq> None"
  shows "\<exists>m'. store_bytes bs cr3 v m = Some m' \<and> vm m' = vm m
    \<and> (\<forall>p. ram m' p \<noteq> ram m p \<longrightarrow> (\<exists>i < length bs. phys_addr cr3 (v + word_of_nat i) (vm m) = Some p))"
  using assms
proof (induction bs arbitrary: v m)
  case (Cons b bs)
  obtain p where p: "phys_addr cr3 v (vm m) = Some p" using Cons.prems by force
  let ?m = "m\<lparr>ram := (ram m)(p := b)\<rparr>"
  have sh: "v + 1 + word_of_nat i = v + word_of_nat (Suc i)" for i by simp
  have "\<forall>i < length bs. phys_addr cr3 (v + 1 + word_of_nat i) (vm ?m) \<noteq> None"
    unfolding sh using Cons.prems by (auto simp del: of_nat_Suc)
  from Cons.IH[OF this] obtain m' where m': "store_bytes bs cr3 (v + 1) ?m = Some m'" "vm m' = vm m"
    "\<And>q. ram m' q \<noteq> ram ?m q \<Longrightarrow> \<exists>i < length bs. phys_addr cr3 (v + 1 + word_of_nat i) (vm m) = Some q"
    by auto
  have "\<exists>i < length (b # bs). phys_addr cr3 (v + word_of_nat i) (vm m) = Some q" if "ram m' q \<noteq> ram m q" for q
  proof (cases "q = p")
    case True
    with p show ?thesis by (intro exI[of _ 0]) simp
  next
    case False
    with that have "ram m' q \<noteq> ram ?m q" by simp
    then obtain i where "i < length bs" "phys_addr cr3 (v + word_of_nat (Suc i)) (vm m) = Some q"
      using m'(3) unfolding sh by blast
    then show ?thesis by (intro exI[of _ "Suc i"]) simp
  qed
  with m'(1,2) p show ?case by auto
qed simp

lemma load_bytes_ok:
  "\<forall>i < n. phys_addr cr3 (v + word_of_nat i) (vm m) \<noteq> None
    \<Longrightarrow> load_bytes n cr3 v m = Some (map (\<lambda>i. ram m (the (phys_addr cr3 (v + word_of_nat i) (vm m)))) [0 ..< n])"
proof (induction n arbitrary: v)
  case (Suc n)
  obtain p where p: "phys_addr cr3 v (vm m) = Some p" using Suc.prems by force
  have sh: "v + 1 + word_of_nat i = v + word_of_nat (Suc i)" for i by simp
  have "\<forall>i < n. phys_addr cr3 (v + 1 + word_of_nat i) (vm m) \<noteq> None"
    unfolding sh using Suc.prems by (auto simp del: of_nat_Suc)
  from Suc.IH[OF this] p show ?case
    unfolding sh upt_conv_Cons[OF zero_less_Suc] map_Suc_upt[symmetric] by (simp add: comp_def del: upt_Suc of_nat_Suc)
qed simp

lemma store_bytes_vm: "store_bytes bs cr3 v m = Some m' \<Longrightarrow> vm m' = vm m"
  by (induction bs arbitrary: v m) (auto split: option.splits)

lemma store_bytes_other:
  "store_bytes bs cr3 v m = Some m' \<Longrightarrow> \<forall>i < length bs. phys_addr cr3 (v + word_of_nat i) (vm m) \<noteq> Some p
    \<Longrightarrow> ram m' p = ram m p"
proof (induction bs arbitrary: v m)
  case (Cons b bs)
  obtain q where q: "phys_addr cr3 v (vm m) = Some q" using Cons.prems(1) by (auto split: option.splits)
  let ?m = "m\<lparr>ram := (ram m)(q := b)\<rparr>"
  have sh: "v + 1 + word_of_nat i = v + word_of_nat (Suc i)" for i by simp
  have st: "store_bytes bs cr3 (v + 1) ?m = Some m'" using Cons.prems(1) q by simp
  have "\<forall>i < length bs. phys_addr cr3 (v + 1 + word_of_nat i) (vm ?m) \<noteq> Some p"
    unfolding sh using Cons.prems(2) by (auto simp del: of_nat_Suc)
  from Cons.IH[OF st this] have "ram m' p = ram ?m p" .
  moreover have "q \<noteq> p" using Cons.prems(2) q by force
  ultimately show ?case by simp
qed simp

lemma store_load:
  assumes "store_bytes bs cr3 v m = Some m'"
    and "inj_on (\<lambda>i. phys_addr cr3 (v + word_of_nat i) (vm m)) {..< length bs}"
  shows "load_bytes (length bs) cr3 v m' = Some bs"
  using assms
proof (induction bs arbitrary: v m)
  case (Cons b bs)
  obtain p where p: "phys_addr cr3 v (vm m) = Some p" using Cons.prems(1) by (auto split: option.splits)
  let ?m = "m\<lparr>ram := (ram m)(p := b)\<rparr>"
  have st: "store_bytes bs cr3 (v + 1) ?m = Some m'" using Cons.prems(1) p by simp
  have sh: "v + 1 + word_of_nat i = v + word_of_nat (Suc i)" for i by simp
  have inj: "inj_on (\<lambda>i. phys_addr cr3 (v + 1 + word_of_nat i) (vm ?m)) {..< length bs}"
  proof (rule inj_onI)
    fix i j assume "i \<in> {..< length bs}" "j \<in> {..< length bs}"
      "phys_addr cr3 (v + 1 + word_of_nat i) (vm ?m) = phys_addr cr3 (v + 1 + word_of_nat j) (vm ?m)"
    then show "i = j" using inj_onD[OF Cons.prems(2), of "Suc i" "Suc j"] unfolding sh by (simp del: of_nat_Suc)
  qed
  have "phys_addr cr3 (v + 1 + word_of_nat i) (vm ?m) \<noteq> Some p" if "i < length bs" for i
    using inj_onD[OF Cons.prems(2), of "Suc i" 0] that p unfolding sh by (auto simp del: of_nat_Suc)
  then have "ram m' p = b" using store_bytes_other[OF st, of p] by simp
  with Cons.IH[OF st inj] p store_bytes_vm[OF st] show ?case by simp
qed simp

lemma range_element:
  assumes "in_user_range ptr len" and "i < unat len"
  shows "unat (ptr + word_of_nat i) = unat ptr + i"
proof -
  have i: "i < 2 ^ 64" and pi: "unat ptr + i < 2 ^ 64"
    using assms by (simp_all add: in_user_range_def)
  have "unat (word_of_nat i :: u64) = i" using i by (simp add: unat_of_nat)
  then show ?thesis using pi by (subst unat_add_exact) simp_all
qed

lemma validated_translates:
  assumes wf: "pt_wf R tabs s" and root: "tabs (cr3 AND ADDR_MASK) = Some 4"
    and v: "validate_range_in cr3 ptr len wr s = Some True" and i: "i < unat len"
  shows "user_virt (ptr + word_of_nat i)" and "user_accessible cr3 (ptr + word_of_nat i) wr s"
    and "phys_addr cr3 (ptr + word_of_nat i) s \<noteq> None" and "unat (ptr + word_of_nat i) = unat ptr + i"
proof -
  have r: "in_user_range ptr len"
    and a: "\<And>a. unat ptr \<le> unat a \<and> unat a < unat ptr + unat len \<Longrightarrow> user_accessible cr3 a wr s"
    using v i unfolding validate_range_spec by auto
  show u: "unat (ptr + word_of_nat i) = unat ptr + i" by (rule range_element[OF r i])
  show uv: "user_virt (ptr + word_of_nat i)" by (rule in_range_virt[OF r]) (use u i in simp_all)
  show ua: "user_accessible cr3 (ptr + word_of_nat i) wr s" by (rule a) (use u i in simp)
  have "tabs (cr3 AND ADDR_MASK) = Some (Suc 3)" using root by simp
  from walk_accessible_leaf[OF wf this user_idx_ok[OF uv]] ua
  show "phys_addr cr3 (ptr + word_of_nat i) s \<noteq> None"
    unfolding user_accessible_def phys_addr_def translate_leaf leaf_value_def by fastforce
qed

lemma active_masked: "active_cr3 s AND ADDR_MASK = active_cr3 s"
  by (simp add: active_cr3_def and.assoc)

lemma copy_read_ok:
  assumes "pt_wf R tabs (vm m)" and "tabs (active_cr3 (vm m)) = Some 4"
  shows "read_bytes ptr len m \<noteq> None"
proof -
  have root: "tabs (active_cr3 (vm m) AND ADDR_MASK) = Some 4" using assms(2) by (simp add: active_masked)
  obtain b where b: "validate_range ptr len False (vm m) = Some b"
    unfolding validate_range_def validate_range_spec by blast
  show ?thesis
  proof (cases b)
    case True
    with b have bT: "validate_range_in (active_cr3 (vm m)) ptr len False (vm m) = Some True"
      by (simp add: validate_range_def)
    have "\<forall>i < unat len. phys_addr (active_cr3 (vm m)) (ptr + word_of_nat i) (vm m) \<noteq> None"
      using validated_translates(3)[OF assms(1) root bT] by blast
    from load_bytes_ok[OF this] b True show ?thesis by (simp add: read_bytes_def)
  qed (simp add: read_bytes_def b)
qed

lemma copy_write_ok:
  assumes "pt_wf R tabs (vm m)" and "tabs (active_cr3 (vm m)) = Some 4" and "length src < 2 ^ 64"
  shows "\<exists>ok m'. write_bytes ptr src m = Some (ok, m') \<and> vm m' = vm m \<and> (\<not> ok \<longrightarrow> m' = m)
        \<and> (\<forall>p. ram m' p \<noteq> ram m p \<longrightarrow>
             (\<exists>a. unat ptr \<le> unat a \<and> unat a < unat ptr + length src \<and> user_virt a
                \<and> user_accessible (active_cr3 (vm m)) a True (vm m)
                \<and> phys_addr (active_cr3 (vm m)) a (vm m) = Some p))"
proof -
  let ?c = "active_cr3 (vm m)" and ?len = "word_of_nat (length src) :: u64"
  have root: "tabs (?c AND ADDR_MASK) = Some 4" using assms(2) by (simp add: active_masked)
  have len: "unat ?len = length src" using assms(3) by (simp add: unat_of_nat)
  obtain b where b: "validate_range_in ?c ptr ?len True (vm m) = Some b"
    unfolding validate_range_spec by blast
  show ?thesis
  proof (cases b)
    case True
    with b have bT: "validate_range_in ?c ptr ?len True (vm m) = Some True" by simp
    note v = validated_translates[OF assms(1) root bT, unfolded len]
    have "\<forall>i < length src. phys_addr ?c (ptr + word_of_nat i) (vm m) \<noteq> None" using v(3) by blast
    from store_bytes_ok[OF this] obtain m' where m': "store_bytes src ?c ptr m = Some m'" "vm m' = vm m"
      "\<And>p. ram m' p \<noteq> ram m p \<Longrightarrow> \<exists>i < length src. phys_addr ?c (ptr + word_of_nat i) (vm m) = Some p"
      by blast
    have "write_bytes ptr src m = Some (True, m')"
      using b True m'(1) by (simp add: write_bytes_def write_bytes_in_def)
    moreover have "\<exists>a. unat ptr \<le> unat a \<and> unat a < unat ptr + length src \<and> user_virt a
        \<and> user_accessible ?c a True (vm m) \<and> phys_addr ?c a (vm m) = Some p" if d: "ram m' p \<noteq> ram m p" for p
    proof -
      obtain i where i: "i < length src" "phys_addr ?c (ptr + word_of_nat i) (vm m) = Some p"
        using m'(3)[OF d] by blast
      show ?thesis using v(1,2,4)[OF i(1)] i by (intro exI[of _ "ptr + word_of_nat i"]) simp
    qed
    ultimately show ?thesis using m'(2) by blast
  qed (use b in \<open>auto simp: write_bytes_def write_bytes_in_def intro: exI[of _ False]\<close>)
qed

section \<open>Properties\<close>

text \<open>
  C7: the range check returns on every input, and it accepts exactly the ranges that are empty, or
  at most \<open>MAX_TRANSFER\<close> long, free of wrap-around, inside the user half, and accessible from user
  mode at every address. In particular no accepted range reaches the kernel's identity map.
\<close>

theorem validate_range_correct:
  "validate_range_in cr3 ptr len wr s = Some (len = 0 \<or>
     in_user_range ptr len
     \<and> (\<forall>a. unat ptr \<le> unat a \<and> unat a < unat ptr + unat len \<longrightarrow> user_accessible cr3 a wr s))"
  by (rule validate_range_spec)

lemma demo_accessible:
  "user_accessible 0x1000 0x8000000010 True demo_mapped"
  by code_simp

theorem validate_range_correct_witness:
  "validate_range_in 0x1000 0x8000000010 8 True demo_mapped = Some True
   \<and> validate_range_in 0x1000 0xFFFFFFFFFFFFFFFF 8 True demo_vmm = Some False"
proof
  let ?s = demo_mapped
  have "user_accessible 0x1000 a True ?s"
    if "unat (0x8000000010 :: u64) \<le> unat a \<and> unat a < unat (0x8000000010 :: u64) + unat (8 :: u64)" for a
    by (rule user_accessible_cong[THEN iffD2, OF _ demo_accessible])
      (simp, rule div_nat_eqI, use that in simp_all)
  then show "validate_range_in 0x1000 0x8000000010 8 True ?s = Some True"
    using validate_range_correct[of "0x1000" "0x8000000010" 8 True ?s]
    by (simp add: in_user_range_def MAX_TRANSFER_def USER_MIN_def USER_MAX_def)
  show "validate_range_in 0x1000 0xFFFFFFFFFFFFFFFF 8 True demo_vmm = Some False"
    using validate_range_correct[of "0x1000" "0xFFFFFFFFFFFFFFFF" 8 True demo_vmm]
    by (simp add: in_user_range_def)
qed

text \<open>
  C8: a checked copy never faults and never writes where it should not. \<open>read_bytes\<close> and
  \<open>write_bytes\<close> return for every pointer and length a program passes; a write that is rejected changes
  nothing, and one that succeeds changes only physical bytes behind user-writable pages of the
  user half that lie in the given range.
\<close>

theorem user_copy_safe:
  assumes "pt_wf R tabs (vm m)" and "tabs (active_cr3 (vm m)) = Some 4" and "length src < 2 ^ 64"
  shows "read_bytes ptr len m \<noteq> None
    \<and> (\<exists>ok m'. write_bytes ptr src m = Some (ok, m') \<and> vm m' = vm m \<and> (\<not> ok \<longrightarrow> m' = m)
        \<and> (\<forall>p. ram m' p \<noteq> ram m p \<longrightarrow>
             (\<exists>a. unat ptr \<le> unat a \<and> unat a < unat ptr + length src \<and> user_virt a
                \<and> user_accessible (active_cr3 (vm m)) a True (vm m)
                \<and> phys_addr (active_cr3 (vm m)) a (vm m) = Some p)))"
  using copy_read_ok[OF assms(1,2)] copy_write_ok[OF assms] by blast

theorem user_copy_safe_witness:
  "read_bytes 0x10 5 \<lparr>vm = demo_vmm, ram = (\<lambda>_. 0)\<rparr> \<noteq> None
   \<and> (\<exists>m'. write_bytes 0x10 [1, 2] \<lparr>vm = demo_vmm, ram = (\<lambda>_. 0)\<rparr> = Some (False, m'))"
proof -
  let ?m = "\<lparr>vm = demo_vmm, ram = (\<lambda>_. 0)\<rparr>"
  have wf: "pt_wf {0x100000 ..< 0x200000} [0x1000 \<mapsto> 4] (vm ?m)" using demo_wf(1) by simp
  have root: "[0x1000 \<mapsto> 4] (active_cr3 (vm ?m)) = Some (4 :: nat)"
    by (simp add: active_cr3_def demo_vmm_def ADDR_MASK_def)
  have len: "length [1 :: u8, 2] < 2 ^ 64" by simp
  obtain ok m' where w: "write_bytes 0x10 [1, 2] ?m = Some (ok, m')"
    and r: "read_bytes 0x10 5 ?m \<noteq> None"
    using user_copy_safe[OF wf root len, of "0x10" 5] by blast
  have "validate_range_in (active_cr3 demo_vmm) 0x10 2 True demo_vmm = Some False"
    unfolding validate_range_spec by (simp add: in_user_range_def USER_MIN_def)
  with w have "\<not> ok" by (simp add: write_bytes_def write_bytes_in_def)
  with w r show ?thesis by auto
qed

text \<open>
  C37: what was written to user memory is read back. If \<open>write_bytes\<close> accepts a range whose addresses
  are backed by distinct physical bytes, \<open>read_bytes\<close> of the same range then returns the same bytes.
\<close>

theorem user_write_read:
  assumes "pt_wf R tabs (vm m)" and "tabs (active_cr3 (vm m)) = Some 4" and "length src < 2 ^ 64"
    and "write_bytes ptr src m = Some (True, m')"
    and "inj_on (\<lambda>i. phys_addr (active_cr3 (vm m)) (ptr + word_of_nat i) (vm m)) {..< length src}"
  shows "read_bytes ptr (word_of_nat (length src)) m' = Some (Some src)"
proof -
  let ?c = "active_cr3 (vm m)" and ?len = "word_of_nat (length src) :: u64"
  have len: "unat ?len = length src" using assms(3) by (simp add: unat_of_nat)
  have v: "validate_range_in ?c ptr ?len True (vm m) = Some True" and st: "store_bytes src ?c ptr m = Some m'"
    using assms(4) by (auto simp: write_bytes_def write_bytes_in_def split: option.splits bool.splits)
  have vm': "vm m' = vm m" by (rule store_bytes_vm[OF st])
  have "validate_range_in ?c ptr ?len False (vm m) = Some True"
    using v user_accessible_read unfolding validate_range_spec by blast
  then show ?thesis
    using store_load[OF st assms(5)] by (simp add: read_bytes_def validate_range_def vm' len)
qed

lemma demo_mapped_active: "active_cr3 demo_mapped = 0x1000" by code_simp

lemma demo_mapped_phys:
  "phys_addr 0x1000 0x8000000010 demo_mapped = Some 0x5010"
  "phys_addr 0x1000 0x8000000011 demo_mapped = Some 0x5011"
  by code_simp+

lemma demo_mapped_validated: "validate_range_in 0x1000 0x8000000010 2 True demo_mapped = Some True"
proof -
  have acc: "user_accessible 0x1000 a True demo_mapped"
    if "unat (0x8000000010 :: u64) \<le> unat a \<and> unat a < unat (0x8000000010 :: u64) + unat (2 :: u64)" for a
    by (rule user_accessible_cong[THEN iffD2, OF _ demo_accessible])
      (simp, rule div_nat_eqI, use that in simp_all)
  then show ?thesis
    unfolding validate_range_spec by (simp add: in_user_range_def MAX_TRANSFER_def USER_MIN_def USER_MAX_def)
qed

theorem user_write_read_witness:
  "\<exists>m'. write_bytes 0x8000000010 [7, 9] \<lparr>vm = demo_mapped, ram = (\<lambda>_. 0)\<rparr> = Some (True, m')
     \<and> read_bytes 0x8000000010 2 m' = Some (Some [7, 9])"
proof -
  let ?m = "\<lparr>vm = demo_mapped, ram = (\<lambda>_. 0)\<rparr>"
  let ?t = "[0x1000 \<mapsto> 4, 0x2000 \<mapsto> 3, 0x3000 \<mapsto> 2, 0x4000 \<mapsto> 1] :: u64 \<Rightarrow> nat option"
  have wf: "pt_wf {0x100000 ..< 0x200000} ?t (vm ?m)" using demo_mapped_wf by simp
  have root: "?t (active_cr3 (vm ?m)) = Some 4" by (simp add: demo_mapped_active)
  note v = demo_mapped_validated
  obtain m' where w: "write_bytes 0x8000000010 [7, 9] ?m = Some (True, m')"
    using v by (simp add: write_bytes_def write_bytes_in_def demo_mapped_active demo_mapped_phys)
  have "inj_on (\<lambda>i. phys_addr (active_cr3 (vm ?m)) (0x8000000010 + word_of_nat i) (vm ?m)) {..< length [7 :: u8, 9]}"
    by (auto simp: inj_on_def demo_mapped_active demo_mapped_phys numeral_2_eq_2 less_Suc_eq)
  from user_write_read[OF wf root _ w this] w show ?thesis by auto
qed

end
