(* ===== verification/Task_Types.thy ===== *)
theory Task_Types
  imports Uaccess
begin

text \<open>
  The data of the task subsystem: the types of \<open>task/thread.rs\<close> and \<open>task/process.rs\<close>, and the
  statics of both files and of \<open>task/scheduler.rs\<close> collected in the record \<open>task_state\<close>.

  \<open>THREADS\<close> and \<open>PROCESSES\<close> are vectors searched linearly, as in the source; the arrays indexed by
  the CPU are functions from the CPU's index. Every access goes through \<open>with_threads_lock\<close>, the
  reentrant lock of theory \<open>Locks\<close>, so each operation is one atomic function on the state. The
  operations are typed over \<open>'a task_state_scheme\<close>: later theories extend the record with the
  tables of other subsystems and reuse them unchanged.
\<close>

section \<open>Enumerations\<close>

datatype thread_state = T_Empty | T_Ready | T_Running | T_Sleeping | T_Exited

datatype process_state = P_Empty | P_Ready | P_Running | P_Sleeping | P_Exited

datatype privilege_level = System | Driver | User

datatype wait_target =
    Wait_None
  | Wait_Keyboard
  | Wait_Pid u64
  | Wait_Tid u64
  | Wait_Timer u64
  | Wait_Tick
  | Wait_Ipc u64
  | Wait_Irq u8
  | Wait_Audio
  | Wait_PipeRead u64 u64 u64

text \<open>The discriminants of the \<open>repr(u64)\<close> enumerations, as \<open>state as u64\<close> reads them.\<close>

primrec thread_state_code :: "thread_state \<Rightarrow> u64" where
  "thread_state_code T_Empty = 0"
| "thread_state_code T_Ready = 1"
| "thread_state_code T_Running = 2"
| "thread_state_code T_Sleeping = 3"
| "thread_state_code T_Exited = 4"

primrec process_state_code :: "process_state \<Rightarrow> u64" where
  "process_state_code P_Empty = 0"
| "process_state_code P_Ready = 1"
| "process_state_code P_Running = 2"
| "process_state_code P_Sleeping = 3"
| "process_state_code P_Exited = 4"

primrec thread_state_name :: "thread_state \<Rightarrow> string" where
  "thread_state_name T_Empty = ''empty''"
| "thread_state_name T_Ready = ''ready''"
| "thread_state_name T_Running = ''running''"
| "thread_state_name T_Sleeping = ''sleeping''"
| "thread_state_name T_Exited = ''exited''"

primrec process_state_name :: "process_state \<Rightarrow> string" where
  "process_state_name P_Empty = ''empty''"
| "process_state_name P_Ready = ''ready''"
| "process_state_name P_Running = ''running''"
| "process_state_name P_Sleeping = ''sleeping''"
| "process_state_name P_Exited = ''exited''"

text \<open>\<open>PrivilegeLevel\<close> derives \<open>Ord\<close>: the order of the discriminants.\<close>

primrec privilege_code :: "privilege_level \<Rightarrow> nat" where
  "privilege_code System = 0"
| "privilege_code Driver = 1"
| "privilege_code User = 2"

instantiation privilege_level :: linorder
begin

definition less_eq_privilege_level :: "privilege_level \<Rightarrow> privilege_level \<Rightarrow> bool" where
  "less_eq_privilege_level a b \<longleftrightarrow> privilege_code a \<le> privilege_code b"

definition less_privilege_level :: "privilege_level \<Rightarrow> privilege_level \<Rightarrow> bool" where
  "less_privilege_level a b \<longleftrightarrow> privilege_code a < privilege_code b"

instance
proof
  fix a b c :: privilege_level
  show "(a < b) = (a \<le> b \<and> \<not> b \<le> a)"
    by (auto simp: less_eq_privilege_level_def less_privilege_level_def)
  show "a \<le> a" by (simp add: less_eq_privilege_level_def)
  show "a \<le> b \<Longrightarrow> b \<le> c \<Longrightarrow> a \<le> c" by (simp add: less_eq_privilege_level_def)
  show "a \<le> b \<Longrightarrow> b \<le> a \<Longrightarrow> a = b" by (cases a; cases b) (simp_all add: less_eq_privilege_level_def)
  show "a \<le> b \<or> b \<le> a" by (auto simp: less_eq_privilege_level_def)
qed

end

lemma privilege_le_Driver [simp]: "p \<le> Driver \<longleftrightarrow> p \<noteq> User"
  by (cases p) (simp_all add: less_eq_privilege_level_def)

section \<open>Threads and processes\<close>

record user_context =
  u_rax :: u64
  u_rbx :: u64
  u_rcx :: u64
  u_rdx :: u64
  u_rsi :: u64
  u_rdi :: u64
  u_rbp :: u64
  u_r8 :: u64
  u_r9 :: u64
  u_r10 :: u64
  u_r11 :: u64
  u_r12 :: u64
  u_r13 :: u64
  u_r14 :: u64
  u_r15 :: u64
  u_rip :: u64
  u_rsp :: u64
  u_rflags :: u64
  u_cr3 :: u64
  u_kernel_rsp :: u64
  u_user_stack_top :: u64

definition EMPTY_USER_CONTEXT :: user_context where
  "EMPTY_USER_CONTEXT =
     \<lparr>u_rax = 0, u_rbx = 0, u_rcx = 0, u_rdx = 0, u_rsi = 0, u_rdi = 0, u_rbp = 0,
      u_r8 = 0, u_r9 = 0, u_r10 = 0, u_r11 = 0, u_r12 = 0, u_r13 = 0, u_r14 = 0, u_r15 = 0,
      u_rip = 0, u_rsp = 0, u_rflags = 0x202, u_cr3 = 0, u_kernel_rsp = 0, u_user_stack_top = 0\<rparr>"

record thread =
  t_tid :: u64
  t_pid :: u64
  t_state :: thread_state
  t_cpu_ticks :: u64
  t_user_context :: user_context
  t_kernel_rsp :: u64
  t_kernel_stack_base :: u64
  t_kernel_preempted :: bool
  t_blocking_rsp :: u64
  t_blocking_retval :: u64
  t_wait_target :: wait_target
  t_privilege :: privilege_level
  t_assigned_cpu :: nat

record process =
  p_pid :: u64
  p_state :: process_state
  p_image_name :: "u8 list"
  p_start_tsc :: u64
  p_entry :: u64
  p_stack_top :: u64
  p_step :: u64
  p_memory_bytes :: u64
  p_background :: bool
  p_sigint_catch :: bool
  p_sigint_pending :: bool
  p_sigterm_catch :: bool
  p_sigterm_pending :: bool
  p_kill_pending :: bool
  p_parent :: u64
  p_term_cols :: u16
  p_term_rows :: u16
  p_privilege :: privilege_level
  p_main_tid :: "u64 option"
  p_threads :: "u64 list"

record thread_info =
  ti_tid :: u64
  ti_pid :: u64
  ti_state :: u64
  ti_cpu_ticks :: u64
  ti_assigned_cpu :: u64

record process_info =
  pi_pid :: u64
  pi_state :: process_state
  pi_image_name :: "u8 list"
  pi_start_tsc :: u64
  pi_entry :: u64
  pi_stack_top :: u64
  pi_step :: u64
  pi_cpu_ticks :: u64
  pi_memory_bytes :: u64
  pi_parent :: u64

section \<open>The state of the task subsystem\<close>

text \<open>
  \<open>mach\<close> is the machine of theory \<open>Uaccess\<close> (page tables, kernel heap, memory, the running CPU);
  \<open>cpu_count\<close> is the number of CPUs that \<open>smp.rs\<close> brought online; \<open>tsc\<close> is what \<open>rdtsc\<close> reads.
  \<open>tss_rsp0\<close> is the ring-0 stack of each CPU's task state segment (\<open>gdt.rs\<close>). The last two fields are
  addresses the linker chooses: of the array of return stacks and of the function \<open>idle_loop\<close>.
\<close>

record task_state =
  mach :: machine
  cpu_count :: nat
  tsc :: u64
  THREADS :: "thread list"
  NEXT_TID :: u64
  threads_INITIALIZED :: bool
  NEXT_ASSIGN_CPU :: u64
  PENDING_STACK_FREE :: "nat \<Rightarrow> u64"
  PROCESSES :: "process list"
  NEXT_PID :: u64
  processes_INITIALIZED :: bool
  CURRENT_USER_PID :: "nat \<Rightarrow> u64 option"
  CURRENT_USER_TID :: "nat \<Rightarrow> u64 option"
  NEXT_USER_PID :: "nat \<Rightarrow> u64 option"
  IS_IDLE :: "nat \<Rightarrow> bool"
  tss_rsp0 :: "nat \<Rightarrow> u64"
  EXITING_PID_TMPS :: "nat \<Rightarrow> u64"
  KERNEL_RETURN_STACKS :: "nat \<Rightarrow> u64"
  BLOCKING_RSP_TMPS :: "nat \<Rightarrow> u64"
  USER_RETURN_STACKS :: u64
  idle_loop_addr :: u64

text \<open>\<open>current_cpu_index()\<close>, and the words of kernel memory.\<close>

abbreviation cpu_idx :: "'a task_state_scheme \<Rightarrow> nat" where
  "cpu_idx s \<equiv> this_cpu (vm (mach s))"

abbreviation kmem :: "'a task_state_scheme \<Rightarrow> u64 \<Rightarrow> u64" where
  "kmem s \<equiv> vmem (vm (mach s))"

abbreviation kheap_of :: "'a task_state_scheme \<Rightarrow> kheap" where
  "kheap_of s \<equiv> kh (vm (mach s))"

definition set_vm :: "vmm_state \<Rightarrow> 'a task_state_scheme \<Rightarrow> 'a task_state_scheme" where
  "set_vm v s = s\<lparr>mach := (mach s)\<lparr>vm := v\<rparr>\<rparr>"

text \<open>The statics before any initialisation runs, on a given machine.\<close>

definition task_boot :: "machine \<Rightarrow> nat \<Rightarrow> u64 \<Rightarrow> u64 \<Rightarrow> task_state" where
  "task_boot m n stacks idle =
     \<lparr>mach = m, cpu_count = n, tsc = 0, THREADS = [], NEXT_TID = 1, threads_INITIALIZED = False,
      NEXT_ASSIGN_CPU = 0, PENDING_STACK_FREE = (\<lambda>_. 0), PROCESSES = [], NEXT_PID = 1,
      processes_INITIALIZED = False, CURRENT_USER_PID = (\<lambda>_. None), CURRENT_USER_TID = (\<lambda>_. None),
      NEXT_USER_PID = (\<lambda>_. None), IS_IDLE = (\<lambda>_. False), tss_rsp0 = (\<lambda>_. 0),
      EXITING_PID_TMPS = (\<lambda>_. 0), KERNEL_RETURN_STACKS = (\<lambda>_. 0), BLOCKING_RSP_TMPS = (\<lambda>_. 0),
      USER_RETURN_STACKS = stacks, idle_loop_addr = idle\<rparr>"

end
