(* ===== verification/Thread_Table.thy ===== *)
theory Thread_Table
  imports Task_Types
begin

text \<open>
  The thread table of \<open>task/thread.rs\<close>: creation with a kernel stack from the heap, the state
  changes, blocking and wake-up, enumeration and removal. \<open>notify_pipe_readers\<close> also uses the pipes
  and is in theory \<open>Descriptors\<close>. The functions carry the prefix \<open>thread_\<close> where \<open>process.rs\<close> has
  one of the same name.
\<close>

section \<open>Looking up and changing a thread\<close>

text \<open>\<open>threads.iter().find(|t| t.tid == tid)\<close> and \<open>if let Some(t) = threads.iter_mut().find(..)\<close>.\<close>

definition find_thread :: "u64 \<Rightarrow> 'a task_state_scheme \<Rightarrow> thread option" where
  "find_thread tid s = List.find (\<lambda>t. t_tid t = tid) (THREADS s)"

definition upd_thread :: "u64 \<Rightarrow> (thread \<Rightarrow> thread) \<Rightarrow> 'a task_state_scheme \<Rightarrow> 'a task_state_scheme" where
  "upd_thread tid f s = s\<lparr>THREADS := update_first (\<lambda>t. t_tid t = tid) f (THREADS s)\<rparr>"

section \<open>Creation\<close>

definition KERNEL_STACK_SIZE :: nat where
  "KERNEL_STACK_SIZE = 65536"

definition thread_init :: "'a task_state_scheme \<Rightarrow> 'a task_state_scheme" where
  "thread_init s =
     (if threads_INITIALIZED s then s
      else s\<lparr>THREADS := [], NEXT_TID := 1, threads_INITIALIZED := True\<rparr>)"

definition alloc_kernel_stack :: "'a task_state_scheme \<Rightarrow> u64 option \<times> 'a task_state_scheme" where
  "alloc_kernel_stack s =
     (case alloc (cpu_idx s) KERNEL_STACK_SIZE 4096 (kheap_of s) of
        (None, h) \<Rightarrow> (None, set_vm ((vm (mach s))\<lparr>kh := h\<rparr>) s)
      | (Some p, h) \<Rightarrow>
          (Some (word_of_nat p),
           set_vm ((vm (mach s))\<lparr>kh := h,
             vmem := (\<lambda>a. if p \<le> unat a \<and> unat a < p + KERNEL_STACK_SIZE then 0 else kmem s a)\<rparr>) s))"

text \<open>\<open>p.add(0).write(..)\<close>, \<open>p.add(1).write(..)\<close> and so on: consecutive words from \<open>base\<close>.\<close>

primrec write_words :: "u64 \<Rightarrow> u64 list \<Rightarrow> (u64 \<Rightarrow> u64) \<Rightarrow> u64 \<Rightarrow> u64" where
  "write_words base [] m = m"
| "write_words base (v # vs) m = write_words (base + 8) vs (m(base := v))"

definition poke_words :: "u64 \<Rightarrow> u64 list \<Rightarrow> 'a task_state_scheme \<Rightarrow> 'a task_state_scheme" where
  "poke_words base vs s = set_vm ((vm (mach s))\<lparr>vmem := write_words base vs (kmem s)\<rparr>) s"

definition setup_kernel_task_stack ::
    "u64 \<Rightarrow> u64 \<Rightarrow> u64 \<Rightarrow> 'a task_state_scheme \<Rightarrow> u64 \<times> 'a task_state_scheme" where
  "setup_kernel_task_stack stack_base entry arg s =
     (let stack_top = stack_base + word_of_nat KERNEL_STACK_SIZE;
          kernel_rsp = stack_top - 160
      in (kernel_rsp,
          poke_words kernel_rsp
            [0, 0, 0, 0, 0, 0, 0, 0, 0, 0, arg, 0, 0, 0, 0, entry, 0x8, 0x202, stack_top, 0x10] s))"

definition new_thread :: "u64 \<Rightarrow> u64 \<Rightarrow> u64 \<Rightarrow> u64 \<Rightarrow> privilege_level \<Rightarrow> nat \<Rightarrow> thread" where
  "new_thread tid pid kernel_rsp stack_base privilege assigned_cpu =
     \<lparr>t_tid = tid, t_pid = pid, t_state = T_Sleeping, t_cpu_ticks = 0,
      t_user_context = EMPTY_USER_CONTEXT, t_kernel_rsp = kernel_rsp,
      t_kernel_stack_base = stack_base, t_kernel_preempted = False,
      t_blocking_rsp = 0, t_blocking_retval = 0, t_wait_target = Wait_None,
      t_privilege = privilege, t_assigned_cpu = assigned_cpu\<rparr>"

definition create_kernel_thread ::
    "u64 \<Rightarrow> u64 \<Rightarrow> u64 \<Rightarrow> privilege_level \<Rightarrow> 'a task_state_scheme \<Rightarrow> u64 \<times> 'a task_state_scheme" where
  "create_kernel_thread pid entry arg privilege s =
     (case alloc_kernel_stack (thread_init s) of
        (None, s1) \<Rightarrow> (0, s1)
      | (Some stack_base, s1) \<Rightarrow>
          (let (kernel_rsp, s2) = setup_kernel_task_stack stack_base entry arg s1;
               tid = NEXT_TID s2;
               assigned_cpu = unat (NEXT_ASSIGN_CPU s2) mod max (cpu_count s2) 1;
               t = new_thread tid pid kernel_rsp stack_base privilege assigned_cpu
           in (tid, s2\<lparr>NEXT_TID := tid + 1, NEXT_ASSIGN_CPU := NEXT_ASSIGN_CPU s2 + 1,
                       THREADS := THREADS s2 @ [t]\<rparr>)))"

definition thread_set_user_context :: "u64 \<Rightarrow> user_context \<Rightarrow> 'a task_state_scheme \<Rightarrow> 'a task_state_scheme" where
  "thread_set_user_context tid context = upd_thread tid (\<lambda>t. t\<lparr>t_user_context := context\<rparr>)"

definition create_user_thread ::
    "u64 \<Rightarrow> u64 \<Rightarrow> u64 \<Rightarrow> u64 \<Rightarrow> privilege_level \<Rightarrow> u64 \<Rightarrow> u64 \<Rightarrow> 'a task_state_scheme
      \<Rightarrow> u64 \<times> 'a task_state_scheme" where
  "create_user_thread pid entry user_stack_top cr3 privilege argc argv s =
     (let (tid, s1) = create_kernel_thread pid entry 0 privilege s
      in if tid = 0 then (0, s1)
         else (tid, thread_set_user_context tid
                 (EMPTY_USER_CONTEXT\<lparr>u_rip := entry, u_rsp := user_stack_top, u_cr3 := cr3,
                    u_user_stack_top := user_stack_top, u_rdi := argc, u_rsi := argv\<rparr>) s1))"

section \<open>Fields of a thread\<close>

definition thread_user_context :: "u64 \<Rightarrow> 'a task_state_scheme \<Rightarrow> user_context option" where
  "thread_user_context tid s = map_option t_user_context (find_thread tid s)"

definition thread_user_cr3 :: "u64 \<Rightarrow> 'a task_state_scheme \<Rightarrow> u64 option" where
  "thread_user_cr3 tid s = map_option u_cr3 (thread_user_context tid s)"

definition thread_kernel_rsp :: "u64 \<Rightarrow> 'a task_state_scheme \<Rightarrow> u64 option" where
  "thread_kernel_rsp tid s = map_option t_kernel_rsp (find_thread tid s)"

definition thread_set_kernel_rsp :: "u64 \<Rightarrow> u64 \<Rightarrow> 'a task_state_scheme \<Rightarrow> 'a task_state_scheme" where
  "thread_set_kernel_rsp tid rsp = upd_thread tid (\<lambda>t. t\<lparr>t_kernel_rsp := rsp\<rparr>)"

definition thread_kernel_stack_base :: "u64 \<Rightarrow> 'a task_state_scheme \<Rightarrow> u64 option" where
  "thread_kernel_stack_base tid s = map_option t_kernel_stack_base (find_thread tid s)"

definition thread_kernel_stack_top :: "u64 \<Rightarrow> 'a task_state_scheme \<Rightarrow> u64 option" where
  "thread_kernel_stack_top tid s =
     map_option (\<lambda>base. base + word_of_nat KERNEL_STACK_SIZE) (thread_kernel_stack_base tid s)"

definition thread_set_running :: "u64 \<Rightarrow> 'a task_state_scheme \<Rightarrow> 'a task_state_scheme" where
  "thread_set_running tid =
     upd_thread tid (\<lambda>t. if t_state t \<notin> {T_Empty, T_Exited} then t\<lparr>t_state := T_Running\<rparr> else t)"

definition thread_set_ready :: "u64 \<Rightarrow> 'a task_state_scheme \<Rightarrow> 'a task_state_scheme" where
  "thread_set_ready tid =
     upd_thread tid (\<lambda>t. if t_state t \<in> {T_Ready, T_Running, T_Sleeping} then t\<lparr>t_state := T_Ready\<rparr> else t)"

definition thread_set_sleeping :: "u64 \<Rightarrow> 'a task_state_scheme \<Rightarrow> 'a task_state_scheme" where
  "thread_set_sleeping tid =
     upd_thread tid (\<lambda>t. if t_state t \<notin> {T_Empty, T_Exited} then t\<lparr>t_state := T_Sleeping\<rparr> else t)"

definition thread_set_state :: "u64 \<Rightarrow> thread_state \<Rightarrow> 'a task_state_scheme \<Rightarrow> 'a task_state_scheme" where
  "thread_set_state tid state =
     (case state of
        T_Ready \<Rightarrow> thread_set_ready tid
      | T_Running \<Rightarrow> thread_set_running tid
      | T_Sleeping \<Rightarrow> thread_set_sleeping tid
      | _ \<Rightarrow> upd_thread tid (\<lambda>t. t\<lparr>t_state := state\<rparr>))"

definition thread_state_of :: "u64 \<Rightarrow> 'a task_state_scheme \<Rightarrow> thread_state option" where
  "thread_state_of tid s = map_option t_state (find_thread tid s)"

definition thread_set_kernel_preempted :: "u64 \<Rightarrow> bool \<Rightarrow> 'a task_state_scheme \<Rightarrow> 'a task_state_scheme" where
  "thread_set_kernel_preempted tid val = upd_thread tid (\<lambda>t. t\<lparr>t_kernel_preempted := val\<rparr>)"

definition thread_is_kernel_preempted :: "u64 \<Rightarrow> 'a task_state_scheme \<Rightarrow> bool" where
  "thread_is_kernel_preempted tid s = (case find_thread tid s of Some t \<Rightarrow> t_kernel_preempted t | None \<Rightarrow> False)"

definition thread_set_blocking_rsp :: "u64 \<Rightarrow> u64 \<Rightarrow> 'a task_state_scheme \<Rightarrow> 'a task_state_scheme" where
  "thread_set_blocking_rsp tid rsp = upd_thread tid (\<lambda>t. t\<lparr>t_blocking_rsp := rsp\<rparr>)"

definition thread_take_blocking_rsp ::
    "u64 \<Rightarrow> 'a task_state_scheme \<Rightarrow> u64 option \<times> 'a task_state_scheme" where
  "thread_take_blocking_rsp tid s =
     (case find_thread tid s of
        Some t \<Rightarrow> if t_blocking_rsp t \<noteq> 0
                  then (Some (t_blocking_rsp t), upd_thread tid (\<lambda>t. t\<lparr>t_blocking_rsp := 0\<rparr>) s)
                  else (None, s)
      | None \<Rightarrow> (None, s))"

definition thread_take_blocking_retval ::
    "u64 \<Rightarrow> 'a task_state_scheme \<Rightarrow> u64 \<times> 'a task_state_scheme" where
  "thread_take_blocking_retval tid s =
     (case find_thread tid s of
        Some t \<Rightarrow> (t_blocking_retval t, upd_thread tid (\<lambda>t. t\<lparr>t_blocking_retval := 0\<rparr>) s)
      | None \<Rightarrow> (0, s))"

definition thread_set_wait_target :: "u64 \<Rightarrow> wait_target \<Rightarrow> 'a task_state_scheme \<Rightarrow> 'a task_state_scheme" where
  "thread_set_wait_target tid target = upd_thread tid (\<lambda>t. t\<lparr>t_wait_target := target\<rparr>)"

definition thread_wait_target :: "u64 \<Rightarrow> 'a task_state_scheme \<Rightarrow> wait_target option" where
  "thread_wait_target tid s = map_option t_wait_target (find_thread tid s)"

definition thread_add_cpu_ticks :: "u64 \<Rightarrow> u64 \<Rightarrow> 'a task_state_scheme \<Rightarrow> 'a task_state_scheme" where
  "thread_add_cpu_ticks tid ticks =
     upd_thread tid (\<lambda>t. t\<lparr>t_cpu_ticks := saturating_add (t_cpu_ticks t) ticks\<rparr>)"

definition thread_cpu_ticks :: "u64 \<Rightarrow> 'a task_state_scheme \<Rightarrow> u64 option" where
  "thread_cpu_ticks tid s = map_option t_cpu_ticks (find_thread tid s)"

definition thread_assigned_cpu :: "u64 \<Rightarrow> 'a task_state_scheme \<Rightarrow> nat option" where
  "thread_assigned_cpu tid s = map_option t_assigned_cpu (find_thread tid s)"

definition thread_set_assigned_cpu :: "u64 \<Rightarrow> nat \<Rightarrow> 'a task_state_scheme \<Rightarrow> 'a task_state_scheme" where
  "thread_set_assigned_cpu tid cpu = upd_thread tid (\<lambda>t. t\<lparr>t_assigned_cpu := cpu\<rparr>)"

definition set_thread_pid :: "u64 \<Rightarrow> u64 \<Rightarrow> 'a task_state_scheme \<Rightarrow> 'a task_state_scheme" where
  "set_thread_pid tid pid = upd_thread tid (\<lambda>t. t\<lparr>t_pid := pid\<rparr>)"

definition thread_set_privilege :: "u64 \<Rightarrow> privilege_level \<Rightarrow> 'a task_state_scheme \<Rightarrow> 'a task_state_scheme" where
  "thread_set_privilege tid privilege = upd_thread tid (\<lambda>t. t\<lparr>t_privilege := privilege\<rparr>)"

definition thread_privilege_level :: "u64 \<Rightarrow> 'a task_state_scheme \<Rightarrow> privilege_level" where
  "thread_privilege_level tid s = (case find_thread tid s of Some t \<Rightarrow> t_privilege t | None \<Rightarrow> User)"

section \<open>Removal and deferred reclamation of kernel stacks\<close>

definition remove_thread :: "u64 \<Rightarrow> 'a task_state_scheme \<Rightarrow> 'a task_state_scheme" where
  "remove_thread tid s = s\<lparr>THREADS := filter (\<lambda>t. t_tid t \<noteq> tid) (THREADS s)\<rparr>"

text \<open>\<open>None\<close>: the heap has no block at this address.\<close>

definition free_kernel_stack :: "u64 \<Rightarrow> 'a task_state_scheme \<Rightarrow> 'a task_state_scheme option" where
  "free_kernel_stack stack_base s =
     (if stack_base = 0 then Some s
      else map_option (\<lambda>h. set_vm ((vm (mach s))\<lparr>kh := h\<rparr>) s)
             (dealloc (cpu_idx s) (unat stack_base) (kheap_of s)))"

definition defer_free_kernel_stack :: "u64 \<Rightarrow> 'a task_state_scheme \<Rightarrow> 'a task_state_scheme option" where
  "defer_free_kernel_stack stack_base s =
     (let cpu = cpu_idx s;
          prev = PENDING_STACK_FREE s cpu
      in free_kernel_stack prev (s\<lparr>PENDING_STACK_FREE := (PENDING_STACK_FREE s)(cpu := stack_base)\<rparr>))"

section \<open>Enumeration and counters\<close>

definition thread_info_of :: "u64 \<Rightarrow> 'a task_state_scheme \<Rightarrow> thread_info option" where
  "thread_info_of tid s =
     map_option (\<lambda>t. \<lparr>ti_tid = t_tid t, ti_pid = t_pid t, ti_state = thread_state_code (t_state t),
                      ti_cpu_ticks = t_cpu_ticks t, ti_assigned_cpu = word_of_nat (t_assigned_cpu t)\<rparr>)
       (List.find (\<lambda>t. t_tid t = tid \<and> t_state t \<noteq> T_Empty) (THREADS s))"

definition cpu_ticks_for_pid :: "u64 \<Rightarrow> 'a task_state_scheme \<Rightarrow> u64" where
  "cpu_ticks_for_pid pid s =
     foldl saturating_add 0 (map t_cpu_ticks (filter (\<lambda>t. t_pid t = pid \<and> t_state t \<noteq> T_Empty) (THREADS s)))"

definition next_thread_in_pid :: "u64 \<Rightarrow> u64 \<Rightarrow> 'a task_state_scheme \<Rightarrow> u64 option" where
  "next_thread_in_pid pid prev_tid s =
     list_min (map t_tid (filter (\<lambda>t. t_pid t = pid \<and> t_tid t > prev_tid \<and> t_state t \<noteq> T_Empty) (THREADS s)))"

definition first_tid :: "'a task_state_scheme \<Rightarrow> u64 option" where
  "first_tid s = map_option t_tid (List.find (\<lambda>t. t_state t \<noteq> T_Empty) (THREADS s))"

definition next_tid_after :: "u64 \<Rightarrow> 'a task_state_scheme \<Rightarrow> u64 option" where
  "next_tid_after tid s =
     list_min (map t_tid (filter (\<lambda>t. t_state t \<noteq> T_Empty \<and> (if tid = u64_max then True else t_tid t > tid)) (THREADS s)))"

definition active_tid_after :: "u64 \<Rightarrow> 'a task_state_scheme \<Rightarrow> u64 option" where
  "active_tid_after tid s =
     list_min (map t_tid (filter (\<lambda>t. t_state t \<in> {T_Ready, T_Running} \<and> t_tid t > tid) (THREADS s)))"

definition thread_count :: "'a task_state_scheme \<Rightarrow> u64" where
  "thread_count s = word_of_nat (length (filter (\<lambda>t. t_state t \<noteq> T_Empty) (THREADS s)))"

definition thread_active_count :: "'a task_state_scheme \<Rightarrow> u64" where
  "thread_active_count s =
     word_of_nat (length (filter (\<lambda>t. t_state t \<in> {T_Ready, T_Running, T_Sleeping}) (THREADS s)))"

definition thread_pid :: "u64 \<Rightarrow> 'a task_state_scheme \<Rightarrow> u64 option" where
  "thread_pid tid s =
     map_option t_pid (List.find (\<lambda>t. t_tid t = tid \<and> t_state t \<noteq> T_Empty) (THREADS s))"

definition thread_exists :: "u64 \<Rightarrow> 'a task_state_scheme \<Rightarrow> bool" where
  "thread_exists tid s = list_ex (\<lambda>t. t_tid t = tid \<and> t_state t \<noteq> T_Empty) (THREADS s)"

section \<open>Blocking and wake-up\<close>

text \<open>\<open>*f.add(i)\<close> for the words of a saved frame.\<close>

definition frame_word :: "(u64 \<Rightarrow> u64) \<Rightarrow> u64 \<Rightarrow> nat \<Rightarrow> u64" where
  "frame_word m f i = m (f + 8 * word_of_nat i)"

definition restore_ctx_from_blocking_frame :: "(u64 \<Rightarrow> u64) \<Rightarrow> u64 \<Rightarrow> thread \<Rightarrow> thread" where
  "restore_ctx_from_blocking_frame m retval t =
     (let f = frame_word m (t_blocking_rsp t)
      in if t_blocking_rsp t = 0 then t
         else t\<lparr>t_user_context := (t_user_context t)\<lparr>
                  u_rax := retval, u_rbx := f 12, u_rcx := f 11, u_rdx := f 10, u_rsi := f 9, u_rdi := f 8,
                  u_rbp := f 13, u_r8 := f 7, u_r9 := f 6, u_r10 := f 5, u_r11 := f 4, u_r12 := f 3,
                  u_r13 := f 2, u_r14 := f 1, u_r15 := f 0, u_rip := f 14, u_rsp := f 17, u_rflags := f 16\<rparr>,
                t_blocking_rsp := 0, t_kernel_preempted := False\<rparr>)"

definition thread_apply_blocking_return_if_pending ::
    "u64 \<Rightarrow> 'a task_state_scheme \<Rightarrow> bool \<times> 'a task_state_scheme" where
  "thread_apply_blocking_return_if_pending tid s =
     (case find_thread tid s of
        Some t \<Rightarrow>
          if t_blocking_rsp t \<noteq> 0
          then (True, upd_thread tid (\<lambda>t. restore_ctx_from_blocking_frame (kmem s) (t_blocking_retval t)
                                            (t\<lparr>t_blocking_retval := 0\<rparr>)) s)
          else (False, s)
      | None \<Rightarrow> (False, s))"

text \<open>The body shared by the wake-up loops.\<close>

definition wake_with :: "(u64 \<Rightarrow> u64) \<Rightarrow> u64 \<Rightarrow> thread \<Rightarrow> thread" where
  "wake_with m retval t =
     (restore_ctx_from_blocking_frame m retval t)\<lparr>t_state := T_Ready, t_wait_target := Wait_None\<rparr>"

text \<open>A loop that wakes the first thread satisfying \<open>P\<close> and returns, and one that wakes all of them.\<close>

definition wake_first :: "(thread \<Rightarrow> bool) \<Rightarrow> u64 \<Rightarrow> 'a task_state_scheme \<Rightarrow> bool \<times> 'a task_state_scheme" where
  "wake_first P retval s =
     (list_ex P (THREADS s), s\<lparr>THREADS := update_first P (wake_with (kmem s) retval) (THREADS s)\<rparr>)"

definition wake_all :: "(thread \<Rightarrow> bool) \<Rightarrow> u64 \<Rightarrow> 'a task_state_scheme \<Rightarrow> 'a task_state_scheme" where
  "wake_all P retval s =
     s\<lparr>THREADS := map (\<lambda>t. if P t then wake_with (kmem s) retval t else t) (THREADS s)\<rparr>"

definition wakeup_key_waiters :: "u8 \<Rightarrow> 'a task_state_scheme \<Rightarrow> nat \<times> 'a task_state_scheme" where
  "wakeup_key_waiters key s =
     (let (woken, s') = wake_first (\<lambda>t. t_state t = T_Sleeping \<and> t_wait_target t = Wait_Keyboard) (ucast key) s
      in (if woken then 1 else 0, s'))"

definition wakeup_key_waiter_for_pid :: "u64 \<Rightarrow> u8 \<Rightarrow> 'a task_state_scheme \<Rightarrow> nat \<times> 'a task_state_scheme" where
  "wakeup_key_waiter_for_pid pid key s =
     (let (woken, s') = wake_first (\<lambda>t. t_pid t = pid \<and> t_state t = T_Sleeping \<and> t_wait_target t = Wait_Keyboard)
                          (ucast key) s
      in (if woken then 1 else 0, s'))"

definition wakeup_pid_waiters :: "u64 \<Rightarrow> 'a task_state_scheme \<Rightarrow> 'a task_state_scheme" where
  "wakeup_pid_waiters exited_pid =
     wake_all (\<lambda>t. t_state t = T_Sleeping \<and> t_wait_target t = Wait_Pid exited_pid) 1"

definition wakeup_thread_waiters :: "u64 \<Rightarrow> 'a task_state_scheme \<Rightarrow> 'a task_state_scheme" where
  "wakeup_thread_waiters exited_tid =
     wake_all (\<lambda>t. t_state t = T_Sleeping \<and> t_wait_target t = Wait_Tid exited_tid) 0"

fun is_ipc_wait :: "wait_target \<Rightarrow> bool" where
  "is_ipc_wait (Wait_Ipc _) = True"
| "is_ipc_wait _ = False"

definition thread_wakeup_ipc_waiter :: "u64 \<Rightarrow> u64 \<Rightarrow> 'a task_state_scheme \<Rightarrow> 'a task_state_scheme" where
  "thread_wakeup_ipc_waiter tid retval s =
     upd_thread tid (\<lambda>t. if t_state t = T_Sleeping \<and> is_ipc_wait (t_wait_target t)
                          then wake_with (kmem s) retval t else t) s"

definition wakeup_irq_waiter :: "u8 \<Rightarrow> 'a task_state_scheme \<Rightarrow> bool \<times> 'a task_state_scheme" where
  "wakeup_irq_waiter irq = wake_first (\<lambda>t. t_state t = T_Sleeping \<and> t_wait_target t = Wait_Irq irq) 0"

definition wakeup_audio_waiters :: "'a task_state_scheme \<Rightarrow> 'a task_state_scheme" where
  "wakeup_audio_waiters = wake_all (\<lambda>t. t_state t = T_Sleeping \<and> t_wait_target t = Wait_Audio) 0"

fun timer_expired :: "u64 \<Rightarrow> wait_target \<Rightarrow> bool" where
  "timer_expired now (Wait_Timer deadline) = (now \<ge> deadline)"
| "timer_expired now _ = False"

definition wake_timer_sleepers :: "u64 \<Rightarrow> 'a task_state_scheme \<Rightarrow> 'a task_state_scheme" where
  "wake_timer_sleepers now_tsc =
     wake_all (\<lambda>t. t_state t = T_Sleeping \<and> timer_expired now_tsc (t_wait_target t)) 0"

definition wake_tick_sleepers :: "'a task_state_scheme \<Rightarrow> 'a task_state_scheme" where
  "wake_tick_sleepers = wake_all (\<lambda>t. t_state t = T_Sleeping \<and> t_wait_target t = Wait_Tick) 0"

end
