(* ===== verification/Pmm.thy ===== *)
theory Pmm
  imports Kazu_Prelude
begin

unbundle bit_operations_syntax

text \<open>
  The physical memory manager, \<^verbatim>\<open>crates/kernel/src/memory/pmm.rs\<close>: one bit per 4 KiB frame, a
  set bit meaning \<open>used\<close>. The bitmap's bytes are a list; the static \<open>PMM\<close> is a \<open>pmm option\<close>.
  Every operation runs under the manager's own lock, so it is one atomic function of the state.

  The abstraction is \<open>avail\<close>, the set of addresses of free frames. The locale \<open>frame_source\<close>
  states what clients (shared memory, user heaps, the program loader) rely on; it is interpreted
  on the bitmap operations at the end.
\<close>

section \<open>Model\<close>

record memory_map_entry =
  phys_start :: u64
  page_count :: u64
  ty :: u32

record pmm =
  bitmap :: "u8 list"
  total_frames :: nat
  usable_frames :: nat
  next_frame :: nat

record pmm_stats =
  st_total_frames :: nat
  st_used_frames :: nat
  st_free_frames :: nat

definition FRAME_SIZE :: nat where
  "FRAME_SIZE = 4096"

definition TY_CONVENTIONAL :: u32 where
  "TY_CONVENTIONAL = 7"

definition get_bit :: "u8 list \<Rightarrow> nat \<Rightarrow> bool" where
  "get_bit bm index = (drop_bit (index mod 8) (bm ! (index div 8)) AND 1 \<noteq> 0)"

definition set_bit :: "u8 list \<Rightarrow> nat \<Rightarrow> bool \<Rightarrow> u8 list" where
  "set_bit bm index value =
     (let byte = bm ! (index div 8); b = push_bit (index mod 8) 1
      in bm[index div 8 := (if value then byte OR b else byte AND NOT b)])"

definition mark_region :: "u8 list \<Rightarrow> nat \<Rightarrow> u64 \<Rightarrow> u64 \<Rightarrow> bool \<Rightarrow> u8 list \<times> nat" where
  "mark_region bm tot start sz used =
     (let start_frame = unat start div FRAME_SIZE;
          end_frame = min (div_ceil (unat (start + sz)) FRAME_SIZE) tot
      in fold (\<lambda>frame (b, changed).
                 (set_bit b frame used, if get_bit b frame \<noteq> used then changed + 1 else changed))
           [start_frame ..< end_frame] (bm, 0))"

definition pmm_init :: "u64 \<Rightarrow> nat \<Rightarrow> memory_map_entry list \<Rightarrow> pmm" where
  "pmm_init bitmap_phys bitmap_size memory_map =
     (let tot = bitmap_size * 8;
          (bm, usable) = fold (\<lambda>entry (b, n).
              if ty entry = TY_CONVENTIONAL
              then (let (b', c) = mark_region b tot (phys_start entry)
                                    (page_count entry * word_of_nat FRAME_SIZE) False
                    in (b', n + c))
              else (b, n))
            memory_map (replicate bitmap_size 0xFF, 0);
          bitmap_pages = div_ceil bitmap_size FRAME_SIZE;
          (bm', _) = mark_region bm tot bitmap_phys (word_of_nat (bitmap_pages * FRAME_SIZE)) True
      in \<lparr>bitmap = bm', total_frames = tot, usable_frames = usable, next_frame = 0\<rparr>)"

definition frame_addr :: "nat \<Rightarrow> u64" where
  "frame_addr frame = word_of_nat frame * word_of_nat FRAME_SIZE"

definition alloc_frame_below :: "u64 \<Rightarrow> pmm option \<Rightarrow> u64 option \<times> pmm option" where
  "alloc_frame_below limit s =
     (case s of
        None \<Rightarrow> (None, s)
      | Some p \<Rightarrow>
          (case List.find (\<lambda>frame. \<not> get_bit (bitmap p) frame)
                  [0 ..< min (unat limit div FRAME_SIZE) (total_frames p)] of
             None \<Rightarrow> (None, s)
           | Some frame \<Rightarrow>
               (Some (frame_addr frame), Some (p\<lparr>bitmap := set_bit (bitmap p) frame True\<rparr>))))"

definition alloc_frame :: "pmm option \<Rightarrow> u64 option \<times> pmm option" where
  "alloc_frame s =
     (case s of
        None \<Rightarrow> (None, s)
      | Some p \<Rightarrow>
          (case List.find (\<lambda>frame. \<not> get_bit (bitmap p) frame)
                  (map (\<lambda>i. (next_frame p + i) mod total_frames p) [0 ..< total_frames p]) of
             None \<Rightarrow> (None, s)
           | Some frame \<Rightarrow>
               (Some (frame_addr frame),
                Some (p\<lparr>bitmap := set_bit (bitmap p) frame True,
                        next_frame := (frame + 1) mod total_frames p\<rparr>))))"

definition free_frame_nolock :: "u64 \<Rightarrow> pmm option \<Rightarrow> pmm option" where
  "free_frame_nolock addr s =
     (case s of
        None \<Rightarrow> None
      | Some p \<Rightarrow>
          (let frame = unat addr div FRAME_SIZE
           in if frame < total_frames p
              then Some (p\<lparr>bitmap := set_bit (bitmap p) frame False\<rparr>)
              else s))"

definition free_frame :: "u64 \<Rightarrow> pmm option \<Rightarrow> pmm option" where
  "free_frame addr s = free_frame_nolock addr s"

definition run_free :: "u8 list \<Rightarrow> nat \<Rightarrow> nat \<Rightarrow> bool" where
  "run_free bm start cnt = list_all (\<lambda>i. \<not> get_bit bm (start + i)) [0 ..< cnt]"

definition alloc_frames :: "nat \<Rightarrow> pmm option \<Rightarrow> u64 option \<times> pmm option" where
  "alloc_frames cnt s =
     (case s of
        None \<Rightarrow> (None, s)
      | Some p \<Rightarrow>
          (case List.find (\<lambda>start. run_free (bitmap p) start cnt)
                  [0 ..< total_frames p - cnt] of
             None \<Rightarrow> (None, s)
           | Some start \<Rightarrow>
               (Some (frame_addr start),
                Some (p\<lparr>bitmap := fold (\<lambda>i b. set_bit b (start + i) True) [0 ..< cnt] (bitmap p),
                        next_frame := (start + cnt) mod total_frames p\<rparr>))))"

definition free_frames :: "u64 \<Rightarrow> nat \<Rightarrow> pmm option \<Rightarrow> pmm option" where
  "free_frames addr cnt s =
     fold (\<lambda>i. free_frame_nolock (addr + word_of_nat i * word_of_nat FRAME_SIZE)) [0 ..< cnt] s"

text \<open>\<open>mark_used\<close> unwraps the static, so it panics (\<open>None\<close>) before \<open>init\<close>.\<close>

definition mark_used :: "u64 \<Rightarrow> u64 \<Rightarrow> pmm option \<Rightarrow> pmm option" where
  "mark_used start sz s =
     (case s of
        None \<Rightarrow> None
      | Some p \<Rightarrow>
          Some (p\<lparr>bitmap := fst (mark_region (bitmap p) (total_frames p) start sz True)\<rparr>))"

definition stats :: "pmm option \<Rightarrow> pmm_stats option" where
  "stats s =
     (case s of
        None \<Rightarrow> None
      | Some p \<Rightarrow>
          (let free = length (filter (\<lambda>frame. \<not> get_bit (bitmap p) frame) [0 ..< total_frames p])
           in Some \<lparr>st_total_frames = usable_frames p,
                    st_used_frames = usable_frames p - free,
                    st_free_frames = free\<rparr>))"

definition total_kib :: "pmm_stats \<Rightarrow> nat" where
  "total_kib st = st_total_frames st * 4"

definition used_kib :: "pmm_stats \<Rightarrow> nat" where
  "used_kib st = st_used_frames st * 4"

definition free_kib :: "pmm_stats \<Rightarrow> nat" where
  "free_kib st = st_free_frames st * 4"

section \<open>Bits\<close>

lemma get_bit_bit: "get_bit bm i = bit (bm ! (i div 8)) (i mod 8)"
  by (simp add: get_bit_def bit_iff_odd_drop_bit and_one_eq odd_iff_mod_2_eq_one)

lemma length_set_bit [simp]: "length (set_bit bm i v) = length bm"
  by (simp add: set_bit_def Let_def)

lemma get_bit_set_bit:
  assumes "i < 8 * length bm"
  shows "get_bit (set_bit bm i v) j = (if i = j then v else get_bit bm j)"
proof (cases "i div 8 = j div 8")
  case True
  have len: "i div 8 < length bm" using assms by linarith
  have ij: "i = j \<longleftrightarrow> i mod 8 = j mod 8"
    using True by (metis div_mult_mod_eq)
  have lt: "j mod 8 < 8" "i mod 8 < 8" by simp_all
  show ?thesis
    using len lt True ij
    by (auto simp: get_bit_bit set_bit_def Let_def bit_or_iff bit_and_iff bit_not_iff
        bit_push_bit_iff bit_1_iff bit_exp_iff)
next
  case False
  then have "i \<noteq> j" by auto
  with False show ?thesis
    by (simp add: get_bit_bit set_bit_def Let_def)
qed

lemma set_bit_fold_length [simp]: "length (fold (\<lambda>i b. set_bit b (f i) v) is bm) = length bm"
  by (induction "is" arbitrary: bm) auto

lemma get_bit_fold:
  assumes "\<forall>i \<in> set is. f i < 8 * length bm"
  shows "get_bit (fold (\<lambda>i b. set_bit b (f i) v) is bm) j
           = (if j \<in> f ` set is then v else get_bit bm j)"
  using assms
proof (induction "is" arbitrary: bm)
  case Nil
  then show ?case by simp
next
  case (Cons i "is")
  then show ?case by (auto simp: get_bit_set_bit)
qed

section \<open>Invariant and abstraction\<close>

definition wf_pmm :: "pmm \<Rightarrow> bool" where
  "wf_pmm p \<longleftrightarrow> total_frames p = 8 * length (bitmap p) \<and> total_frames p * FRAME_SIZE \<le> 2 ^ 64"

definition free_set :: "pmm \<Rightarrow> nat set" where
  "free_set p = {f. f < total_frames p \<and> \<not> get_bit (bitmap p) f}"

definition wf_state :: "pmm option \<Rightarrow> bool" where
  "wf_state s = (case s of None \<Rightarrow> True | Some p \<Rightarrow> wf_pmm p)"

definition avail :: "pmm option \<Rightarrow> u64 set" where
  "avail s = (case s of None \<Rightarrow> {} | Some p \<Rightarrow> frame_addr ` free_set p)"

definition managed :: "pmm option \<Rightarrow> u64 set" where
  "managed s = (case s of None \<Rightarrow> {} | Some p \<Rightarrow> frame_addr ` {..< total_frames p})"

named_theorems pmm_defs \<open>invariant and abstraction of the frame bitmap\<close>

declare wf_pmm_def [pmm_defs] wf_state_def [pmm_defs] avail_def [pmm_defs] managed_def [pmm_defs]

lemma unat_frame_addr: "f * FRAME_SIZE < 2 ^ 64 \<Longrightarrow> unat (frame_addr f) = f * FRAME_SIZE"
proof -
  assume a: "f * FRAME_SIZE < 2 ^ 64"
  have "frame_addr f = word_of_nat (f * FRAME_SIZE)"
    by (simp add: frame_addr_def)
  then have "unat (frame_addr f) = f * FRAME_SIZE mod 2 ^ 64"
    by (simp only: unat_of_nat) simp
  with a show ?thesis by simp
qed

lemma frame_of_frame_addr:
  "wf_pmm p \<Longrightarrow> f < total_frames p \<Longrightarrow> unat (frame_addr f) div FRAME_SIZE = f"
  by (subst unat_frame_addr) (auto simp: wf_pmm_def FRAME_SIZE_def simp del: power_numeral)

lemma inj_frame_addr: "wf_pmm p \<Longrightarrow> inj_on frame_addr {..< total_frames p}"
  by (rule inj_on_inverseI[where g = "\<lambda>a. unat a div FRAME_SIZE"]) (simp add: frame_of_frame_addr)

lemma free_set_bound: "free_set p \<subseteq> {..< total_frames p}"
  by (auto simp: free_set_def)

lemma finite_free_set [simp]: "finite (free_set p)"
  by (rule finite_subset[OF free_set_bound]) simp

lemma free_set_cong [simp]:
  "free_set (p\<lparr>next_frame := n\<rparr>) = free_set p"
  by (simp add: free_set_def)

lemma wf_pmm_upd [simp]:
  "wf_pmm (p\<lparr>next_frame := n\<rparr>) = wf_pmm p"
  "length b = length (bitmap p) \<Longrightarrow> wf_pmm (p\<lparr>bitmap := b\<rparr>) = wf_pmm p"
  by (simp_all add: wf_pmm_def)

lemma free_set_set_bit:
  assumes "wf_pmm p" and "f < total_frames p"
  shows "free_set (p\<lparr>bitmap := set_bit (bitmap p) f v\<rparr>)
           = (if v then free_set p - {f} else insert f (free_set p))"
  using assms by (auto simp: free_set_def get_bit_set_bit wf_pmm_def)

lemma mod_add_surj:
  fixes n :: nat
  assumes "f < n"
  shows "\<exists>i<n. (a + i) mod n = f"
proof (intro exI conjI)
  have le: "a mod n \<le> f + n"
    using assms mod_less_divisor[of n a] by linarith
  have "(a + (f + n - a mod n) mod n) mod n = (a mod n + (f + n - a mod n)) mod n"
    by (simp add: mod_simps)
  also have "\<dots> = (f + n) mod n" using le by simp
  also have "\<dots> = f" using assms by simp
  finally show "(a + (f + n - a mod n) mod n) mod n = f" .
  show "(f + n - a mod n) mod n < n" using assms by simp
qed

section \<open>Single frames\<close>

lemma alloc_frame_None:
  assumes "alloc_frame s = (None, s')"
  shows "s' = s" and "avail s = {}"
proof -
  show "s' = s"
    using assms by (auto simp: alloc_frame_def split: option.splits)
  show "avail s = {}"
  proof (cases s)
    case (Some p)
    have "get_bit (bitmap p) f" if "f < total_frames p" for f
    proof -
      obtain i where "i < total_frames p" "(next_frame p + i) mod total_frames p = f"
        using mod_add_surj[of f "total_frames p" "next_frame p"] \<open>f < total_frames p\<close> by blast
      with assms Some show ?thesis
        by (auto simp: alloc_frame_def find_None_iff split: option.splits)
    qed
    with Some show ?thesis by (auto simp: avail_def free_set_def)
  qed (simp add: avail_def)
qed

lemma avail_remove:
  assumes "wf_pmm p" and "f < total_frames p"
  shows "frame_addr ` (free_set p - {f}) = frame_addr ` free_set p - {frame_addr f}"
  using inj_on_image_set_diff[OF inj_frame_addr[OF assms(1)], of "free_set p" "{f}"]
    free_set_bound[of p] assms(2) by auto

lemma take_free_frame:
  assumes "wf_pmm p" and "f < total_frames p" and "\<not> get_bit (bitmap p) f"
  defines "p' \<equiv> p\<lparr>bitmap := set_bit (bitmap p) f True\<rparr>"
  shows "wf_pmm p'" and "frame_addr f \<in> frame_addr ` free_set p"
    and "frame_addr ` free_set p' = frame_addr ` free_set p - {frame_addr f}"
  using assms(1-3) by (auto simp: p'_def free_set_set_bit avail_remove) (simp add: free_set_def)

lemma alloc_frame_Some:
  assumes "wf_state s" and "alloc_frame s = (Some a, s')"
  shows "wf_state s'" and "a \<in> avail s" and "avail s' = avail s - {a}" and "managed s' = managed s"
proof -
  obtain p f where p: "s = Some p"
    and f: "List.find (\<lambda>frame. \<not> get_bit (bitmap p) frame)
              (map (\<lambda>i. (next_frame p + i) mod total_frames p) [0 ..< total_frames p]) = Some f"
    and a: "a = frame_addr f"
    and s': "s' = Some (p\<lparr>bitmap := set_bit (bitmap p) f True,
                          next_frame := (f + 1) mod total_frames p\<rparr>)"
    using assms(2) by (auto simp: alloc_frame_def split: option.splits)
  from find_SomeD[OF f] have fb: "\<not> get_bit (bitmap p) f" and ft: "f < total_frames p"
    by auto
  have w: "wf_pmm p" using assms(1) p by (simp add: wf_state_def)
  note t = take_free_frame[OF w ft fb]
  show "wf_state s'" "a \<in> avail s" "avail s' = avail s - {a}" "managed s' = managed s"
    using t by (simp_all add: s' a p wf_state_def avail_def managed_def)
qed

lemma alloc_frame_below_Some:
  assumes "wf_state s" and "alloc_frame_below limit s = (Some a, s')"
  shows "wf_state s'" and "a \<in> avail s" and "avail s' = avail s - {a}"
    and "unat a + FRAME_SIZE \<le> unat limit"
proof -
  obtain p f where p: "s = Some p"
    and f: "List.find (\<lambda>frame. \<not> get_bit (bitmap p) frame)
              [0 ..< min (unat limit div FRAME_SIZE) (total_frames p)] = Some f"
    and a: "a = frame_addr f"
    and s': "s' = Some (p\<lparr>bitmap := set_bit (bitmap p) f True\<rparr>)"
    using assms(2) by (auto simp: alloc_frame_below_def split: option.splits)
  from find_SomeD[OF f] have fb: "\<not> get_bit (bitmap p) f" and ft: "f < total_frames p"
    and fl: "f < unat limit div FRAME_SIZE"
    by auto
  have w: "wf_pmm p" using assms(1) p by (simp add: wf_state_def)
  note t = take_free_frame[OF w ft fb]
  show "wf_state s'" "a \<in> avail s" "avail s' = avail s - {a}"
    using t by (simp_all add: s' a p wf_state_def avail_def)
  have "(f + 1) * FRAME_SIZE \<le> unat limit"
    using fl less_eq_div_iff_mult_less_eq[of FRAME_SIZE "f + 1" "unat limit"]
    by (simp add: FRAME_SIZE_def)
  moreover have "f * FRAME_SIZE < 2 ^ 64"
    using w ft unfolding wf_pmm_def FRAME_SIZE_def by linarith
  ultimately show "unat a + FRAME_SIZE \<le> unat limit"
    by (simp add: a unat_frame_addr)
qed

lemma free_frame_managed:
  assumes "wf_state s" and "a \<in> managed s"
  shows "wf_state (free_frame a s)" and "avail (free_frame a s) = insert a (avail s)"
    and "managed (free_frame a s) = managed s"
proof -
  obtain p f where p: "s = Some p" and f: "f < total_frames p" and a: "a = frame_addr f"
    using assms(2) by (auto simp: managed_def split: option.splits)
  have w: "wf_pmm p" using assms(1) p by (simp add: wf_state_def)
  have e: "free_frame a s = Some (p\<lparr>bitmap := set_bit (bitmap p) f False\<rparr>)"
    using f by (simp add: free_frame_def free_frame_nolock_def p a frame_of_frame_addr[OF w f] Let_def)
  show "wf_state (free_frame a s)" "avail (free_frame a s) = insert a (avail s)"
    "managed (free_frame a s) = managed s"
    unfolding e using w f by (simp_all add: p wf_state_def avail_def managed_def free_set_set_bit a)
qed

lemma avail_managed: "avail s \<subseteq> managed s"
  using free_set_bound by (auto simp: avail_def managed_def split: option.splits)

section \<open>The frame-source interface\<close>

text \<open>
  What the clients of the manager rely on. \<open>fs_avail\<close> is the set of free frames, \<open>fs_all\<close> the set
  of frames the source manages.
\<close>

locale frame_source =
  fixes take_frame :: "'s \<Rightarrow> u64 option \<times> 's"
    and give_frame :: "u64 \<Rightarrow> 's \<Rightarrow> 's"
    and fs_avail :: "'s \<Rightarrow> u64 set"
    and fs_all :: "'s \<Rightarrow> u64 set"
    and fs_ok :: "'s \<Rightarrow> bool"
  assumes take_None: "fs_ok s \<Longrightarrow> take_frame s = (None, s') \<Longrightarrow> s' = s \<and> fs_avail s = {}"
    and take_Some: "fs_ok s \<Longrightarrow> take_frame s = (Some a, s') \<Longrightarrow>
      fs_ok s' \<and> a \<in> fs_avail s \<and> fs_avail s' = fs_avail s - {a} \<and> fs_all s' = fs_all s"
    and give: "fs_ok s \<Longrightarrow> a \<in> fs_all s \<Longrightarrow>
      fs_ok (give_frame a s) \<and> fs_avail (give_frame a s) = insert a (fs_avail s)
        \<and> fs_all (give_frame a s) = fs_all s"
    and avail_sub: "fs_avail s \<subseteq> fs_all s"
begin

lemma give_list:
  assumes "fs_ok s" and "set as \<subseteq> fs_all s"
  shows "fs_ok (fold give_frame as s) \<and> fs_avail (fold give_frame as s) = set as \<union> fs_avail s
    \<and> fs_all (fold give_frame as s) = fs_all s"
  using assms
proof (induction as arbitrary: s)
  case (Cons a as)
  then have g: "fs_ok (give_frame a s)" "fs_avail (give_frame a s) = insert a (fs_avail s)"
    "fs_all (give_frame a s) = fs_all s"
    using give[of s a] by simp_all
  with Cons.prems(2) have "set as \<subseteq> fs_all (give_frame a s)" by simp
  from Cons.IH[OF g(1) this] show ?case by (simp add: g)
qed simp

lemma take_give_restores:
  assumes "fs_ok s" and "take_frame s = (Some a, s')"
  shows "fs_avail (give_frame a s') = fs_avail s"
proof -
  from take_Some[OF assms] have t: "fs_ok s'" "a \<in> fs_avail s" "fs_avail s' = fs_avail s - {a}"
    "fs_all s' = fs_all s"
    by simp_all
  then have "a \<in> fs_all s'" using avail_sub[of s] by (simp add: subset_iff)
  from give[OF t(1) this] show ?thesis by (simp add: t(3) insert_absorb[OF t(2)])
qed

end

interpretation pmm_frames: frame_source alloc_frame free_frame avail managed wf_state
proof unfold_locales
  show "s' = s \<and> avail s = {}" if "wf_state s" "alloc_frame s = (None, s')" for s s'
    using alloc_frame_None[OF that(2)] by blast
  show "wf_state s' \<and> a \<in> avail s \<and> avail s' = avail s - {a} \<and> managed s' = managed s"
    if "wf_state s" "alloc_frame s = (Some a, s')" for s s' a
    using alloc_frame_Some[OF that] by blast
  show "wf_state (free_frame a s) \<and> avail (free_frame a s) = insert a (avail s)
      \<and> managed (free_frame a s) = managed s"
    if "wf_state s" "a \<in> managed s" for s a
    using free_frame_managed[OF that] by blast
qed (rule avail_managed)

section \<open>Runs of frames\<close>

lemma run_free_iff: "run_free bm start cnt \<longleftrightarrow> (\<forall>i<cnt. \<not> get_bit bm (start + i))"
  by (auto simp: run_free_def list_all_iff)

lemma image_add_upt: "(+) a ` {0 ..< n} = {a ..< a + n}" for a :: nat
  by (simp add: add.commute)

lemma run_free_subset:
  assumes "start + cnt \<le> total_frames p"
  shows "run_free (bitmap p) start cnt \<longleftrightarrow> {start ..< start + cnt} \<subseteq> free_set p"
proof
  assume r: "run_free (bitmap p) start cnt"
  show "{start ..< start + cnt} \<subseteq> free_set p"
  proof
    fix f assume f: "f \<in> {start ..< start + cnt}"
    then have "f - start < cnt" and "start + (f - start) = f" by auto
    with r have "\<not> get_bit (bitmap p) f" by (metis run_free_iff)
    with f assms show "f \<in> free_set p" by (simp add: free_set_def)
  qed
next
  assume "{start ..< start + cnt} \<subseteq> free_set p"
  then show "run_free (bitmap p) start cnt" by (auto simp: run_free_iff free_set_def subset_iff)
qed

lemma free_set_fold:
  assumes "wf_pmm p" and "start + cnt \<le> total_frames p"
  shows "free_set (p\<lparr>bitmap := fold (\<lambda>i b. set_bit b (start + i) v) [0 ..< cnt] (bitmap p)\<rparr>)
           = (if v then free_set p - {start ..< start + cnt} else free_set p \<union> {start ..< start + cnt})"
proof -
  have "get_bit (fold (\<lambda>i b. set_bit b (start + i) v) [0 ..< cnt] (bitmap p)) j
          = (if j \<in> {start ..< start + cnt} then v else get_bit (bitmap p) j)" for j
    using assms by (subst get_bit_fold) (auto simp: wf_pmm_def image_add_upt)
  with assms(2) show ?thesis by (auto simp: free_set_def)
qed

lemma find_upt_Some_iff:
  "List.find P [0 ..< n] = Some k \<longleftrightarrow> k < n \<and> P k \<and> (\<forall>j<k. \<not> P j)"
  by (auto simp: find_Some_iff)

lemma alloc_frames_Some:
  assumes "wf_pmm p" and "alloc_frames cnt (Some p) = (Some a, s')"
  obtains start p' where "a = frame_addr start" and "s' = Some p'" and "wf_pmm p'"
    and "start + cnt < total_frames p" and "{start ..< start + cnt} \<subseteq> free_set p"
    and "free_set p' = free_set p - {start ..< start + cnt}"
    and "\<forall>j < start. \<not> {j ..< j + cnt} \<subseteq> free_set p"
proof -
  obtain start where f: "List.find (\<lambda>start. run_free (bitmap p) start cnt)
        [0 ..< total_frames p - cnt] = Some start"
    and a: "a = frame_addr start"
    and s': "s' = Some (p\<lparr>bitmap := fold (\<lambda>i b. set_bit b (start + i) True) [0 ..< cnt] (bitmap p),
                          next_frame := (start + cnt) mod total_frames p\<rparr>)"
    using assms(2) by (auto simp: alloc_frames_def split: option.splits)
  have st: "start + cnt < total_frames p" and rf: "run_free (bitmap p) start cnt"
    and least: "\<forall>j < start. \<not> run_free (bitmap p) j cnt"
    using f by (auto simp: find_upt_Some_iff)
  show thesis
  proof (rule that[OF a s'])
    show "{start ..< start + cnt} \<subseteq> free_set p" using run_free_subset[of start cnt p] st rf by simp
    show "\<forall>j < start. \<not> {j ..< j + cnt} \<subseteq> free_set p" using run_free_subset[of _ cnt p] st least by simp
  qed (use st assms(1) free_set_fold[OF assms(1), of start cnt True] in simp_all)
qed

lemma alloc_frames_None:
  assumes "alloc_frames cnt (Some p) = (None, s')" and "start + cnt < total_frames p"
  shows "s' = Some p" and "\<not> {start ..< start + cnt} \<subseteq> free_set p"
proof -
  show "s' = Some p" using assms(1) by (auto simp: alloc_frames_def split: option.splits)
  have "\<not> run_free (bitmap p) start cnt"
    using assms by (auto simp: alloc_frames_def find_None_iff split: option.splits)
  then show "\<not> {start ..< start + cnt} \<subseteq> free_set p"
    using run_free_subset[of start cnt p] assms(2) by simp
qed

lemma free_frames_Suc:
  "free_frames a (Suc n) s
     = free_frame_nolock (a + word_of_nat n * word_of_nat FRAME_SIZE) (free_frames a n s)"
  by (simp add: free_frames_def)

lemma free_frames_run:
  assumes "wf_pmm p" and "start + cnt \<le> total_frames p"
  shows "\<exists>p'. free_frames (frame_addr start) cnt (Some p) = Some p' \<and> wf_pmm p'
    \<and> total_frames p' = total_frames p \<and> free_set p' = free_set p \<union> {start ..< start + cnt}"
  using assms(2)
proof (induction cnt)
  case 0
  with assms(1) show ?case by (simp add: free_frames_def)
next
  case (Suc n)
  then obtain p' where p': "free_frames (frame_addr start) n (Some p) = Some p'" "wf_pmm p'"
    "total_frames p' = total_frames p" "free_set p' = free_set p \<union> {start ..< start + n}"
    by auto
  have lt: "start + n < total_frames p'" using Suc.prems p'(3) by simp
  have "frame_addr start + word_of_nat n * word_of_nat FRAME_SIZE = frame_addr (start + n)"
    by (simp add: frame_addr_def distrib_right)
  then have "free_frames (frame_addr start) (Suc n) (Some p)
      = free_frame_nolock (frame_addr (start + n)) (Some p')"
    by (simp only: free_frames_Suc p'(1))
  also have "\<dots> = Some (p'\<lparr>bitmap := set_bit (bitmap p') (start + n) False\<rparr>)"
    using lt by (simp add: free_frame_nolock_def frame_of_frame_addr[OF p'(2) lt] Let_def)
  finally show ?case
    using p'(2-4) free_set_set_bit[OF p'(2) lt, of False] by auto
qed

section \<open>Initialisation\<close>

definition region_frames :: "nat \<Rightarrow> u64 \<Rightarrow> u64 \<Rightarrow> nat set" where
  "region_frames tot start sz =
     {unat start div FRAME_SIZE ..< min (div_ceil (unat (start + sz)) FRAME_SIZE) tot}"

definition conventional_frames :: "nat \<Rightarrow> memory_map_entry list \<Rightarrow> nat set" where
  "conventional_frames tot mm =
     (\<Union>e \<in> {e \<in> set mm. ty e = TY_CONVENTIONAL}.
        region_frames tot (phys_start e) (page_count e * word_of_nat FRAME_SIZE))"

lemma region_frames_bound: "region_frames tot start sz \<subseteq> {..< tot}"
  by (auto simp: region_frames_def)

lemma finite_region_frames [simp]: "finite (region_frames tot start sz)"
  by (simp add: region_frames_def)

lemma finite_conventional [simp]: "finite (conventional_frames tot mm)"
  by (simp add: conventional_frames_def)

lemma conventional_bound: "conventional_frames tot mm \<subseteq> {..< tot}"
  using region_frames_bound by (fastforce simp: conventional_frames_def)

lemma mark_fold:
  assumes "distinct fs" and "\<forall>f \<in> set fs. f < 8 * length bm"
  shows "fold (\<lambda>frame (b, changed).
            (set_bit b frame used, if get_bit b frame \<noteq> used then changed + 1 else changed)) fs (bm, c)
    = (fold (\<lambda>f b. set_bit b f used) fs bm, c + card {f \<in> set fs. get_bit bm f \<noteq> used})"
  using assms
proof (induction fs arbitrary: bm c)
  case Nil
  then show ?case by simp
next
  case (Cons f fs)
  have other: "{g \<in> set fs. get_bit (set_bit bm f used) g \<noteq> used} = {g \<in> set fs. get_bit bm g \<noteq> used}"
    using Cons.prems by (auto simp: get_bit_set_bit)
  have "{g \<in> set (f # fs). get_bit bm g \<noteq> used}
      = (if get_bit bm f \<noteq> used then {f} else {}) \<union> {g \<in> set fs. get_bit bm g \<noteq> used}"
    by auto
  moreover have "f \<notin> set fs" using Cons.prems by simp
  ultimately have "card {g \<in> set (f # fs). get_bit bm g \<noteq> used}
      = (if get_bit bm f \<noteq> used then 1 else 0) + card {g \<in> set fs. get_bit bm g \<noteq> used}"
    by simp
  then show ?case
    using Cons.prems Cons.IH[of "set_bit bm f used"] by (simp add: other[simplified])
qed

lemma mark_region_spec:
  assumes "tot = 8 * length bm"
  shows "length (fst (mark_region bm tot start sz used)) = length bm"
    and "get_bit (fst (mark_region bm tot start sz used)) j
           = (if j \<in> region_frames tot start sz then used else get_bit bm j)"
    and "snd (mark_region bm tot start sz used)
           = card {f \<in> region_frames tot start sz. get_bit bm f \<noteq> used}"
proof -
  define fs where "fs = [unat start div FRAME_SIZE ..< min (div_ceil (unat (start + sz)) FRAME_SIZE) tot]"
  have fs: "distinct fs" "\<forall>f \<in> set fs. f < 8 * length bm" "set fs = region_frames tot start sz"
    using assms by (auto simp: fs_def region_frames_def)
  have "mark_region bm tot start sz used
      = (fold (\<lambda>f b. set_bit b f used) fs bm, card {f \<in> region_frames tot start sz. get_bit bm f \<noteq> used})"
    unfolding mark_region_def Let_def fs_def[symmetric] using mark_fold[OF fs(1,2), of used 0] fs(3) by simp
  then show "length (fst (mark_region bm tot start sz used)) = length bm"
    and "get_bit (fst (mark_region bm tot start sz used)) j
           = (if j \<in> region_frames tot start sz then used else get_bit bm j)"
    and "snd (mark_region bm tot start sz used)
           = card {f \<in> region_frames tot start sz. get_bit bm f \<noteq> used}"
    using get_bit_fold[of fs "\<lambda>i. i" bm used j] fs(2,3) by simp_all
qed

abbreviation init_step :: "nat \<Rightarrow> memory_map_entry \<Rightarrow> u8 list \<times> nat \<Rightarrow> u8 list \<times> nat" where
  "init_step tot \<equiv> (\<lambda>entry (b, n).
     if ty entry = TY_CONVENTIONAL
     then (let (b', c) = mark_region b tot (phys_start entry)
                           (page_count entry * word_of_nat FRAME_SIZE) False
           in (b', n + c))
     else (b, n))"

lemma init_fold:
  assumes "tot = 8 * length bm" and "n = card {f. f < tot \<and> \<not> get_bit bm f}"
    and "fold (init_step tot) mm (bm, n) = (bm', n')"
  shows "length bm' = length bm \<and> n' = card {f. f < tot \<and> \<not> get_bit bm' f}
    \<and> {f. f < tot \<and> \<not> get_bit bm' f} = {f. f < tot \<and> \<not> get_bit bm f} \<union> conventional_frames tot mm"
  using assms
proof (induction mm arbitrary: bm n)
  case Nil
  then show ?case by (auto simp: conventional_frames_def)
next
  case (Cons e mm)
  show ?case
  proof (cases "ty e = TY_CONVENTIONAL")
    case False
    then have "conventional_frames tot (e # mm) = conventional_frames tot mm"
      by (auto simp: conventional_frames_def)
    with False Cons.IH[OF Cons.prems(1,2)] Cons.prems(3) show ?thesis by simp
  next
    case True
    let ?r = "region_frames tot (phys_start e) (page_count e * word_of_nat FRAME_SIZE)"
    obtain b c where m: "mark_region bm tot (phys_start e) (page_count e * word_of_nat FRAME_SIZE) False = (b, c)"
      by fastforce
    note ms = mark_region_spec[OF Cons.prems(1), of "phys_start e" "page_count e * word_of_nat FRAME_SIZE" False]
    have b: "length b = length bm" "\<And>j. get_bit b j = (j \<notin> ?r \<and> get_bit bm j)"
      "c = card {f \<in> ?r. get_bit bm f}"
      using ms by (auto simp: m)
    have fb: "{f. f < tot \<and> \<not> get_bit b f} = {f. f < tot \<and> \<not> get_bit bm f} \<union> {f \<in> ?r. get_bit bm f}"
      using region_frames_bound[of tot "phys_start e" "page_count e * word_of_nat FRAME_SIZE"]
      by (auto simp: b(2))
    have "n + c = card {f. f < tot \<and> \<not> get_bit b f}"
      unfolding fb Cons.prems(2) b(3) by (rule card_Un_disjoint[symmetric]) auto
    moreover have "fold (init_step tot) mm (b, n + c) = (bm', n')"
      using Cons.prems(3) True m by simp
    ultimately have "length bm' = length b \<and> n' = card {f. f < tot \<and> \<not> get_bit bm' f}
      \<and> {f. f < tot \<and> \<not> get_bit bm' f} = {f. f < tot \<and> \<not> get_bit b f} \<union> conventional_frames tot mm"
      using Cons.prems(1) b(1) by (intro Cons.IH) simp_all
    moreover have "conventional_frames tot (e # mm) = ?r \<union> conventional_frames tot mm"
      using True by (auto simp: conventional_frames_def)
    moreover have "{f. f < tot \<and> \<not> get_bit b f} = {f. f < tot \<and> \<not> get_bit bm f} \<union> ?r"
      using region_frames_bound[of tot "phys_start e" "page_count e * word_of_nat FRAME_SIZE"]
      by (auto simp: b(2))
    ultimately show ?thesis using b(1) by (simp add: Un_assoc)
  qed
qed

lemma pmm_init_spec:
  assumes "n * 8 * FRAME_SIZE \<le> 2 ^ 64"
  shows "wf_pmm (pmm_init bp n mm)"
    and "total_frames (pmm_init bp n mm) = n * 8"
    and "free_set (pmm_init bp n mm) = conventional_frames (n * 8) mm
           - region_frames (n * 8) bp (word_of_nat (div_ceil n FRAME_SIZE * FRAME_SIZE))"
    and "usable_frames (pmm_init bp n mm) = card (conventional_frames (n * 8) mm)"
proof -
  let ?bm = "replicate n (0xFF :: u8)"
  let ?sz = "word_of_nat (div_ceil n FRAME_SIZE * FRAME_SIZE) :: u64"
  have "get_bit ?bm f" if "f < n * 8" for f
  proof -
    have "f div 8 < n" using that by simp
    moreover have "f mod 8 \<in> {0, 1, 2, 3, 4, 5, 6, 7}" by auto
    ultimately show ?thesis by (auto simp: get_bit_def drop_bit_eq_div)
  qed
  then have none: "{f. f < n * 8 \<and> \<not> get_bit ?bm f} = {}" by blast
  obtain bm u where f: "fold (init_step (n * 8)) mm (?bm, 0) = (bm, u)"
    by fastforce
  have i: "length bm = n" "u = card (conventional_frames (n * 8) mm)"
    "{f. f < n * 8 \<and> \<not> get_bit bm f} = conventional_frames (n * 8) mm"
    using init_fold[OF _ _ f] none by simp_all
  have e: "pmm_init bp n mm = \<lparr>bitmap = fst (mark_region bm (n * 8) bp ?sz True),
      total_frames = n * 8, usable_frames = u, next_frame = 0\<rparr>"
    unfolding pmm_init_def Let_def f[unfolded Let_def] by (simp split: prod.split)
  have tb: "n * 8 = 8 * length bm" using i(1) by simp
  note ms = mark_region_spec[OF tb, of bp ?sz True]
  show "wf_pmm (pmm_init bp n mm)"
    using assms ms(1) i(1) by (simp add: e wf_pmm_def)
  show "total_frames (pmm_init bp n mm) = n * 8"
    by (simp add: e)
  show "usable_frames (pmm_init bp n mm) = card (conventional_frames (n * 8) mm)"
    by (simp add: e i(2))
  have "free_set (pmm_init bp n mm)
      = {f. f < n * 8 \<and> (if f \<in> region_frames (n * 8) bp ?sz then False else \<not> get_bit bm f)}"
    unfolding e free_set_def pmm.simps ms(2) by meson
  also have "\<dots> = {f. f < n * 8 \<and> \<not> get_bit bm f} - region_frames (n * 8) bp ?sz"
    by auto
  finally have "free_set (pmm_init bp n mm)
      = {f. f < n * 8 \<and> \<not> get_bit bm f} - region_frames (n * 8) bp ?sz" .
  then show "free_set (pmm_init bp n mm) = conventional_frames (n * 8) mm - region_frames (n * 8) bp ?sz"
    by (simp only: i(3))
qed

section \<open>Accounting\<close>

text \<open>The operations of the manager as one step, for claims about any sequence of them.\<close>

inductive pmm_step :: "nat set \<Rightarrow> pmm option \<Rightarrow> pmm option \<Rightarrow> bool" for U where
  step_alloc: "alloc_frame s = (r, s') \<Longrightarrow> pmm_step U s s'"
| step_alloc_below: "alloc_frame_below limit s = (r, s') \<Longrightarrow> pmm_step U s s'"
| step_alloc_run: "alloc_frames cnt s = (r, s') \<Longrightarrow> pmm_step U s s'"
| step_free: "f \<in> U \<Longrightarrow> free_frame (frame_addr f) s = s' \<Longrightarrow> pmm_step U s s'"
| step_free_run: "{f ..< f + cnt} \<subseteq> U \<Longrightarrow> free_frames (frame_addr f) cnt s = s' \<Longrightarrow> pmm_step U s s'"
| step_mark: "mark_used start sz s = s' \<Longrightarrow> pmm_step U s s'"

definition accounted :: "nat set \<Rightarrow> pmm option \<Rightarrow> bool" where
  "accounted U s = (case s of None \<Rightarrow> False
     | Some p \<Rightarrow> wf_pmm p \<and> U \<subseteq> {..< total_frames p} \<and> free_set p \<subseteq> U \<and> usable_frames p = card U)"

lemma accountedI:
  "accounted U (Some p) \<Longrightarrow> length (bitmap p') = length (bitmap p) \<Longrightarrow> total_frames p' = total_frames p
    \<Longrightarrow> usable_frames p' = usable_frames p \<Longrightarrow> free_set p' \<subseteq> U \<Longrightarrow> accounted U (Some p')"
  by (auto simp: accounted_def wf_pmm_def)

lemma accounted_set_bits:
  assumes "accounted U (Some p)"
    and "\<forall>i \<in> set is. f i < total_frames p \<and> (\<not> v \<longrightarrow> f i \<in> U)"
  shows "accounted U (Some (p\<lparr>bitmap := fold (\<lambda>i b. set_bit b (f i) v) is (bitmap p)\<rparr>))"
proof (rule accountedI[OF assms(1)])
  have "\<forall>i \<in> set is. f i < 8 * length (bitmap p)" "free_set p \<subseteq> U"
    using assms by (auto simp: accounted_def wf_pmm_def)
  then show "free_set (p\<lparr>bitmap := fold (\<lambda>i b. set_bit b (f i) v) is (bitmap p)\<rparr>) \<subseteq> U"
    using assms(2) by (auto simp: free_set_def get_bit_fold split: if_splits)
qed simp_all

lemma accounted_next [simp]: "accounted U (Some (p\<lparr>next_frame := n\<rparr>)) = accounted U (Some p)"
  by (simp add: accounted_def)

lemma accounted_set_bit:
  "accounted U (Some p) \<Longrightarrow> f < total_frames p \<Longrightarrow> v \<or> f \<in> U
    \<Longrightarrow> accounted U (Some (p\<lparr>bitmap := set_bit (bitmap p) f v\<rparr>))"
  using accounted_set_bits[of U p "[f]" id v] by auto

lemma accounted_alloc:
  assumes "accounted U s"
  shows "accounted U (snd (alloc_frame s))" and "accounted U (snd (alloc_frame_below limit s))"
    and "accounted U (snd (alloc_frames cnt s))"
proof -
  obtain p where p: "s = Some p" using assms by (cases s) (auto simp: accounted_def)
  have a: "accounted U (Some p)" using assms p by simp
  show "accounted U (snd (alloc_frame s))"
    using a by (auto simp: p alloc_frame_def accounted_set_bit dest!: find_SomeD split: option.split)
  show "accounted U (snd (alloc_frame_below limit s))"
    using a by (auto simp: p alloc_frame_below_def accounted_set_bit dest!: find_SomeD split: option.split)
  show "accounted U (snd (alloc_frames cnt s))"
  proof (cases "List.find (\<lambda>start. run_free (bitmap p) start cnt) [0 ..< total_frames p - cnt]")
    case (Some f)
    then have "\<forall>i \<in> set [0 ..< cnt]. f + i < total_frames p" by (auto dest: find_SomeD)
    then have "accounted U (Some (p\<lparr>bitmap := fold (\<lambda>i b. set_bit b (f + i) True) [0 ..< cnt] (bitmap p)\<rparr>))"
      by (intro accounted_set_bits[OF a]) simp
    with Some show ?thesis by (simp add: p alloc_frames_def)
  qed (simp add: p a alloc_frames_def)
qed

lemma accounted_free_nolock:
  assumes "accounted U s" and "f \<in> U"
  shows "accounted U (free_frame_nolock (frame_addr f) s)"
proof -
  obtain p where p: "s = Some p" "wf_pmm p" "f < total_frames p"
    using assms by (cases s) (auto simp: accounted_def)
  have "accounted U (Some (p\<lparr>bitmap := set_bit (bitmap p) f False\<rparr>))"
    using assms p(1,3) by (intro accounted_set_bit) simp_all
  with p show ?thesis
    by (simp add: free_frame_nolock_def frame_of_frame_addr[OF p(2,3)])
qed

lemma accounted_step:
  assumes "pmm_step U s s'" and "accounted U s"
  shows "accounted U s'"
  using assms
proof cases
  case (step_free_run f cnt)
  have run: "accounted U (free_frames (frame_addr f) n s)" if "n \<le> cnt" for n
    using that
  proof (induction n)
    case 0
    with assms(2) show ?case by (simp add: free_frames_def)
  next
    case (Suc n)
    have "frame_addr f + word_of_nat n * word_of_nat FRAME_SIZE = frame_addr (f + n)"
      by (simp add: frame_addr_def distrib_right)
    with Suc step_free_run(1) show ?case
      by (simp only: free_frames_Suc) (rule accounted_free_nolock, auto)
  qed
  from run[of cnt] show ?thesis by (simp add: step_free_run(2))
next
  case (step_mark start sz)
  obtain p where p: "s = Some p" "accounted U (Some p)"
    using assms(2) by (cases s) (auto simp: accounted_def)
  then have t: "total_frames p = 8 * length (bitmap p)" by (simp add: accounted_def wf_pmm_def)
  have "accounted U (Some (p\<lparr>bitmap := fst (mark_region (bitmap p) (total_frames p) start sz True)\<rparr>))"
    by (rule accountedI[OF p(2)])
      (use p(2) mark_region_spec[OF t] in \<open>auto simp: accounted_def free_set_def\<close>)
  with step_mark p show ?thesis by (simp add: mark_used_def)
next
  case (step_alloc_below limit r)
  with accounted_alloc(2)[OF assms(2), of limit] show ?thesis by simp
next
  case (step_alloc_run cnt r)
  with accounted_alloc(3)[OF assms(2), of cnt] show ?thesis by simp
qed (use accounted_alloc(1)[OF assms(2)] accounted_free_nolock[OF assms(2)] in \<open>auto simp: free_frame_def\<close>)

lemma accounted_stats:
  assumes "accounted U s"
  shows "\<exists>st. stats s = Some st \<and> st_total_frames st = card U
    \<and> st_used_frames st + st_free_frames st = st_total_frames st
    \<and> st_free_frames st = card (avail s)"
proof -
  obtain p where p: "s = Some p" "wf_pmm p" "U \<subseteq> {..< total_frames p}" "free_set p \<subseteq> U"
    "usable_frames p = card U"
    using assms by (cases s) (auto simp: accounted_def)
  have len: "length (filter (\<lambda>f. \<not> get_bit (bitmap p) f) [0 ..< total_frames p]) = card (free_set p)"
    by (subst distinct_card[symmetric]) (auto simp: free_set_def intro!: arg_cong[where f = card])
  have "card (free_set p) \<le> card U"
    using p(3,4) by (intro card_mono) (auto intro: finite_subset)
  moreover have "card (avail s) = card (free_set p)"
    using inj_on_subset[OF inj_frame_addr[OF p(2)] free_set_bound] by (simp add: avail_def p(1) card_image)
  ultimately show ?thesis
    using p(1,5) by (simp add: stats_def len Let_def)
qed

section \<open>Properties\<close>

text \<open>
  C12: \<open>alloc_frame\<close> refines taking an element out of the set of free frames. It fails only when no
  frame is free, and then changes nothing; otherwise it returns an address that was free, removes
  exactly that one from the free set, and freeing it again restores the free set.
\<close>

theorem alloc_frame_correct:
  assumes "wf_state s"
  shows "case alloc_frame s of
      (None, s') \<Rightarrow> s' = s \<and> avail s = {}
    | (Some a, s') \<Rightarrow> wf_state s' \<and> a \<in> avail s \<and> avail s' = avail s - {a}
        \<and> avail (free_frame a s') = avail s"
proof (cases "alloc_frame s")
  case (Pair r s')
  then show ?thesis
    using alloc_frame_None[of s s'] alloc_frame_Some[OF assms, of _ s']
      pmm_frames.take_give_restores[OF assms, of _ s']
    by (cases r) simp_all
qed

theorem alloc_frame_correct_witness:
  "case alloc_frame (Some \<lparr>bitmap = [0xF3], total_frames = 8, usable_frames = 3, next_frame = 3\<rparr>) of
      (None, s') \<Rightarrow> False
    | (Some a, s') \<Rightarrow> a = 0x3000 \<and> a \<in> avail (Some \<lparr>bitmap = [0xF3], total_frames = 8, usable_frames = 3, next_frame = 3\<rparr>)
        \<and> a \<notin> avail s'"
proof -
  let ?s = "Some \<lparr>bitmap = [0xF3], total_frames = 8, usable_frames = 3, next_frame = 3\<rparr>"
  have "wf_state ?s" by (simp add: wf_state_def wf_pmm_def FRAME_SIZE_def)
  note t = alloc_frame_correct[OF this]
  have "fst (alloc_frame ?s) = Some 0x3000" by code_simp
  with t show ?thesis by (cases "alloc_frame ?s") (auto split: option.splits)
qed

text \<open>
  C27: \<open>alloc_frames\<close> returns the lowest run of \<open>cnt\<close> free frames among the starts it tries, removes
  exactly that run from the free set, and \<open>free_frames\<close> on the result restores the free set. It fails
  only when none of the tried starts \<open>start < total - cnt\<close> begins a free run, and then changes nothing.
\<close>

theorem alloc_frames_correct:
  assumes "wf_pmm p"
  shows "case alloc_frames cnt (Some p) of
      (None, s') \<Rightarrow> s' = Some p
        \<and> (\<forall>start. start + cnt < total_frames p \<longrightarrow> \<not> {start ..< start + cnt} \<subseteq> free_set p)
    | (Some a, s') \<Rightarrow> (\<exists>start p' p''. a = frame_addr start \<and> s' = Some p' \<and> wf_pmm p'
        \<and> start + cnt < total_frames p \<and> {start ..< start + cnt} \<subseteq> free_set p
        \<and> (\<forall>j < start. \<not> {j ..< j + cnt} \<subseteq> free_set p)
        \<and> free_set p' = free_set p - {start ..< start + cnt}
        \<and> free_frames a cnt s' = Some p'' \<and> free_set p'' = free_set p)"
proof (cases "alloc_frames cnt (Some p)")
  case (Pair r s')
  show ?thesis
  proof (cases r)
    case None
    have "s' = Some p" using Pair None by (auto simp: alloc_frames_def split: option.splits)
    with Pair None alloc_frames_None(2)[of cnt p s'] show ?thesis by simp
  next
    case (Some a)
    with Pair have e: "alloc_frames cnt (Some p) = (Some a, s')" by simp
    obtain start p' where r: "a = frame_addr start" "s' = Some p'" "wf_pmm p'"
      "start + cnt < total_frames p" "{start ..< start + cnt} \<subseteq> free_set p"
      "free_set p' = free_set p - {start ..< start + cnt}"
      "\<forall>j < start. \<not> {j ..< j + cnt} \<subseteq> free_set p"
      using alloc_frames_Some[OF assms e] by blast
    have "total_frames p' = total_frames p"
      using Pair Some r(2) by (auto simp: alloc_frames_def split: option.splits)
    then obtain p'' where "free_frames a cnt s' = Some p''"
      "free_set p'' = free_set p' \<union> {start ..< start + cnt}"
      using free_frames_run[OF r(3), of start cnt] r(1,2,4) by auto
    moreover from this(2) r(5,6) have "free_set p'' = free_set p" by blast
    ultimately show ?thesis unfolding e prod.case option.case using r by blast
  qed
qed

theorem alloc_frames_correct_witness:
  "\<exists>p' p''. alloc_frames 2 (Some \<lparr>bitmap = [0xE5, 0xFF], total_frames = 16, usable_frames = 3, next_frame = 0\<rparr>)
      = (Some 0x3000, Some p')
    \<and> free_frames 0x3000 2 (Some p') = Some p''
    \<and> free_set p'' = free_set \<lparr>bitmap = [0xE5, 0xFF], total_frames = 16, usable_frames = 3, next_frame = 0\<rparr>"
proof -
  let ?p = "\<lparr>bitmap = [0xE5, 0xFF], total_frames = 16, usable_frames = 3, next_frame = 0\<rparr>"
  have "wf_pmm ?p" by (simp add: wf_pmm_def FRAME_SIZE_def)
  note t = alloc_frames_correct[OF this, of 2]
  have "fst (alloc_frames 2 (Some ?p)) = Some 0x3000" by code_simp
  with t show ?thesis by (cases "alloc_frames 2 (Some ?p)") auto
qed

text \<open>
  A run that ends with the last managed frame is never found: \<open>alloc_frames\<close> tries the starts
  \<open>0..total - cnt\<close>, which leaves out \<open>total - cnt\<close> itself. With every frame free, a request for all
  of them fails, although the free run exists.
\<close>

theorem alloc_frames_skips_last:
  "fst (alloc_frames (total_frames p) (Some p)) = None
   \<and> alloc_frames 8 (Some (pmm_init 0x10000 1 [\<lparr>phys_start = 0, page_count = 8, ty = 7\<rparr>]))
     = (None, Some (pmm_init 0x10000 1 [\<lparr>phys_start = 0, page_count = 8, ty = 7\<rparr>]))
   \<and> run_free (bitmap (pmm_init 0x10000 1 [\<lparr>phys_start = 0, page_count = 8, ty = 7\<rparr>])) 0 8"
proof (intro conjI)
  show "fst (alloc_frames (total_frames p) (Some p)) = None"
    by (simp add: alloc_frames_def)
qed code_simp+

text \<open>
  C38: after \<open>init\<close> the invariant holds, exactly the frames of conventional memory that do not hold
  the bitmap itself are free, and the usable count is the number of distinct conventional frames,
  overlapping map entries counted once.
\<close>

theorem pmm_init_correct:
  assumes "n * 8 * FRAME_SIZE \<le> 2 ^ 64"
  shows "wf_pmm (pmm_init bp n mm)
    \<and> free_set (pmm_init bp n mm) = conventional_frames (n * 8) mm
        - region_frames (n * 8) bp (word_of_nat (div_ceil n FRAME_SIZE * FRAME_SIZE))
    \<and> usable_frames (pmm_init bp n mm) = card (conventional_frames (n * 8) mm)"
  using pmm_init_spec[OF assms] by blast

theorem pmm_init_correct_witness:
  "free_set (pmm_init 0x1000 1 [\<lparr>phys_start = 0, page_count = 3, ty = 7\<rparr>, \<lparr>phys_start = 0x2000, page_count = 2, ty = 7\<rparr>])
     = conventional_frames 8 [\<lparr>phys_start = 0, page_count = 3, ty = 7\<rparr>, \<lparr>phys_start = 0x2000, page_count = 2, ty = 7\<rparr>] - {1}"
proof -
  have "(1 :: nat) * 8 * FRAME_SIZE \<le> 2 ^ 64" by (simp add: FRAME_SIZE_def)
  moreover have "region_frames 8 0x1000 (word_of_nat (div_ceil 1 FRAME_SIZE * FRAME_SIZE)) = {1}"
    by (simp add: region_frames_def FRAME_SIZE_def div_ceil_def) auto
  ultimately show ?thesis
    using pmm_init_correct[of 1 "0x1000" "[\<lparr>phys_start = 0, page_count = 3, ty = 7\<rparr>, \<lparr>phys_start = 0x2000, page_count = 2, ty = 7\<rparr>]"]
    by simp
qed

text \<open>
  C39: the statistics are consistent at all times. Whatever sequence of allocations, reservations
  and frees of usable frames follows \<open>init\<close>, \<open>stats\<close> reports the number of usable frames as its total,
  the number of allocatable frames as free, and used plus free is the total.
\<close>

theorem pmm_stats_consistent:
  assumes "n * 8 * FRAME_SIZE \<le> 2 ^ 64"
    and "(pmm_step (conventional_frames (n * 8) mm))\<^sup>*\<^sup>* (Some (pmm_init bp n mm)) s"
  shows "\<exists>st. stats s = Some st \<and> st_total_frames st = card (conventional_frames (n * 8) mm)
    \<and> st_used_frames st + st_free_frames st = st_total_frames st
    \<and> st_free_frames st = card (avail s)"
proof -
  have "accounted (conventional_frames (n * 8) mm) (Some (pmm_init bp n mm))"
    using pmm_init_spec[OF assms(1), of bp mm] conventional_bound by (simp add: accounted_def)
  with assms(2) have "accounted (conventional_frames (n * 8) mm) s"
    by (induction rule: rtranclp_induct) (auto intro: accounted_step)
  then show ?thesis by (rule accounted_stats)
qed

theorem pmm_stats_consistent_witness:
  "\<exists>st. stats (snd (alloc_frame (Some (pmm_init 0x1000 1 [\<lparr>phys_start = 0, page_count = 3, ty = 7\<rparr>])))) = Some st
    \<and> st_used_frames st + st_free_frames st = st_total_frames st"
proof -
  let ?mm = "[\<lparr>phys_start = 0, page_count = 3, ty = 7\<rparr>]"
  have "(1 :: nat) * 8 * FRAME_SIZE \<le> 2 ^ 64" by (simp add: FRAME_SIZE_def)
  moreover have "(pmm_step (conventional_frames (1 * 8) ?mm))\<^sup>*\<^sup>* (Some (pmm_init 0x1000 1 ?mm))
      (snd (alloc_frame (Some (pmm_init 0x1000 1 ?mm))))"
    by (rule r_into_rtranclp, rule step_alloc) (rule prod.collapse[symmetric])
  ultimately show ?thesis
    using pmm_stats_consistent[of 1 ?mm "0x1000"] by blast
qed

end
