(* ===== verification/Process_Table.thy ===== *)
theory Process_Table
  imports Thread_Table Pmm
begin

text \<open>
  The process table of \<open>task/process.rs\<close> and the per-CPU current process and thread of
  \<open>task/scheduler.rs\<close>, which the process operations read and reset. \<open>exit_current\<close> also releases the
  resources of all other subsystems and is not modelled. The functions carry the prefix
  \<open>process_\<close> where \<open>thread.rs\<close> has one of the same name.
\<close>

section \<open>Looking up and changing a process\<close>

definition find_process :: "u64 \<Rightarrow> 'a task_state_scheme \<Rightarrow> process option" where
  "find_process pid s = List.find (\<lambda>p. p_pid p = pid) (PROCESSES s)"

definition upd_process :: "u64 \<Rightarrow> (process \<Rightarrow> process) \<Rightarrow> 'a task_state_scheme \<Rightarrow> 'a task_state_scheme" where
  "upd_process pid f s = s\<lparr>PROCESSES := update_first (\<lambda>p. p_pid p = pid) f (PROCESSES s)\<rparr>"

definition main_tid :: "u64 \<Rightarrow> 'a task_state_scheme \<Rightarrow> u64 option" where
  "main_tid pid s = Option.bind (find_process pid s) p_main_tid"

text \<open>\<open>if let Some(tid) = main_tid(pid) { f(tid) }\<close>.\<close>

definition on_main :: "(u64 \<Rightarrow> 'a task_state_scheme \<Rightarrow> 'a task_state_scheme) \<Rightarrow> u64 \<Rightarrow> 'a task_state_scheme \<Rightarrow> 'a task_state_scheme" where
  "on_main f pid s = (case main_tid pid s of Some tid \<Rightarrow> f tid s | None \<Rightarrow> s)"

section \<open>The current process and thread of a CPU\<close>

definition current_user_pid :: "'a task_state_scheme \<Rightarrow> u64 option" where
  "current_user_pid s = CURRENT_USER_PID s (cpu_idx s)"

definition current_user_tid :: "'a task_state_scheme \<Rightarrow> u64 option" where
  "current_user_tid s = CURRENT_USER_TID s (cpu_idx s)"

definition set_current_user_pid :: "u64 option \<Rightarrow> 'a task_state_scheme \<Rightarrow> 'a task_state_scheme" where
  "set_current_user_pid pid s =
     s\<lparr>CURRENT_USER_PID := (CURRENT_USER_PID s)(cpu_idx s := pid),
       CURRENT_USER_TID := (CURRENT_USER_TID s)(cpu_idx s := Option.bind pid (\<lambda>p. main_tid p s))\<rparr>"

definition set_current_user_tid :: "u64 option \<Rightarrow> 'a task_state_scheme \<Rightarrow> 'a task_state_scheme" where
  "set_current_user_tid tid s =
     s\<lparr>CURRENT_USER_TID := (CURRENT_USER_TID s)(cpu_idx s := tid),
       CURRENT_USER_PID := (CURRENT_USER_PID s)(cpu_idx s := Option.bind tid (\<lambda>t. thread_pid t s))\<rparr>"

definition set_idle :: "bool \<Rightarrow> 'a task_state_scheme \<Rightarrow> 'a task_state_scheme" where
  "set_idle idle s = s\<lparr>IS_IDLE := (IS_IDLE s)(cpu_idx s := idle)\<rparr>"

definition is_idle :: "'a task_state_scheme \<Rightarrow> bool" where
  "is_idle s = IS_IDLE s (cpu_idx s)"

definition clear_current_user :: "u64 \<Rightarrow> 'a task_state_scheme \<Rightarrow> 'a task_state_scheme" where
  "clear_current_user pid s =
     (if CURRENT_USER_PID s (cpu_idx s) = Some pid
      then s\<lparr>CURRENT_USER_PID := (CURRENT_USER_PID s)(cpu_idx s := None),
             CURRENT_USER_TID := (CURRENT_USER_TID s)(cpu_idx s := None),
             NEXT_USER_PID := (NEXT_USER_PID s)(cpu_idx s := None)\<rparr>
      else s)"

definition current_pid :: "'a task_state_scheme \<Rightarrow> u64" where
  "current_pid s = (case current_user_pid s of Some p \<Rightarrow> p | None \<Rightarrow> 0)"

definition current_tid :: "'a task_state_scheme \<Rightarrow> u64" where
  "current_tid s = (case current_user_tid s of Some t \<Rightarrow> t | None \<Rightarrow> 0)"

definition clear_current_pid :: "'a task_state_scheme \<Rightarrow> 'a task_state_scheme" where
  "clear_current_pid = set_current_user_pid None"

section \<open>Creation\<close>

definition IMAGE_NAME_LEN :: nat where
  "IMAGE_NAME_LEN = 32"

text \<open>A fixed-size name: the bytes, then zeros.\<close>

definition name_buf :: "u8 list \<Rightarrow> u8 list" where
  "name_buf bs = splice (replicate IMAGE_NAME_LEN 0) 0 bs"

definition kernel_process :: process where
  "kernel_process =
     \<lparr>p_pid = 0, p_state = P_Running, p_image_name = name_buf [107, 101, 114, 110, 101, 108],
      p_start_tsc = 0, p_entry = 0, p_stack_top = 0, p_step = 0, p_memory_bytes = 0,
      p_background = False, p_sigint_catch = False, p_sigint_pending = False,
      p_sigterm_catch = False, p_sigterm_pending = False, p_kill_pending = False, p_parent = 0,
      p_term_cols = 0, p_term_rows = 0, p_privilege = Driver, p_main_tid = None, p_threads = []\<rparr>"

definition process_init :: "'a task_state_scheme \<Rightarrow> 'a task_state_scheme" where
  "process_init s =
     (if processes_INITIALIZED s then s
      else (thread_init s)\<lparr>PROCESSES := [kernel_process], NEXT_PID := 1, processes_INITIALIZED := True\<rparr>)"

definition allocate_pid :: "'a task_state_scheme \<Rightarrow> u64 \<times> 'a task_state_scheme" where
  "allocate_pid s = (NEXT_PID s, s\<lparr>NEXT_PID := NEXT_PID s + 1\<rparr>)"

definition new_process :: "u64 \<Rightarrow> u8 list \<Rightarrow> u64 \<Rightarrow> privilege_level \<Rightarrow> u64 \<Rightarrow> process" where
  "new_process pid name start_tsc privilege main =
     \<lparr>p_pid = pid, p_state = P_Sleeping, p_image_name = name, p_start_tsc = start_tsc,
      p_entry = 0, p_stack_top = 0, p_step = 0, p_memory_bytes = 0,
      p_background = False, p_sigint_catch = False, p_sigint_pending = False,
      p_sigterm_catch = False, p_sigterm_pending = False, p_kill_pending = False, p_parent = 0,
      p_term_cols = 0, p_term_rows = 0, p_privilege = privilege,
      p_main_tid = Some main, p_threads = [main]\<rparr>"

definition create_process ::
    "u8 list \<Rightarrow> privilege_level \<Rightarrow> u64 \<Rightarrow> 'a task_state_scheme \<Rightarrow> u64 \<times> 'a task_state_scheme" where
  "create_process image_name privilege main s =
     (let (pid, s1) = allocate_pid (process_init s);
          name = name_buf (take (min (length image_name) (IMAGE_NAME_LEN - 1)) image_name)
      in (pid, s1\<lparr>PROCESSES := PROCESSES s1 @ [new_process pid name (tsc s1) privilege main]\<rparr>))"

definition process_set_ready :: "u64 \<Rightarrow> 'a task_state_scheme \<Rightarrow> 'a task_state_scheme" where
  "process_set_ready pid s =
     on_main thread_set_ready pid
       (upd_process pid (\<lambda>p. if p_state p \<in> {P_Ready, P_Running, P_Sleeping} then p\<lparr>p_state := P_Ready\<rparr> else p) s)"

definition spawn :: "u8 list \<Rightarrow> 'a task_state_scheme \<Rightarrow> u64 \<times> 'a task_state_scheme" where
  "spawn image_name s =
     (let (tid, s1) = create_kernel_thread 0 0 0 System s
      in if tid = 0 then (0, s1)
         else let (pid, s2) = create_process image_name System tid s1
         in if pid = 0 then (0, remove_thread tid s2)
            else (pid, process_set_ready pid (set_thread_pid tid pid s2)))"

definition spawn_kernel_task ::
    "u8 list \<Rightarrow> u64 \<Rightarrow> u64 \<Rightarrow> privilege_level \<Rightarrow> 'a task_state_scheme \<Rightarrow> u64 \<times> 'a task_state_scheme" where
  "spawn_kernel_task image_name entry arg privilege s =
     (let (tid, s1) = create_kernel_thread 0 entry arg privilege s
      in if tid = 0 then (0, s1)
         else let (pid, s2) = create_process image_name privilege tid s1
         in if pid = 0 then (0, remove_thread tid s2)
            else (pid, process_set_ready pid
                   (thread_set_user_context tid (EMPTY_USER_CONTEXT\<lparr>u_rip := entry\<rparr>)
                     (set_thread_pid tid pid s2))))"

definition spawn_user_process ::
    "u8 list \<Rightarrow> u64 \<Rightarrow> u64 \<Rightarrow> u64 \<Rightarrow> privilege_level \<Rightarrow> u64 \<Rightarrow> u64 \<Rightarrow> 'a task_state_scheme
      \<Rightarrow> u64 \<times> 'a task_state_scheme" where
  "spawn_user_process image_name entry user_stack_top cr3 privilege argc argv s =
     (let (tid, s1) = create_kernel_thread 0 entry 0 privilege s
      in if tid = 0 then (0, s1)
         else let (pid, s2) = create_process image_name privilege tid s1
         in if pid = 0 then (0, remove_thread tid s2)
            else (pid, thread_set_user_context tid
                   (EMPTY_USER_CONTEXT\<lparr>u_rip := entry, u_rsp := user_stack_top, u_cr3 := cr3,
                      u_user_stack_top := user_stack_top, u_rdi := argc, u_rsi := argv\<rparr>)
                   (set_thread_pid tid pid s2)))"

definition process_privilege_level :: "u64 \<Rightarrow> 'a task_state_scheme \<Rightarrow> privilege_level" where
  "process_privilege_level pid s = (case find_process pid s of Some p \<Rightarrow> p_privilege p | None \<Rightarrow> User)"

definition add_thread_to_process :: "u64 \<Rightarrow> u64 \<Rightarrow> 'a task_state_scheme \<Rightarrow> 'a task_state_scheme" where
  "add_thread_to_process pid tid = upd_process pid (\<lambda>p. p\<lparr>p_threads := p_threads p @ [tid]\<rparr>)"

definition remove_thread_from_process :: "u64 \<Rightarrow> u64 \<Rightarrow> 'a task_state_scheme \<Rightarrow> 'a task_state_scheme" where
  "remove_thread_from_process pid tid = upd_process pid (\<lambda>p. p\<lparr>p_threads := filter (\<lambda>t. t \<noteq> tid) (p_threads p)\<rparr>)"

definition spawn_user_thread :: "u64 \<Rightarrow> u64 \<Rightarrow> u64 \<Rightarrow> 'a task_state_scheme \<Rightarrow> u64 \<times> 'a task_state_scheme" where
  "spawn_user_thread entry arg stack_top s =
     (let pid = current_pid s
      in if pid = 0 then (0, s)
         else case thread_user_cr3 (current_tid s) s of
           None \<Rightarrow> (0, s)
         | Some cr3 \<Rightarrow>
             (let (tid, s1) = create_user_thread pid entry stack_top cr3 (process_privilege_level pid s) arg 0 s
              in if tid = 0 then (0, s1)
                 else (tid, thread_set_ready tid (add_thread_to_process pid tid s1))))"

section \<open>Leaving and blocking\<close>

text \<open>\<open>None\<close>: the stashed stack is not a block of the heap.\<close>

definition exit_current_thread :: "'a task_state_scheme \<Rightarrow> 'a task_state_scheme option" where
  "exit_current_thread s =
     (let pid = current_pid s;
          tid = current_tid s;
          s1 = clear_current_pid (clear_current_user pid (remove_thread_from_process pid tid s))
      in if tid \<noteq> 0
         then let s2 = wakeup_thread_waiters tid (thread_set_state tid T_Exited s1);
                  stack_base = (case thread_kernel_stack_base tid s2 of Some b \<Rightarrow> b | None \<Rightarrow> 0)
              in defer_free_kernel_stack stack_base (remove_thread tid s2)
         else Some s1)"

definition block_current :: "wait_target \<Rightarrow> 'a task_state_scheme \<Rightarrow> 'a task_state_scheme" where
  "block_current target s =
     (case current_user_tid s of
        Some tid \<Rightarrow> thread_set_sleeping tid (thread_set_wait_target tid target s)
      | None \<Rightarrow> s)"

text \<open>\<open>!matches!(thread::state(tid), Some(Exited) | Some(Empty) | None)\<close>.\<close>

definition thread_alive :: "u64 \<Rightarrow> 'a task_state_scheme \<Rightarrow> bool" where
  "thread_alive tid s = (thread_state_of tid s \<notin> {Some T_Exited, Some T_Empty, None})"

definition join_current :: "u64 \<Rightarrow> 'a task_state_scheme \<Rightarrow> bool \<times> 'a task_state_scheme" where
  "join_current tid s =
     (if \<not> thread_alive tid s then (False, s)
      else (True,
            case current_user_tid s of
              Some cur \<Rightarrow> thread_set_sleeping cur (thread_set_wait_target cur (Wait_Tid tid) s)
            | None \<Rightarrow> s))"

definition live_thread_count :: "u64 \<Rightarrow> 'a task_state_scheme \<Rightarrow> nat" where
  "live_thread_count pid s =
     (case find_process pid s of
        Some p \<Rightarrow> length (filter (\<lambda>t. thread_alive t s) (p_threads p))
      | None \<Rightarrow> 0)"

definition process_set_privilege :: "u64 \<Rightarrow> privilege_level \<Rightarrow> 'a task_state_scheme \<Rightarrow> 'a task_state_scheme" where
  "process_set_privilege pid privilege s =
     on_main (\<lambda>tid. thread_set_privilege tid privilege) pid
       (upd_process pid (\<lambda>p. p\<lparr>p_privilege := privilege\<rparr>) s)"

definition remove_process :: "u64 \<Rightarrow> 'a task_state_scheme \<Rightarrow> 'a task_state_scheme" where
  "remove_process pid s =
     (case position (\<lambda>p. p_pid p = pid) (PROCESSES s) of
        Some pos \<Rightarrow> fold remove_thread (p_threads (PROCESSES s ! pos))
                     (s\<lparr>PROCESSES := swap_remove pos (PROCESSES s)\<rparr>)
      | None \<Rightarrow> s)"

section \<open>Signals and termination requests\<close>

definition SIGNAL_SIGINT :: u64 where "SIGNAL_SIGINT = 1"
definition SIGNAL_SIGTERM :: u64 where "SIGNAL_SIGTERM = 2"

definition kill_pid :: "u64 \<Rightarrow> 'a task_state_scheme \<Rightarrow> 'a task_state_scheme" where
  "kill_pid pid s =
     (if pid = 0 then s
      else case find_process pid s of
        None \<Rightarrow> s
      | Some p \<Rightarrow>
          if p_privilege p \<le> Driver then s
          else on_main thread_set_ready pid (upd_process pid (\<lambda>p. p\<lparr>p_kill_pending := True\<rparr>) s))"

text \<open>Waking a thread that sleeps in a system call, as \<open>send_sigint\<close> and \<open>send_driver_exit\<close> do.\<close>

definition interrupt_sleep :: "u64 \<Rightarrow> 'a task_state_scheme \<Rightarrow> 'a task_state_scheme" where
  "interrupt_sleep tid s =
     (if thread_state_of tid s = Some T_Sleeping
      then thread_set_wait_target tid Wait_None
             (thread_set_ready tid (snd (thread_apply_blocking_return_if_pending tid s)))
      else s)"

definition send_sigint :: "u64 \<Rightarrow> 'a task_state_scheme \<Rightarrow> 'a task_state_scheme" where
  "send_sigint pid s =
     (case find_process pid s of
        None \<Rightarrow> s
      | Some p \<Rightarrow>
          if p_privilege p \<le> Driver then s
          else if p_sigint_catch p
          then (let s1 = upd_process pid (\<lambda>p. p\<lparr>p_sigint_pending := True\<rparr>) s
                in case p_main_tid p of Some tid \<Rightarrow> interrupt_sleep tid s1 | None \<Rightarrow> s1)
          else kill_pid pid s)"

definition sigint_catches :: "u64 \<Rightarrow> 'a task_state_scheme \<Rightarrow> bool" where
  "sigint_catches pid s = (case find_process pid s of Some p \<Rightarrow> p_sigint_catch p | None \<Rightarrow> False)"

definition send_driver_exit :: "u64 \<Rightarrow> 'a task_state_scheme \<Rightarrow> 'a task_state_scheme" where
  "send_driver_exit pid s =
     (case find_process pid s of
        None \<Rightarrow> s
      | Some p \<Rightarrow>
          (let s1 = upd_process pid (\<lambda>p. p\<lparr>p_sigint_pending := True\<rparr>) s
           in case p_main_tid p of Some tid \<Rightarrow> interrupt_sleep tid s1 | None \<Rightarrow> s1))"

definition signal_set_catch :: "u64 \<Rightarrow> u64 \<Rightarrow> 'a task_state_scheme \<Rightarrow> 'a task_state_scheme" where
  "signal_set_catch pid msk =
     upd_process pid (\<lambda>p. p\<lparr>p_sigint_catch := (msk AND SIGNAL_SIGINT \<noteq> 0),
                             p_sigterm_catch := (msk AND SIGNAL_SIGTERM \<noteq> 0)\<rparr>)"

definition signal_check_and_clear :: "u64 \<Rightarrow> 'a task_state_scheme \<Rightarrow> u64 \<times> 'a task_state_scheme" where
  "signal_check_and_clear pid s =
     (case find_process pid s of
        Some p \<Rightarrow>
          ((if p_sigint_pending p then SIGNAL_SIGINT else 0) OR (if p_sigterm_pending p then SIGNAL_SIGTERM else 0),
           upd_process pid (\<lambda>p. p\<lparr>p_sigint_pending := False, p_sigterm_pending := False\<rparr>) s)
      | None \<Rightarrow> (0, s))"

text \<open>The body shared by \<open>send_sigterm\<close> and \<open>shutdown_sigterm_all\<close>.\<close>

definition mark_sigterm :: "process \<Rightarrow> process" where
  "mark_sigterm p = (if p_sigterm_catch p then p\<lparr>p_sigterm_pending := True\<rparr> else p\<lparr>p_kill_pending := True\<rparr>)"

definition send_sigterm :: "u64 \<Rightarrow> 'a task_state_scheme \<Rightarrow> 'a task_state_scheme" where
  "send_sigterm pid s =
     (case find_process pid s of
        None \<Rightarrow> s
      | Some p \<Rightarrow>
          (let s1 = upd_process pid mark_sigterm s
           in case p_main_tid p of Some tid \<Rightarrow> thread_set_ready tid s1 | None \<Rightarrow> s1))"

text \<open>
  The shutdown loops mark each process but the kernel and make its main thread ready;
  \<open>thread_set_ready\<close> leaves the process table alone, so marking and waking are two passes here.
\<close>

definition wake_mains :: "'a task_state_scheme \<Rightarrow> 'a task_state_scheme" where
  "wake_mains s =
     fold (\<lambda>p s. case p_main_tid p of Some tid \<Rightarrow> thread_set_ready tid s | None \<Rightarrow> s)
       (filter (\<lambda>p. p_pid p \<noteq> 0) (PROCESSES s)) s"

definition shutdown_sigterm_all :: "'a task_state_scheme \<Rightarrow> 'a task_state_scheme" where
  "shutdown_sigterm_all s =
     wake_mains (s\<lparr>PROCESSES := map (\<lambda>p. if p_pid p = 0 then p else mark_sigterm p) (PROCESSES s)\<rparr>)"

definition shutdown_sigkill_all :: "'a task_state_scheme \<Rightarrow> 'a task_state_scheme" where
  "shutdown_sigkill_all s =
     wake_mains (s\<lparr>PROCESSES := map (\<lambda>p. if p_pid p = 0 then p else p\<lparr>p_kill_pending := True\<rparr>) (PROCESSES s)\<rparr>)"

definition shutdown_complete :: "'a task_state_scheme \<Rightarrow> bool" where
  "shutdown_complete s = list_all (\<lambda>p. p_pid p = 0 \<or> p_state p \<in> {P_Empty, P_Exited}) (PROCESSES s)"

definition is_kill_pending :: "u64 \<Rightarrow> 'a task_state_scheme \<Rightarrow> bool" where
  "is_kill_pending pid s = (case find_process pid s of Some p \<Rightarrow> p_kill_pending p | None \<Rightarrow> False)"

definition set_kill_pending :: "u64 \<Rightarrow> 'a task_state_scheme \<Rightarrow> 'a task_state_scheme" where
  "set_kill_pending pid = upd_process pid (\<lambda>p. p\<lparr>p_kill_pending := True\<rparr>)"

definition kill_children :: "u64 \<Rightarrow> 'a task_state_scheme \<Rightarrow> 'a task_state_scheme" where
  "kill_children pid s = fold kill_pid (map p_pid (filter (\<lambda>p. p_parent p = pid) (PROCESSES s))) s"

section \<open>Foreground process and out-of-memory victim\<close>

definition waits_on :: "u64 \<Rightarrow> 'a task_state_scheme \<Rightarrow> u64 option" where
  "waits_on pid s =
     (case Option.bind (main_tid pid s) (\<lambda>t. thread_wait_target t s) of
        Some (Wait_Pid target) \<Rightarrow> Some target
      | _ \<Rightarrow> None)"

text \<open>The wait target of a process's main thread, as \<open>foreground_pid\<close> reads it.\<close>

definition main_wait :: "process \<Rightarrow> 'a task_state_scheme \<Rightarrow> wait_target option" where
  "main_wait p s = Option.bind (p_main_tid p) (\<lambda>t. thread_wait_target t s)"

fun is_pid_wait :: "wait_target option \<Rightarrow> bool" where
  "is_pid_wait (Some (Wait_Pid _)) = True"
| "is_pid_wait _ = False"

definition foreground_pid :: "'a task_state_scheme \<Rightarrow> u64 option" where
  "foreground_pid s =
     map_option p_pid
       (List.find (\<lambda>p. \<not> (p_pid p = 0 \<or> p_state p \<in> {P_Empty, P_Exited})
                       \<and> list_ex (\<lambda>q. main_wait q s = Some (Wait_Pid (p_pid p))) (PROCESSES s)
                       \<and> \<not> is_pid_wait (main_wait p s))
         (PROCESSES s))"

text \<open>The loop of \<open>foreground_leaf\<close>, which the source bounds by 64 rounds.\<close>

primrec follow_waits :: "nat \<Rightarrow> u64 \<Rightarrow> 'a task_state_scheme \<Rightarrow> u64" where
  "follow_waits 0 cur s = cur"
| "follow_waits (Suc n) cur s = (case waits_on cur s of Some next \<Rightarrow> follow_waits n next s | None \<Rightarrow> cur)"

definition foreground_leaf :: "u64 \<Rightarrow> 'a task_state_scheme \<Rightarrow> u64" where
  "foreground_leaf root s = follow_waits 64 root s"

definition oom_step :: "u64 \<Rightarrow> process \<Rightarrow> (u64 \<times> u64) option \<Rightarrow> (u64 \<times> u64) option" where
  "oom_step exclude p best =
     (if p_pid p = 0 \<or> p_pid p = exclude then best
      else if p_privilege p \<le> Driver then best
      else if p_state p \<in> {P_Empty, P_Exited} then best
      else if (case best of None \<Rightarrow> True | Some (_, bm) \<Rightarrow> p_memory_bytes p > bm)
      then Some (p_pid p, p_memory_bytes p)
      else best)"

definition oom_victim :: "u64 \<Rightarrow> 'a task_state_scheme \<Rightarrow> u64 option" where
  "oom_victim exclude s = map_option fst (fold (oom_step exclude) (PROCESSES s) None)"

section \<open>State changes and fields of a process\<close>

definition process_set_running :: "u64 \<Rightarrow> 'a task_state_scheme \<Rightarrow> 'a task_state_scheme" where
  "process_set_running pid s =
     (let s1 = upd_process pid (\<lambda>p. if p_state p \<notin> {P_Empty, P_Exited} then p\<lparr>p_state := P_Running\<rparr> else p) s
      in case current_user_tid s1 of Some tid \<Rightarrow> thread_set_running tid s1 | None \<Rightarrow> s1)"

definition process_set_sleeping :: "u64 \<Rightarrow> 'a task_state_scheme \<Rightarrow> 'a task_state_scheme" where
  "process_set_sleeping pid s =
     on_main thread_set_sleeping pid
       (upd_process pid (\<lambda>p. if p_state p \<notin> {P_Empty, P_Exited} then p\<lparr>p_state := P_Sleeping\<rparr> else p) s)"

definition process_step :: "u64 \<Rightarrow> 'a task_state_scheme \<Rightarrow> u64 \<times> 'a task_state_scheme" where
  "process_step pid s =
     (case find_process pid s of
        Some p \<Rightarrow> (p_step p + 1, upd_process pid (\<lambda>p. p\<lparr>p_step := p_step p + 1\<rparr>) s)
      | None \<Rightarrow> (0, s))"

definition process_add_cpu_ticks :: "u64 \<Rightarrow> u64 \<Rightarrow> 'a task_state_scheme \<Rightarrow> 'a task_state_scheme" where
  "process_add_cpu_ticks pid ticks = on_main (\<lambda>tid. thread_add_cpu_ticks tid ticks) pid"

definition set_memory_bytes :: "u64 \<Rightarrow> u64 \<Rightarrow> 'a task_state_scheme \<Rightarrow> 'a task_state_scheme" where
  "set_memory_bytes pid n = upd_process pid (\<lambda>p. p\<lparr>p_memory_bytes := n\<rparr>)"

definition add_memory_bytes :: "u64 \<Rightarrow> u64 \<Rightarrow> 'a task_state_scheme \<Rightarrow> 'a task_state_scheme" where
  "add_memory_bytes pid n = upd_process pid (\<lambda>p. p\<lparr>p_memory_bytes := saturating_add (p_memory_bytes p) n\<rparr>)"

definition sub_memory_bytes :: "u64 \<Rightarrow> u64 \<Rightarrow> 'a task_state_scheme \<Rightarrow> 'a task_state_scheme" where
  "sub_memory_bytes pid n = upd_process pid (\<lambda>p. p\<lparr>p_memory_bytes := saturating_sub (p_memory_bytes p) n\<rparr>)"

definition memory_bytes :: "u64 \<Rightarrow> 'a task_state_scheme \<Rightarrow> u64 option" where
  "memory_bytes pid s = map_option p_memory_bytes (find_process pid s)"

definition set_winsize :: "u64 \<Rightarrow> u16 \<Rightarrow> u16 \<Rightarrow> 'a task_state_scheme \<Rightarrow> 'a task_state_scheme" where
  "set_winsize pid cols rows = upd_process pid (\<lambda>p. p\<lparr>p_term_cols := cols, p_term_rows := rows\<rparr>)"

definition winsize :: "u64 \<Rightarrow> 'a task_state_scheme \<Rightarrow> u16 \<times> u16" where
  "winsize pid s = (case find_process pid s of Some p \<Rightarrow> (p_term_cols p, p_term_rows p) | None \<Rightarrow> (0, 0))"

definition set_parent :: "u64 \<Rightarrow> u64 \<Rightarrow> 'a task_state_scheme \<Rightarrow> 'a task_state_scheme" where
  "set_parent pid parent = upd_process pid (\<lambda>p. p\<lparr>p_parent := parent\<rparr>)"

definition set_background :: "u64 \<Rightarrow> bool \<Rightarrow> 'a task_state_scheme \<Rightarrow> 'a task_state_scheme" where
  "set_background pid background = upd_process pid (\<lambda>p. p\<lparr>p_background := background\<rparr>)"

definition is_background :: "u64 \<Rightarrow> 'a task_state_scheme \<Rightarrow> bool" where
  "is_background pid s = (case find_process pid s of Some p \<Rightarrow> p_background p | None \<Rightarrow> False)"

definition is_live :: "u64 \<Rightarrow> 'a task_state_scheme \<Rightarrow> bool" where
  "is_live pid s = list_ex (\<lambda>p. p_pid p = pid \<and> p_state p \<in> {P_Ready, P_Running, P_Sleeping}) (PROCESSES s)"

section \<open>Operations on the main thread\<close>

definition process_cpu_ticks :: "u64 \<Rightarrow> 'a task_state_scheme \<Rightarrow> u64 option" where
  "process_cpu_ticks pid s = Option.bind (main_tid pid s) (\<lambda>t. thread_cpu_ticks t s)"

definition cpu_usage_permille :: "u64 \<Rightarrow> u64 \<Rightarrow> 'a task_state_scheme \<Rightarrow> u64 option" where
  "cpu_usage_permille pid total_ticks s =
     map_option (\<lambda>ticks. if total_ticks = 0 then 0 else saturating_mul ticks 1000 div total_ticks)
       (process_cpu_ticks pid s)"

definition total_cpu_ticks :: "'a task_state_scheme \<Rightarrow> u64" where
  "total_cpu_ticks s =
     sum_list (List.map_filter (\<lambda>p. process_cpu_ticks (p_pid p) s) (filter (\<lambda>p. p_pid p \<noteq> 0) (PROCESSES s)))"

definition user_cpu_ticks_total :: "'a task_state_scheme \<Rightarrow> u64" where
  "user_cpu_ticks_total s = total_cpu_ticks s"

definition process_set_user_context :: "u64 \<Rightarrow> user_context \<Rightarrow> 'a task_state_scheme \<Rightarrow> 'a task_state_scheme" where
  "process_set_user_context pid context = on_main (\<lambda>tid. thread_set_user_context tid context) pid"

definition process_user_context :: "u64 \<Rightarrow> 'a task_state_scheme \<Rightarrow> user_context option" where
  "process_user_context pid s = Option.bind (main_tid pid s) (\<lambda>t. thread_user_context t s)"

definition process_user_cr3 :: "u64 \<Rightarrow> 'a task_state_scheme \<Rightarrow> u64 option" where
  "process_user_cr3 pid s = Option.bind (main_tid pid s) (\<lambda>t. thread_user_cr3 t s)"

definition process_user_stack_top :: "u64 \<Rightarrow> 'a task_state_scheme \<Rightarrow> u64 option" where
  "process_user_stack_top pid s =
     Option.bind (main_tid pid s) (\<lambda>t. map_option u_user_stack_top (thread_user_context t s))"

definition process_kernel_rsp :: "u64 \<Rightarrow> 'a task_state_scheme \<Rightarrow> u64 option" where
  "process_kernel_rsp pid s = Option.bind (main_tid pid s) (\<lambda>t. thread_kernel_rsp t s)"

definition process_set_kernel_rsp :: "u64 \<Rightarrow> u64 \<Rightarrow> 'a task_state_scheme \<Rightarrow> 'a task_state_scheme" where
  "process_set_kernel_rsp pid rsp = on_main (\<lambda>tid. thread_set_kernel_rsp tid rsp) pid"

definition process_kernel_stack_base :: "u64 \<Rightarrow> 'a task_state_scheme \<Rightarrow> u64 option" where
  "process_kernel_stack_base pid s = Option.bind (main_tid pid s) (\<lambda>t. thread_kernel_stack_base t s)"

definition process_kernel_stack_top :: "u64 \<Rightarrow> 'a task_state_scheme \<Rightarrow> u64 option" where
  "process_kernel_stack_top pid s = Option.bind (main_tid pid s) (\<lambda>t. thread_kernel_stack_top t s)"

definition process_set_kernel_preempted :: "u64 \<Rightarrow> bool \<Rightarrow> 'a task_state_scheme \<Rightarrow> 'a task_state_scheme" where
  "process_set_kernel_preempted pid val = on_main (\<lambda>tid. thread_set_kernel_preempted tid val) pid"

definition process_is_kernel_preempted :: "u64 \<Rightarrow> 'a task_state_scheme \<Rightarrow> bool" where
  "process_is_kernel_preempted pid s =
     (case main_tid pid s of Some tid \<Rightarrow> thread_is_kernel_preempted tid s | None \<Rightarrow> False)"

definition process_set_blocking_rsp :: "u64 \<Rightarrow> u64 \<Rightarrow> 'a task_state_scheme \<Rightarrow> 'a task_state_scheme" where
  "process_set_blocking_rsp pid rsp = on_main (\<lambda>tid. thread_set_blocking_rsp tid rsp) pid"

definition process_take_blocking_rsp :: "u64 \<Rightarrow> 'a task_state_scheme \<Rightarrow> u64 option \<times> 'a task_state_scheme" where
  "process_take_blocking_rsp pid s =
     (case main_tid pid s of Some tid \<Rightarrow> thread_take_blocking_rsp tid s | None \<Rightarrow> (None, s))"

definition process_take_blocking_retval :: "u64 \<Rightarrow> 'a task_state_scheme \<Rightarrow> u64 \<times> 'a task_state_scheme" where
  "process_take_blocking_retval pid s =
     (case main_tid pid s of Some tid \<Rightarrow> thread_take_blocking_retval tid s | None \<Rightarrow> (0, s))"

definition process_apply_blocking_return_if_pending :: "u64 \<Rightarrow> 'a task_state_scheme \<Rightarrow> bool \<times> 'a task_state_scheme" where
  "process_apply_blocking_return_if_pending pid s =
     (case main_tid pid s of Some tid \<Rightarrow> thread_apply_blocking_return_if_pending tid s | None \<Rightarrow> (False, s))"

definition process_set_wait_target :: "u64 \<Rightarrow> wait_target \<Rightarrow> 'a task_state_scheme \<Rightarrow> 'a task_state_scheme" where
  "process_set_wait_target pid target = on_main (\<lambda>tid. thread_set_wait_target tid target) pid"

definition process_wakeup_ipc_waiter :: "u64 \<Rightarrow> u64 \<Rightarrow> 'a task_state_scheme \<Rightarrow> 'a task_state_scheme" where
  "process_wakeup_ipc_waiter pid retval = on_main (\<lambda>tid. thread_wakeup_ipc_waiter tid retval) pid"

section \<open>Enumeration\<close>

definition active_pid_after :: "u64 \<Rightarrow> 'a task_state_scheme \<Rightarrow> u64 option" where
  "active_pid_after pid s =
     list_min (map p_pid (filter (\<lambda>p. p_state p \<in> {P_Ready, P_Running} \<and> p_pid p > pid) (PROCESSES s)))"

definition process_count :: "'a task_state_scheme \<Rightarrow> u64" where
  "process_count s = word_of_nat (length (filter (\<lambda>p. p_state p \<noteq> P_Empty) (PROCESSES s)))"

definition user_memory_total :: "'a task_state_scheme \<Rightarrow> u64" where
  "user_memory_total s =
     sum_list (map p_memory_bytes (filter (\<lambda>p. p_pid p \<noteq> 0 \<and> p_state p \<noteq> P_Empty) (PROCESSES s)))"

text \<open>\<open>pm\<close> is the frame allocator's state, \<open>kernel_ticks\<close> what \<open>kernel_cpu_ticks()\<close> reads.\<close>

definition process_info_of :: "pmm option \<Rightarrow> u64 \<Rightarrow> u64 \<Rightarrow> 'a task_state_scheme \<Rightarrow> process_info option" where
  "process_info_of pm kernel_ticks pid s =
     map_option (\<lambda>p.
         \<lparr>pi_pid = p_pid p, pi_state = p_state p, pi_image_name = p_image_name p,
          pi_start_tsc = p_start_tsc p, pi_entry = p_entry p, pi_stack_top = p_stack_top p, pi_step = p_step p,
          pi_cpu_ticks = (if p_pid p = 0 then kernel_ticks else cpu_ticks_for_pid (p_pid p) s),
          pi_memory_bytes =
            (if p_pid p = 0
             then saturating_sub (case stats pm of Some st \<Rightarrow> word_of_nat (used_kib st) * 1024 | None \<Rightarrow> 0)
                    (user_memory_total s)
             else p_memory_bytes p),
          pi_parent = p_parent p\<rparr>)
       (List.find (\<lambda>p. p_pid p = pid \<and> p_state p \<noteq> P_Empty) (PROCESSES s))"

definition first_pid :: "'a task_state_scheme \<Rightarrow> u64 option" where
  "first_pid s = map_option p_pid (List.find (\<lambda>p. p_state p \<noteq> P_Empty) (PROCESSES s))"

definition next_pid_after :: "u64 \<Rightarrow> 'a task_state_scheme \<Rightarrow> u64 option" where
  "next_pid_after pid s = list_min (map p_pid (filter (\<lambda>p. p_state p \<noteq> P_Empty \<and> p_pid p > pid) (PROCESSES s)))"

definition process_active_count :: "'a task_state_scheme \<Rightarrow> u64" where
  "process_active_count s =
     word_of_nat (length (filter (\<lambda>p. p_state p \<in> {P_Ready, P_Running, P_Sleeping}) (PROCESSES s)))"

end
