(* ===== verification/Scheduler.thy ===== *)
theory Scheduler
  imports Process_Table
begin

text \<open>
  The scheduler of \<open>task/scheduler.rs\<close> (round-robin choice, context save and restore, the stack
  frames it builds and \<open>enter_next_process\<close>), the per-CPU scratch values of \<open>syscall/context.rs\<close>, and
  the assembly stubs of \<open>syscall.rs\<close> and \<open>handlers/interrupts.rs\<close> that push and pop these frames.

  A register file is a function from register names; \<open>push\<close> and \<open>pop\<close> move words between it and the
  memory of the machine. The processor's part of an interrupt is the five words it pushes (\<open>ss\<close>,
  \<open>rsp\<close>, \<open>rflags\<close>, \<open>cs\<close>, \<open>rip\<close>) and that \<open>iretq\<close> pops.
\<close>

section \<open>Per-CPU scratch values\<close>

definition exiting_pid_tmp :: "'a task_state_scheme \<Rightarrow> u64" where
  "exiting_pid_tmp s = EXITING_PID_TMPS s (cpu_idx s)"

definition set_exiting_pid_tmp :: "u64 \<Rightarrow> 'a task_state_scheme \<Rightarrow> 'a task_state_scheme" where
  "set_exiting_pid_tmp v s = s\<lparr>EXITING_PID_TMPS := (EXITING_PID_TMPS s)(cpu_idx s := v)\<rparr>"

definition kernel_return_stack :: "'a task_state_scheme \<Rightarrow> u64" where
  "kernel_return_stack s = KERNEL_RETURN_STACKS s (cpu_idx s)"

definition set_kernel_return_stack :: "u64 \<Rightarrow> 'a task_state_scheme \<Rightarrow> 'a task_state_scheme" where
  "set_kernel_return_stack v s = s\<lparr>KERNEL_RETURN_STACKS := (KERNEL_RETURN_STACKS s)(cpu_idx s := v)\<rparr>"

definition blocking_rsp_tmp :: "'a task_state_scheme \<Rightarrow> u64" where
  "blocking_rsp_tmp s = BLOCKING_RSP_TMPS s (cpu_idx s)"

definition set_blocking_rsp_tmp :: "u64 \<Rightarrow> 'a task_state_scheme \<Rightarrow> 'a task_state_scheme" where
  "set_blocking_rsp_tmp v s = s\<lparr>BLOCKING_RSP_TMPS := (BLOCKING_RSP_TMPS s)(cpu_idx s := v)\<rparr>"

definition set_kernel_stack_top :: "u64 \<Rightarrow> 'a task_state_scheme \<Rightarrow> 'a task_state_scheme" where
  "set_kernel_stack_top rsp0 s =
     (if cpu_idx s < MAX_CPUS then s\<lparr>tss_rsp0 := (tss_rsp0 s)(cpu_idx s := rsp0)\<rparr> else s)"

section \<open>Choosing the next thread\<close>

definition sched_ready :: "nat \<Rightarrow> thread \<Rightarrow> bool" where
  "sched_ready cpu t \<longleftrightarrow> t_assigned_cpu t = cpu \<and> t_state t = T_Ready"

definition schedule_next :: "u64 \<Rightarrow> 'a task_state_scheme \<Rightarrow> u64" where
  "schedule_next cur s =
     (let cpu = cpu_idx s; threads = THREADS s
      in case list_min (map t_tid (filter (\<lambda>t. sched_ready cpu t \<and> t_tid t > cur) threads)) of
           Some tid \<Rightarrow> tid
         | None \<Rightarrow> (case list_min (map t_tid (filter (sched_ready cpu) threads)) of Some tid \<Rightarrow> tid | None \<Rightarrow> 0))"

section \<open>Frames\<close>

definition KERNEL_CODE :: u64 where "KERNEL_CODE = 0x08"
definition KERNEL_DATA :: u64 where "KERNEL_DATA = 0x10"
definition USER_CODE :: u64 where "USER_CODE = 0x1b"
definition USER_DATA :: u64 where "USER_DATA = 0x23"

record interrupt_frame =
  f_r15 :: u64
  f_r14 :: u64
  f_r13 :: u64
  f_r12 :: u64
  f_rbp :: u64
  f_rbx :: u64
  f_r11 :: u64
  f_r10 :: u64
  f_r9 :: u64
  f_r8 :: u64
  f_rdi :: u64
  f_rsi :: u64
  f_rdx :: u64
  f_rcx :: u64
  f_rax :: u64
  f_rip :: u64
  f_cs :: u64
  f_rflags :: u64
  f_rsp :: u64
  f_ss :: u64

text \<open>\<open>&*(frame_ptr as *const InterruptFrame)\<close>: the fields are consecutive words.\<close>

definition frame_at :: "(u64 \<Rightarrow> u64) \<Rightarrow> u64 \<Rightarrow> interrupt_frame" where
  "frame_at m p =
     (let w = frame_word m p
      in \<lparr>f_r15 = w 0, f_r14 = w 1, f_r13 = w 2, f_r12 = w 3, f_rbp = w 4, f_rbx = w 5, f_r11 = w 6,
          f_r10 = w 7, f_r9 = w 8, f_r8 = w 9, f_rdi = w 10, f_rsi = w 11, f_rdx = w 12, f_rcx = w 13,
          f_rax = w 14, f_rip = w 15, f_cs = w 16, f_rflags = w 17, f_rsp = w 18, f_ss = w 19\<rparr>)"

definition save_user_context :: "u64 \<Rightarrow> u64 \<Rightarrow> 'a task_state_scheme \<Rightarrow> 'a task_state_scheme" where
  "save_user_context tid frame_ptr s =
     (let frame = frame_at (kmem s) frame_ptr
      in case thread_user_context tid s of
           None \<Rightarrow> s
         | Some ctx \<Rightarrow>
             thread_set_user_context tid
               (ctx\<lparr>u_rax := f_rax frame, u_rcx := f_rcx frame, u_rdx := f_rdx frame, u_rsi := f_rsi frame,
                    u_rdi := f_rdi frame, u_r8 := f_r8 frame, u_r9 := f_r9 frame, u_r10 := f_r10 frame,
                    u_r11 := f_r11 frame, u_rbx := f_rbx frame, u_rbp := f_rbp frame, u_r12 := f_r12 frame,
                    u_r13 := f_r13 frame, u_r14 := f_r14 frame, u_r15 := f_r15 frame, u_rip := f_rip frame,
                    u_rsp := f_rsp frame, u_rflags := f_rflags frame, u_kernel_rsp := frame_ptr\<rparr>) s)"

definition save_kernel_context :: "u64 \<Rightarrow> u64 \<Rightarrow> 'a task_state_scheme \<Rightarrow> 'a task_state_scheme" where
  "save_kernel_context tid saved_rsp = thread_set_kernel_rsp tid saved_rsp"

definition user_return_stack_top :: "'a task_state_scheme \<Rightarrow> u64" where
  "user_return_stack_top s = USER_RETURN_STACKS s + word_of_nat (cpu_idx s) * 16384 + 16384"

definition setup_user_frame_on_temp_stack :: "user_context \<Rightarrow> 'a task_state_scheme \<Rightarrow> u64 \<times> 'a task_state_scheme" where
  "setup_user_frame_on_temp_stack ctx s =
     (let frame_bottom = user_return_stack_top s - 160
      in (frame_bottom,
          poke_words frame_bottom
            [u_rax ctx, u_rcx ctx, u_rdx ctx, u_rsi ctx, u_rdi ctx, u_r8 ctx, u_r9 ctx, u_r10 ctx, u_r11 ctx,
             u_rbx ctx, u_rbp ctx, u_r12 ctx, u_r13 ctx, u_r14 ctx, u_r15 ctx, u_rip ctx,
             USER_CODE, u_rflags ctx OR 0x200, u_rsp ctx, USER_DATA] s))"

definition setup_user_frame_for_timer_on_temp_stack :: "user_context \<Rightarrow> 'a task_state_scheme \<Rightarrow> u64 \<times> 'a task_state_scheme" where
  "setup_user_frame_for_timer_on_temp_stack ctx s =
     (let frame_bottom = user_return_stack_top s - 160
      in (frame_bottom,
          poke_words frame_bottom
            [u_r15 ctx, u_r14 ctx, u_r13 ctx, u_r12 ctx, u_rbp ctx, u_rbx ctx, u_r11 ctx, u_r10 ctx, u_r9 ctx,
             u_r8 ctx, u_rdi ctx, u_rsi ctx, u_rdx ctx, u_rcx ctx, u_rax ctx, u_rip ctx,
             USER_CODE, u_rflags ctx OR 0x200, u_rsp ctx, USER_DATA] s))"

definition setup_idle_frame_on_temp_stack :: "'a task_state_scheme \<Rightarrow> u64 \<times> 'a task_state_scheme" where
  "setup_idle_frame_on_temp_stack s =
     (let frame_bottom = user_return_stack_top s - 160;
          idle_rsp = (if kernel_return_stack s = 0 then frame_bottom else kernel_return_stack s)
      in (frame_bottom,
          poke_words frame_bottom
            (replicate 15 0 @ [idle_loop_addr s, KERNEL_CODE, 0x200, idle_rsp, KERNEL_DATA]) s))"

definition restore_user_frame :: "u64 \<Rightarrow> user_context \<Rightarrow> 'a task_state_scheme \<Rightarrow> 'a task_state_scheme" where
  "restore_user_frame frame_ptr ctx =
     poke_words frame_ptr
       [u_r15 ctx, u_r14 ctx, u_r13 ctx, u_r12 ctx, u_rbp ctx, u_rbx ctx, u_r11 ctx, u_r10 ctx, u_r9 ctx,
        u_r8 ctx, u_rdi ctx, u_rsi ctx, u_rdx ctx, u_rcx ctx, u_rax ctx, u_rip ctx,
        USER_CODE, u_rflags ctx, u_rsp ctx, USER_DATA]"

section \<open>The assembly stubs\<close>

datatype reg = RAX | RBX | RCX | RDX | RSI | RDI | RBP | R8 | R9 | R10 | R11 | R12 | R13 | R14 | R15

text \<open>What the processor saves on an interrupt and \<open>iretq\<close> loads.\<close>

record iret_frame =
  i_rip :: u64
  i_cs :: u64
  i_rflags :: u64
  i_rsp :: u64
  i_ss :: u64

primrec push_words :: "u64 list \<Rightarrow> u64 \<Rightarrow> (u64 \<Rightarrow> u64) \<Rightarrow> u64 \<times> (u64 \<Rightarrow> u64)" where
  "push_words [] rsp m = (rsp, m)"
| "push_words (v # vs) rsp m = push_words vs (rsp - 8) (m(rsp - 8 := v))"

primrec pop_regs :: "reg list \<Rightarrow> u64 \<Rightarrow> (u64 \<Rightarrow> u64) \<Rightarrow> (reg \<Rightarrow> u64) \<Rightarrow> u64 \<times> (reg \<Rightarrow> u64)" where
  "pop_regs [] rsp m r = (rsp, r)"
| "pop_regs (x # xs) rsp m r = pop_regs xs (rsp + 8) m (r(x := m rsp))"

definition iretq :: "u64 \<Rightarrow> (u64 \<Rightarrow> u64) \<Rightarrow> iret_frame" where
  "iretq rsp m =
     \<lparr>i_rip = m rsp, i_cs = m (rsp + 8), i_rflags = m (rsp + 16), i_rsp = m (rsp + 24), i_ss = m (rsp + 32)\<rparr>"

definition cpu_pushes :: "iret_frame \<Rightarrow> u64 list" where
  "cpu_pushes i = [i_ss i, i_rsp i, i_rflags i, i_cs i, i_rip i]"

text \<open>\<open>timer_handler_asm\<close>: the fifteen pushes, and the pops of its epilogue.\<close>

definition timer_pushes :: "reg list" where
  "timer_pushes = [RAX, RCX, RDX, RSI, RDI, R8, R9, R10, R11, RBX, RBP, R12, R13, R14, R15]"

definition timer_pops :: "reg list" where
  "timer_pops = [R15, R14, R13, R12, RBP, RBX, R11, R10, R9, R8, RDI, RSI, RDX, RCX, RAX]"

text \<open>\<open>syscall_int80_asm\<close>.\<close>

definition int80_pushes :: "reg list" where
  "int80_pushes = [RBP, RBX, RCX, RDX, RSI, RDI, R8, R9, R10, R11, R12, R13, R14, R15]"

definition int80_pops :: "reg list" where
  "int80_pops = [R15, R14, R13, R12, R11, R10, R9, R8, RDI, RSI, RDX, RCX, RBX, RBP]"

text \<open>The first entry into user mode in \<open>enter_next_process\<close>.\<close>

definition user_entry_pops :: "reg list" where
  "user_entry_pops = [RAX, RCX, RDX, RSI, RDI, R8, R9, R10, R11, RBX, RBP, R12, R13, R14, R15]"

text \<open>An entry stub: the processor's words, then the stub's pushes; an exit: the stub's pops, then \<open>iretq\<close>.\<close>

definition stub_entry :: "reg list \<Rightarrow> iret_frame \<Rightarrow> (reg \<Rightarrow> u64) \<Rightarrow> u64 \<Rightarrow> (u64 \<Rightarrow> u64) \<Rightarrow> u64 \<times> (u64 \<Rightarrow> u64)" where
  "stub_entry pushes i r rsp0 m = push_words (cpu_pushes i @ map r pushes) rsp0 m"

definition stub_exit :: "reg list \<Rightarrow> u64 \<Rightarrow> (u64 \<Rightarrow> u64) \<Rightarrow> (reg \<Rightarrow> u64) \<Rightarrow> (reg \<Rightarrow> u64) \<times> iret_frame" where
  "stub_exit pops rsp m r = (let (rsp', r') = pop_regs pops rsp m r in (r', iretq rsp' m))"

section \<open>\<open>enter_next_process\<close>\<close>

text \<open>How the function leaves: with which stack pointer and pops it returns to a thread, or that it halts.\<close>

datatype entered =
    Resume_Blocked u64 u64
  | Resume_Kernel u64
  | Enter_User u64
  | Wrong_Cpu
  | Halted

text \<open>One round of the wait loop: \<open>None\<close> is the \<open>hlt\<close> of an idle CPU, after which the loop starts again.\<close>

definition wait_round :: "'a task_state_scheme \<Rightarrow> u64 option \<times> 'a task_state_scheme" where
  "wait_round s =
     (let t = schedule_next 0 s
      in if t \<noteq> 0 then (Some t, s)
         else (None, set_current_user_tid None (clear_current_pid (set_idle True s))))"

definition load_cr3 :: "u64 \<Rightarrow> 'a task_state_scheme \<Rightarrow> 'a task_state_scheme" where
  "load_cr3 cr3 s = (if cr3 \<noteq> 0 then set_vm (switch_cr3 cr3 (vm (mach s))) s else s)"

definition load_stack_top :: "u64 \<Rightarrow> 'a task_state_scheme \<Rightarrow> 'a task_state_scheme" where
  "load_stack_top tid s =
     (case thread_kernel_stack_top tid s of Some stack_top \<Rightarrow> set_kernel_stack_top stack_top s | None \<Rightarrow> s)"

definition resume_kernel :: "u64 \<Rightarrow> u64 \<Rightarrow> 'a task_state_scheme \<Rightarrow> 'a task_state_scheme" where
  "resume_kernel tid pid s =
     process_set_running pid
       (load_stack_top tid
         (case thread_user_context tid s of
            Some ctx \<Rightarrow> set_current_user_tid (Some tid) (load_cr3 (u_cr3 ctx) s)
          | None \<Rightarrow> set_current_user_tid None s))"

definition enter_thread :: "u64 \<Rightarrow> 'a task_state_scheme \<Rightarrow> entered \<times> 'a task_state_scheme" where
  "enter_thread tid s =
     (let pid = (case thread_pid tid s of Some p \<Rightarrow> p | None \<Rightarrow> 0)
      in case thread_take_blocking_rsp tid s of
           (Some blocking_rsp, s1) \<Rightarrow>
             (let (retval, s2) = thread_take_blocking_retval tid s1;
                  s3 = (case thread_user_context tid s2 of Some ctx \<Rightarrow> load_cr3 (u_cr3 ctx) s2 | None \<Rightarrow> s2);
                  s4 = load_stack_top tid (set_current_user_tid (Some tid) s3)
              in (Resume_Blocked blocking_rsp retval, process_set_running pid s4))
         | (None, s1) \<Rightarrow>
             (case (thread_is_kernel_preempted tid s1, thread_kernel_rsp tid s1) of
                (True, Some kernel_rsp) \<Rightarrow> (Resume_Kernel kernel_rsp, resume_kernel tid pid s1)
              | _ \<Rightarrow>
                  (case thread_user_context tid s1 of
                     Some ctx \<Rightarrow>
                       (let s2 = load_stack_top tid (set_current_user_tid (Some tid) (load_cr3 (u_cr3 ctx) s1));
                            (temp_rsp, s3) = setup_user_frame_on_temp_stack ctx (process_set_running pid s2)
                        in (Enter_User temp_rsp, s3))
                   | None \<Rightarrow>
                       (case thread_kernel_rsp tid s1 of
                          Some kernel_rsp \<Rightarrow>
                            (Resume_Kernel kernel_rsp, process_set_running pid (set_current_user_tid None s1))
                        | None \<Rightarrow> (Halted, s1)))))"

definition enter_next_process :: "'a task_state_scheme \<Rightarrow> entered option \<times> 'a task_state_scheme" where
  "enter_next_process s =
     (case wait_round s of
        (None, s1) \<Rightarrow> (None, s1)
      | (Some t, s1) \<Rightarrow>
          (case thread_assigned_cpu t s1 of
             Some ac \<Rightarrow>
               if ac \<noteq> cpu_idx s1 then (Some Wrong_Cpu, s1)
               else (let (e, s2) = enter_thread t s1 in (Some e, s2))
           | None \<Rightarrow> (let (e, s2) = enter_thread t s1 in (Some e, s2))))"

section \<open>The ends of a system call\<close>

definition EXIT_TO_KERNEL :: u64 where "EXIT_TO_KERNEL = u64_max - 1"
definition BLOCK_TO_SCHEDULER :: u64 where "BLOCK_TO_SCHEDULER = u64_max - 2"

definition kernel_cr3_of :: "'a task_state_scheme \<Rightarrow> u64" where
  "kernel_cr3_of s = kernel_pml4 (vm (mach s))"

text \<open>\<open>syscall_block_fn\<close> up to its call of \<open>enter_next_process\<close>.\<close>

definition syscall_block_fn :: "'a task_state_scheme \<Rightarrow> 'a task_state_scheme" where
  "syscall_block_fn s =
     (let s1 = set_vm (switch_cr3 (kernel_cr3_of s) (vm (mach s))) s;
          s2 = (case current_user_tid s1 of
                  Some tid \<Rightarrow> thread_set_blocking_rsp tid (blocking_rsp_tmp s1) s1
                | None \<Rightarrow> s1)
      in clear_current_pid (set_current_user_pid None s2))"

end
