(* ===== verification/Task_Invariant.thy ===== *)
theory Task_Invariant
  imports Scheduler
begin

text \<open>
  The invariant of the task subsystem and that every operation keeps it. It ties four structures
  together: the thread table, the thread lists of the processes, the threads current on each CPU,
  and the kernel heap that holds the stacks.

  Most operations change only fields the invariant does not look at. Its footprint is the tuple
  \<open>skel\<close>; such an operation is covered by one equation \<open>skel (op s) = skel s\<close> in the collection
  \<open>skel_simps\<close>.
\<close>

section \<open>The invariant\<close>

definition owner :: "'a task_state_scheme \<Rightarrow> (u64 \<times> u64) set" where
  "owner s = (\<lambda>t. (t_tid t, t_pid t)) ` set (THREADS s)"

definition listed :: "'a task_state_scheme \<Rightarrow> (u64 \<times> u64) set" where
  "listed s = (\<Union>p \<in> set (PROCESSES s). (\<lambda>tid. (tid, p_pid p)) ` set (p_threads p))"

text \<open>A thread in the table has a number below the counter and has not exited.\<close>

definition threads_ok :: "'a task_state_scheme \<Rightarrow> bool" where
  "threads_ok s \<longleftrightarrow> threads_INITIALIZED s \<and> 0 < NEXT_TID s \<and> distinct (map t_tid (THREADS s))
     \<and> (\<forall>t \<in> set (THREADS s). 0 < t_tid t \<and> t_tid t < NEXT_TID s \<and> t_state t \<notin> {T_Empty, T_Exited})"

text \<open>The process numbers are distinct; process 0 is the kernel's and has no threads of its own.\<close>

definition procs_ok :: "'a task_state_scheme \<Rightarrow> bool" where
  "procs_ok s \<longleftrightarrow> processes_INITIALIZED s \<and> 0 < NEXT_PID s \<and> distinct (map p_pid (PROCESSES s))
     \<and> (\<forall>p \<in> set (PROCESSES s). p_pid p < NEXT_PID s \<and> distinct (p_threads p) \<and> (p_pid p = 0 \<longrightarrow> p_threads p = []))"

text \<open>The current thread of a CPU is in the table, pinned to that CPU, and of the CPU's current process.\<close>

definition cpus_ok :: "'a task_state_scheme \<Rightarrow> bool" where
  "cpus_ok s \<longleftrightarrow> cpu_idx s < MAX_CPUS
     \<and> (\<forall>c. CURRENT_USER_TID s c = None \<longrightarrow> CURRENT_USER_PID s c = None)
     \<and> (\<forall>c tid. CURRENT_USER_TID s c = Some tid \<longrightarrow>
          (\<exists>t \<in> set (THREADS s). t_tid t = tid \<and> t_assigned_cpu t = c \<and> CURRENT_USER_PID s c = Some (t_pid t)))"

lemma cpus_okE:
  assumes "cpus_ok s" and "CURRENT_USER_TID s c = Some tid"
  obtains t where "t \<in> set (THREADS s)" and "t_tid t = tid" and "t_assigned_cpu t = c"
    and "CURRENT_USER_PID s c = Some (t_pid t)"
proof -
  have "\<exists>t \<in> set (THREADS s). t_tid t = tid \<and> t_assigned_cpu t = c \<and> CURRENT_USER_PID s c = Some (t_pid t)"
    using assms by (simp add: cpus_ok_def)
  then show thesis by (elim bexE conjE) (rule that)
qed

lemma cpus_okI:
  assumes "cpu_idx s < MAX_CPUS" and "\<And>c. CURRENT_USER_TID s c = None \<Longrightarrow> CURRENT_USER_PID s c = None"
    and "\<And>c tid. CURRENT_USER_TID s c = Some tid \<Longrightarrow>
      \<exists>t. t \<in> set (THREADS s) \<and> t_tid t = tid \<and> t_assigned_cpu t = c \<and> CURRENT_USER_PID s c = Some (t_pid t)"
  shows "cpus_ok s"
  using assms by (simp add: cpus_ok_def Bex_def)

lemma cpus_ok_mono:
  assumes "cpus_ok s" and "cpu_idx s' = cpu_idx s" and "CURRENT_USER_PID s' = CURRENT_USER_PID s"
    and "CURRENT_USER_TID s' = CURRENT_USER_TID s" and "set (THREADS s) \<subseteq> set (THREADS s')"
  shows "cpus_ok s'"
proof (rule cpus_okI)
  show "cpu_idx s' < MAX_CPUS" using assms(1,2) by (simp add: cpus_ok_def)
  show "CURRENT_USER_TID s' c = None \<Longrightarrow> CURRENT_USER_PID s' c = None" for c
    using assms(1,3,4) by (simp add: cpus_ok_def)
  fix c tid
  assume "CURRENT_USER_TID s' c = Some tid"
  with assms(4) have "CURRENT_USER_TID s c = Some tid" by simp
  then obtain t where t: "t \<in> set (THREADS s)" "t_tid t = tid" "t_assigned_cpu t = c" "CURRENT_USER_PID s c = Some (t_pid t)"
    by (rule cpus_okE[OF assms(1)])
  with assms(3,5) show "\<exists>t. t \<in> set (THREADS s') \<and> t_tid t = tid \<and> t_assigned_cpu t = c \<and> CURRENT_USER_PID s' c = Some (t_pid t)"
    by (intro exI[of _ t]) (simp add: subsetD)
qed

text \<open>
  The kernel stacks in use, by a thread of the table or waiting to be freed by a CPU, are different
  live blocks of the heap.
\<close>

definition stack_bases :: "'a task_state_scheme \<Rightarrow> u64 list" where
  "stack_bases s = map t_kernel_stack_base (THREADS s)
     @ filter (\<lambda>b. b \<noteq> 0) (map (PENDING_STACK_FREE s) [0 ..< MAX_CPUS])"

definition stacks_ok :: "nat set \<Rightarrow> 'a task_state_scheme \<Rightarrow> bool" where
  "stacks_ok R s \<longleftrightarrow> heap_inv R (kheap_of s) \<and> R \<subseteq> {..< 2 ^ 64} \<and> distinct (stack_bases s)
     \<and> (\<forall>b \<in> set (stack_bases s). b \<noteq> 0 \<and> unat b \<in> fst ` set (live (kheap_of s)))"

lemma stacks_ok_cong:
  assumes "kheap_of s' = kheap_of s" and "stack_bases s' = stack_bases s"
  shows "stacks_ok R s' \<longleftrightarrow> stacks_ok R s"
  unfolding stacks_ok_def assms ..

definition base_inv :: "nat set \<Rightarrow> 'a task_state_scheme \<Rightarrow> bool" where
  "base_inv R s \<longleftrightarrow> threads_ok s \<and> procs_ok s \<and> cpus_ok s \<and> stacks_ok R s"

text \<open>A thread belongs to exactly the process that lists it.\<close>

definition task_inv :: "nat set \<Rightarrow> 'a task_state_scheme \<Rightarrow> bool" where
  "task_inv R s \<longleftrightarrow> base_inv R s \<and> owner s = listed s"

section \<open>Operations outside the footprint\<close>

definition tkey :: "thread \<Rightarrow> u64 \<times> u64 \<times> bool \<times> u64 \<times> nat" where
  "tkey t = (t_tid t, t_pid t, t_state t \<in> {T_Empty, T_Exited}, t_kernel_stack_base t, t_assigned_cpu t)"

definition pkey :: "process \<Rightarrow> u64 \<times> u64 list" where
  "pkey p = (p_pid p, p_threads p)"

definition skel where
  "skel s = (map tkey (THREADS s), map pkey (PROCESSES s),
     (NEXT_TID s, NEXT_PID s, threads_INITIALIZED s, processes_INITIALIZED s),
     (CURRENT_USER_PID s, CURRENT_USER_TID s, PENDING_STACK_FREE s, kheap_of s, cpu_idx s))"

named_theorems skel_simps \<open>operations that do not touch what the invariant looks at\<close>

lemma tkey_map:
  "map t_tid T = map fst (map tkey T)"
  "map t_kernel_stack_base T = map (\<lambda>(_, _, _, b, _). b) (map tkey T)"
  "(\<lambda>t. (t_tid t, t_pid t)) ` set T = (\<lambda>(i, p, _). (i, p)) ` set (map tkey T)"
  by (auto simp: tkey_def image_iff)

lemma pkey_map:
  "map p_pid P = map fst (map pkey P)"
  "(\<Union>p \<in> set P. (\<lambda>tid. (tid, p_pid p)) ` set (p_threads p))
     = (\<Union>k \<in> set (map pkey P). (\<lambda>tid. (tid, fst k)) ` set (snd k))"
  by (auto simp: pkey_def)

lemma ball_tkey:
  "(\<forall>t \<in> set T. 0 < t_tid t \<and> t_tid t < n \<and> t_state t \<notin> {T_Empty, T_Exited})
     \<longleftrightarrow> (\<forall>k \<in> set (map tkey T). 0 < fst k \<and> fst k < n \<and> \<not> fst (snd (snd k)))"
  by (auto simp: tkey_def)

lemma bex_tkey:
  "(\<exists>t \<in> set T. t_tid t = tid \<and> t_assigned_cpu t = c \<and> pp = Some (t_pid t))
     \<longleftrightarrow> (\<exists>k \<in> set (map tkey T). fst k = tid \<and> snd (snd (snd (snd k))) = c \<and> pp = Some (fst (snd k)))"
  by (auto simp: tkey_def)

lemma ball_pkey:
  "(\<forall>p \<in> set P. p_pid p < n \<and> distinct (p_threads p) \<and> (p_pid p = 0 \<longrightarrow> p_threads p = []))
     \<longleftrightarrow> (\<forall>k \<in> set (map pkey P). fst k < n \<and> distinct (snd k) \<and> (fst k = 0 \<longrightarrow> snd k = []))"
  by (auto simp: pkey_def)

lemma skel_cong:
  assumes "skel s' = skel s"
  shows "base_inv R s' = base_inv R s" and "owner s' = owner s" and "listed s' = listed s"
    and "task_inv R s' = task_inv R s"
    and "threads_ok s' = threads_ok s" and "procs_ok s' = procs_ok s" and "cpus_ok s' = cpus_ok s"
proof -
  have eq: "map tkey (THREADS s') = map tkey (THREADS s)" "map pkey (PROCESSES s') = map pkey (PROCESSES s)"
    "NEXT_TID s' = NEXT_TID s" "NEXT_PID s' = NEXT_PID s" "threads_INITIALIZED s' = threads_INITIALIZED s"
    "processes_INITIALIZED s' = processes_INITIALIZED s" "CURRENT_USER_PID s' = CURRENT_USER_PID s"
    "CURRENT_USER_TID s' = CURRENT_USER_TID s" "PENDING_STACK_FREE s' = PENDING_STACK_FREE s"
    "kheap_of s' = kheap_of s" "cpu_idx s' = cpu_idx s"
    using assms by (simp_all add: skel_def)
  have "threads_ok s' = threads_ok s" unfolding threads_ok_def ball_tkey unfolding tkey_map eq ..
  moreover have "procs_ok s' = procs_ok s" unfolding procs_ok_def ball_pkey unfolding pkey_map eq ..
  moreover have "cpus_ok s' = cpus_ok s" unfolding cpus_ok_def bex_tkey unfolding eq ..
  moreover have "stacks_ok R s' = stacks_ok R s" unfolding stacks_ok_def stack_bases_def unfolding tkey_map eq ..
  ultimately show b: "base_inv R s' = base_inv R s"
    and "threads_ok s' = threads_ok s" and "procs_ok s' = procs_ok s" and "cpus_ok s' = cpus_ok s"
    by (simp_all add: base_inv_def)
  show o: "owner s' = owner s" unfolding owner_def tkey_map eq ..
  show l: "listed s' = listed s" unfolding listed_def pkey_map eq ..
  show "task_inv R s' = task_inv R s" unfolding task_inv_def b o l ..
qed

lemma map_tkey_upd: "(\<And>t. tkey (f t) = tkey t) \<Longrightarrow> map tkey (update_first P f T) = map tkey T"
  by (rule map_update_first)

lemma skel_upd_thread [skel_simps]: "(\<And>t. tkey (f t) = tkey t) \<Longrightarrow> skel (upd_thread tid f s) = skel s"
  by (simp add: skel_def upd_thread_def map_tkey_upd)

lemma skel_upd_process [skel_simps]: "(\<And>p. pkey (f p) = pkey p) \<Longrightarrow> skel (upd_process pid f s) = skel s"
  by (simp add: skel_def upd_process_def map_update_first)

lemma skel_set_vm [skel_simps]:
  "kh v = kheap_of s \<Longrightarrow> this_cpu v = cpu_idx s \<Longrightarrow> skel (set_vm v s) = skel s"
  by (simp add: skel_def set_vm_def)

lemma tkey_restore [simp]: "tkey (restore_ctx_from_blocking_frame m r t) = tkey t"
  by (simp add: restore_ctx_from_blocking_frame_def tkey_def Let_def)

lemma tkey_wake [simp]: "t_state t \<notin> {T_Empty, T_Exited} \<Longrightarrow> tkey (wake_with m r t) = tkey t"
  by (simp add: wake_with_def tkey_def restore_ctx_from_blocking_frame_def Let_def)

lemma skel_thread_fields [skel_simps]:
  "skel (thread_set_user_context tid ctx s) = skel s"
  "skel (thread_set_kernel_rsp tid rsp s) = skel s"
  "skel (thread_set_running tid s) = skel s"
  "skel (thread_set_ready tid s) = skel s"
  "skel (thread_set_sleeping tid s) = skel s"
  "skel (thread_set_kernel_preempted tid v s) = skel s"
  "skel (thread_set_blocking_rsp tid rsp s) = skel s"
  "skel (thread_set_wait_target tid w s) = skel s"
  "skel (thread_add_cpu_ticks tid n s) = skel s"
  "skel (thread_set_privilege tid l s) = skel s"
  unfolding thread_set_user_context_def thread_set_kernel_rsp_def thread_set_running_def thread_set_ready_def
    thread_set_sleeping_def thread_set_kernel_preempted_def thread_set_blocking_rsp_def thread_set_wait_target_def
    thread_add_cpu_ticks_def thread_set_privilege_def
  by (rule skel_upd_thread, auto simp: tkey_def)+

lemma skel_thread_take [skel_simps]:
  "skel (snd (thread_take_blocking_rsp tid s)) = skel s"
  "skel (snd (thread_take_blocking_retval tid s)) = skel s"
  "skel (snd (thread_apply_blocking_return_if_pending tid s)) = skel s"
  unfolding thread_take_blocking_rsp_def thread_take_blocking_retval_def thread_apply_blocking_return_if_pending_def
  by (auto split: option.splits intro!: skel_upd_thread simp: tkey_def restore_ctx_from_blocking_frame_def Let_def)

lemma skel_wake [skel_simps]:
  "(\<And>t. P t \<Longrightarrow> t_state t = T_Sleeping) \<Longrightarrow> skel (wake_all P r s) = skel s"
  "(\<And>t. P t \<Longrightarrow> t_state t = T_Sleeping) \<Longrightarrow> skel (snd (wake_first P r s)) = skel s"
proof -
  assume a: "\<And>t. P t \<Longrightarrow> t_state t = T_Sleeping"
  then have "tkey (if P t then wake_with m r t else t) = tkey t" for m t by simp
  then show "skel (wake_all P r s) = skel s" by (simp add: wake_all_def skel_def o_def)
  have "map tkey (update_first P (wake_with m r) T) = map tkey T" for m T
    using a by (induction T) auto
  then show "skel (snd (wake_first P r s)) = skel s" by (simp add: wake_first_def skel_def)
qed

lemma skel_wakeups [skel_simps]:
  "skel (snd (wakeup_key_waiters k s)) = skel s"
  "skel (snd (wakeup_key_waiter_for_pid pid k s)) = skel s"
  "skel (wakeup_pid_waiters pid s) = skel s"
  "skel (wakeup_thread_waiters tid s) = skel s"
  "skel (thread_wakeup_ipc_waiter tid r s) = skel s"
  "skel (snd (wakeup_irq_waiter irq s)) = skel s"
  "skel (wakeup_audio_waiters s) = skel s"
  "skel (wake_timer_sleepers now s) = skel s"
  "skel (wake_tick_sleepers s) = skel s"
  unfolding wakeup_key_waiters_def wakeup_key_waiter_for_pid_def wakeup_pid_waiters_def wakeup_thread_waiters_def
    thread_wakeup_ipc_waiter_def wakeup_irq_waiter_def wakeup_audio_waiters_def wake_timer_sleepers_def
    wake_tick_sleepers_def
  unfolding Let_def split_beta snd_conv
  by (rule skel_wake skel_upd_thread, simp)+

lemma skel_on_main [skel_simps]: "(\<And>tid s. skel (f tid s) = skel s) \<Longrightarrow> skel (on_main f pid s) = skel s"
  by (simp add: on_main_def split: option.splits)

lemma skel_interrupt_sleep [skel_simps]: "skel (interrupt_sleep tid s) = skel s"
  by (simp add: interrupt_sleep_def skel_simps)

lemma skel_process_fields [skel_simps]:
  "skel (signal_set_catch pid m s) = skel s"
  "skel (set_kill_pending pid s) = skel s"
  "skel (set_memory_bytes pid n s) = skel s"
  "skel (add_memory_bytes pid n s) = skel s"
  "skel (sub_memory_bytes pid n s) = skel s"
  "skel (set_winsize pid c r s) = skel s"
  "skel (set_parent pid q s) = skel s"
  "skel (set_background pid b s) = skel s"
  unfolding signal_set_catch_def set_kill_pending_def set_memory_bytes_def add_memory_bytes_def
    sub_memory_bytes_def set_winsize_def set_parent_def set_background_def
  by (rule skel_upd_process, simp add: pkey_def)+

lemma pkey_state [simp]: "pkey (if b then p\<lparr>p_state := x\<rparr> else p) = pkey p"
  by (simp add: pkey_def)

lemma pkey_mark_sigterm [simp]: "pkey (mark_sigterm p) = pkey p"
  by (simp add: mark_sigterm_def pkey_def)

lemma pkey_flags [simp]:
  "pkey (p\<lparr>p_kill_pending := b\<rparr>) = pkey p" "pkey (p\<lparr>p_sigint_pending := b\<rparr>) = pkey p"
  "pkey (p\<lparr>p_sigterm_pending := b\<rparr>) = pkey p" "pkey (p\<lparr>p_step := n\<rparr>) = pkey p"
  "pkey (p\<lparr>p_privilege := l\<rparr>) = pkey p"
  by (simp_all add: pkey_def)

lemma skel_kill_pid [skel_simps]: "skel (kill_pid pid s) = skel s"
  by (simp add: kill_pid_def skel_simps split: option.splits)

lemma skel_process_states [skel_simps]:
  "skel (process_set_ready pid s) = skel s"
  "skel (process_set_sleeping pid s) = skel s"
  "skel (process_set_running pid s) = skel s"
  "skel (process_set_privilege pid l s) = skel s"
  "skel (process_add_cpu_ticks pid n s) = skel s"
  "skel (send_sigint pid s) = skel s"
  "skel (send_driver_exit pid s) = skel s"
  "skel (send_sigterm pid s) = skel s"
  "skel (snd (signal_check_and_clear pid s)) = skel s"
  "skel (snd (process_step pid s)) = skel s"
  by (auto simp: process_set_ready_def process_set_sleeping_def process_set_running_def process_set_privilege_def
  process_add_cpu_ticks_def send_sigint_def send_driver_exit_def send_sigterm_def signal_check_and_clear_def
  process_step_def Let_def skel_simps split: option.splits)

lemma skel_fold [skel_simps]: "(\<And>x s. skel (f x s) = skel s) \<Longrightarrow> skel (fold f xs s) = skel s"
  by (induction xs arbitrary: s) auto

lemma skel_kill_children [skel_simps]: "skel (kill_children pid s) = skel s"
  by (simp add: kill_children_def skel_simps)

lemma skel_wake_mains [skel_simps]: "skel (wake_mains s) = skel s"
  unfolding wake_mains_def by (rule skel_fold) (simp add: skel_simps split: option.splits)

lemma skel_shutdown [skel_simps]:
  "skel (shutdown_sigterm_all s) = skel s" "skel (shutdown_sigkill_all s) = skel s"
proof -
  have "map pkey (map (\<lambda>p. if p_pid p = 0 then p else f p) P) = map pkey P" if "\<And>p. pkey (f p) = pkey p" for f P
    using that by simp
  then show "skel (shutdown_sigterm_all s) = skel s" "skel (shutdown_sigkill_all s) = skel s"
    unfolding shutdown_sigterm_all_def shutdown_sigkill_all_def skel_wake_mains by (simp_all add: skel_def)
qed

lemma skel_block [skel_simps]:
  "skel (block_current w s) = skel s" "skel (snd (join_current tid s)) = skel s"
  by (auto simp: block_current_def join_current_def skel_simps split: option.splits)

lemma skel_poke [skel_simps]: "skel (poke_words a vs s) = skel s"
  unfolding poke_words_def by (rule skel_set_vm) simp_all

lemma skel_scheduler [skel_simps]:
  "skel (set_idle b s) = skel s"
  "skel (set_exiting_pid_tmp v s) = skel s"
  "skel (set_kernel_return_stack v s) = skel s"
  "skel (set_blocking_rsp_tmp v s) = skel s"
  "skel (set_kernel_stack_top v s) = skel s"
  "skel (load_stack_top tid s) = skel s"
  "skel (load_cr3 c s) = skel s"
  "skel (save_user_context tid p s) = skel s"
  "skel (save_kernel_context tid p s) = skel s"
  "skel (restore_user_frame p ctx s) = skel s"
  "skel (snd (setup_user_frame_on_temp_stack ctx s)) = skel s"
  "skel (snd (setup_user_frame_for_timer_on_temp_stack ctx s)) = skel s"
  "skel (snd (setup_idle_frame_on_temp_stack s)) = skel s"
proof -
  show t: "skel (set_kernel_stack_top v s) = skel s" for v s
    by (simp add: set_kernel_stack_top_def skel_def)
  show "skel (load_stack_top tid s) = skel s"
    by (simp add: load_stack_top_def t split: option.splits)
  show "skel (load_cr3 c s) = skel s"
    by (simp add: load_cr3_def skel_set_vm switch_cr3_def)
  show "skel (save_user_context tid p s) = skel s"
    by (simp add: save_user_context_def Let_def skel_thread_fields split: option.splits)
qed (simp_all add: set_idle_def set_exiting_pid_tmp_def set_kernel_return_stack_def set_blocking_rsp_tmp_def
  save_kernel_context_def skel_thread_fields restore_user_frame_def skel_poke setup_user_frame_on_temp_stack_def
  setup_user_frame_for_timer_on_temp_stack_def setup_idle_frame_on_temp_stack_def Let_def skel_def[of "s\<lparr>IS_IDLE := _\<rparr>"]
  skel_def[of "s\<lparr>EXITING_PID_TMPS := _\<rparr>"] skel_def[of "s\<lparr>KERNEL_RETURN_STACKS := _\<rparr>"]
  skel_def[of "s\<lparr>BLOCKING_RSP_TMPS := _\<rparr>"] skel_def[of s])

section \<open>Kernel stacks\<close>

lemma pending_stacks:
  "distinct (filter (\<lambda>b. b \<noteq> 0) (map f [0 ..< n])) \<longleftrightarrow> inj_on f {c. c < n \<and> f c \<noteq> (0 :: u64)}"
  "set (filter (\<lambda>b. b \<noteq> 0) (map f [0 ..< n])) = f ` {c. c < n \<and> f c \<noteq> 0}"
  by (auto simp: filter_map distinct_map)

lemma stack_bases_iff:
  "distinct (stack_bases s) \<longleftrightarrow> distinct (map t_kernel_stack_base (THREADS s))
     \<and> inj_on (PENDING_STACK_FREE s) {c. c < MAX_CPUS \<and> PENDING_STACK_FREE s c \<noteq> 0}
     \<and> t_kernel_stack_base ` set (THREADS s) \<inter> PENDING_STACK_FREE s ` {c. c < MAX_CPUS \<and> PENDING_STACK_FREE s c \<noteq> 0} = {}"
  "set (stack_bases s) = t_kernel_stack_base ` set (THREADS s)
     \<union> PENDING_STACK_FREE s ` {c. c < MAX_CPUS \<and> PENDING_STACK_FREE s c \<noteq> 0}"
  unfolding stack_bases_def distinct_append set_append set_map pending_stacks by auto

lemma live_fresh:
  assumes "heap_inv R h" and "alloc cpu lsize (2 ^ k) h = (Some p, h')" and "0 < lsize"
  shows "p \<notin> fst ` set (live h)" and "p \<in> R" and "fst ` set (live h') = insert p (fst ` set (live h))" and "0 < p"
proof -
  note a = alloc_ok[OF assms(1) refl assms(2)]
  have m: "p \<in> {p - ALLOC_HEADER ..< p + lsize}" using assms(3) by simp
  with a(3) show "p \<in> R" by blast
  show "p \<notin> fst ` set (live h)"
  proof
    assume "p \<in> fst ` set (live h)"
    then obtain b where e: "(p, b) \<in> set (live h)" by auto
    with assms(1) have "p \<in> span b"
      by (auto simp: heap_inv_def heap_inv_with_def list_all_iff live_ok_def span_def split_beta)
    with a(4)[OF e] m show False by blast
  qed
  from a(5) show "fst ` set (live h') = insert p (fst ` set (live h))" by auto
  from a(6) show "0 < p" by (simp add: ALLOC_HEADER_def)
qed

lemma alloc_kernel_stack_fail:
  assumes "stacks_ok R s" and "alloc_kernel_stack s = (None, s')"
  shows "skel s' = skel s"
proof -
  obtain h where h: "alloc (cpu_idx s) KERNEL_STACK_SIZE 4096 (kheap_of s) = (None, h)"
    "s' = set_vm ((vm (mach s))\<lparr>kh := h\<rparr>) s"
    using assms(2) by (auto simp: alloc_kernel_stack_def split: prod.splits option.splits)
  with alloc_fail(1)[of R] assms(1) have "h = kheap_of s" by (auto simp: stacks_ok_def)
  with h(2) show ?thesis by (simp add: skel_set_vm)
qed

lemma alloc_kernel_stack_ok:
  assumes "stacks_ok R s" and "alloc_kernel_stack s = (Some b, s')"
  obtains v where "s' = set_vm v s" and "this_cpu v = cpu_idx s" and "heap_inv R (kh v)"
    and "b \<notin> set (stack_bases s)" and "b \<noteq> 0"
    and "fst ` set (live (kh v)) = insert (unat b) (fst ` set (live (kheap_of s)))"
proof -
  obtain p h v where h: "alloc (cpu_idx s) KERNEL_STACK_SIZE (2 ^ 12) (kheap_of s) = (Some p, h)"
    "b = word_of_nat p" "s' = set_vm v s" "this_cpu v = cpu_idx s" "kh v = h"
    using assms(2) by (auto simp: alloc_kernel_stack_def split: prod.splits option.splits)
  have inv: "heap_inv R (kheap_of s)" "R \<subseteq> {..< 2 ^ 64}" using assms(1) by (auto simp: stacks_ok_def)
  note f = live_fresh[OF inv(1) h(1)]
  have "0 < KERNEL_STACK_SIZE" by (simp add: KERNEL_STACK_SIZE_def)
  note f = f[OF this]
  have u: "unat b = p" using f(2) inv(2) h(2) by (auto simp: unat_of_nat)
  show thesis
  proof (rule that[OF h(3,4)])
    show "heap_inv R (kh v)" using alloc_ok(2)[OF inv(1) refl h(1)] h(5) by simp
    show "b \<notin> set (stack_bases s)" using assms(1) f(1) u unfolding stacks_ok_def by blast
    show "b \<noteq> 0" using u f(4) by (metis unat_0 less_numeral_extra(3))
    show "fst ` set (live (kh v)) = insert (unat b) (fst ` set (live (kheap_of s)))" using f(3) u h(5) by simp
  qed
qed

lemma dealloc_live:
  assumes "p \<in> fst ` set (live h)"
  obtains h' where "dealloc cpu p h = Some h'" and "fst ` set (live h) - {p} \<subseteq> fst ` set (live h')"
proof -
  obtain x where x: "x \<in> set (live h)" "fst x = p" using assms by blast
  obtain i where i: "position (\<lambda>e. fst e = p) (live h) = Some i"
    using position_ex[OF x(1), of "\<lambda>e. fst e = p"] x(2) by blast
  obtain q a n where e: "live h ! i = (q, a, n)" by (cases "live h ! i")
  have q: "q = p" using position_SomeD(2)[OF i] e by simp
  obtain h' where h': "dealloc cpu p h = Some h'" "live h' = take i (live h) @ drop (Suc i) (live h)"
    using i e by (auto simp: dealloc_def Let_def set_cache_def split: option.splits)
  have "set (live h) \<subseteq> insert (live h ! i) (set (take i (live h)) \<union> set (drop (Suc i) (live h)))"
    by (metis id_take_nth_drop position_SomeD(1)[OF i] set_append list.set(2) Un_insert_right order_refl)
  with e q h' show thesis by (intro that[OF h'(1)]) auto
qed

lemma free_kernel_stack_ok:
  assumes "heap_inv R (kheap_of s)" and "prev \<noteq> 0 \<Longrightarrow> unat prev \<in> fst ` set (live (kheap_of s))"
  obtains v where "free_kernel_stack prev s = Some (set_vm v s)" and "this_cpu v = cpu_idx s" and "heap_inv R (kh v)"
    and "fst ` set (live (kheap_of s)) - {unat prev} \<subseteq> fst ` set (live (kh v))"
proof (cases "prev = 0")
  case True
  show thesis
    by (rule that[of "vm (mach s)"]) (use assms(1) True in \<open>auto simp: free_kernel_stack_def set_vm_def\<close>)
next
  case False
  obtain h' where h': "dealloc (cpu_idx s) (unat prev) (kheap_of s) = Some h'"
    "fst ` set (live (kheap_of s)) - {unat prev} \<subseteq> fst ` set (live h')"
    by (rule dealloc_live[OF assms(2)[OF False]])
  show thesis
    by (rule that[of "(vm (mach s))\<lparr>kh := h'\<rparr>"])
      (use False h' dealloc_inv[OF assms(1) h'(1)] in \<open>simp_all add: free_kernel_stack_def\<close>)
qed

text \<open>The stacks after a thread left the table and its CPU stashed its stack.\<close>

definition stash_stack :: "u64 \<Rightarrow> thread \<Rightarrow> 'a task_state_scheme \<Rightarrow> 'a task_state_scheme" where
  "stash_stack tid t s =
     (remove_thread tid s)\<lparr>PENDING_STACK_FREE := (PENDING_STACK_FREE s)(cpu_idx s := t_kernel_stack_base t)\<rparr>"

lemma stash_stack_bases:
  assumes "distinct (stack_bases s)" and "t \<in> set (THREADS s)" and "t_tid t = tid" and "cpu_idx s < MAX_CPUS"
    and "distinct (map t_tid (THREADS s))"
  shows "distinct (stack_bases (stash_stack tid t s))"
    and "set (stack_bases (stash_stack tid t s)) \<subseteq> set (stack_bases s) - {x. x = PENDING_STACK_FREE s (cpu_idx s) \<and> x \<noteq> 0}"
proof -
  let ?b = "t_kernel_stack_base" and ?F = "PENDING_STACK_FREE s" and ?c = "cpu_idx s"
  let ?T = "THREADS s" and ?G = "PENDING_STACK_FREE (stash_stack tid t s)"
  have T': "THREADS (stash_stack tid t s) = filter (\<lambda>t. t_tid t \<noteq> tid) ?T"
    and G: "?G = ?F(?c := ?b t)"
    by (simp_all add: stash_stack_def remove_thread_def)
  have d: "distinct (map ?b ?T)" "inj_on ?F {c. c < MAX_CPUS \<and> ?F c \<noteq> 0}"
    "?b ` set ?T \<inter> ?F ` {c. c < MAX_CPUS \<and> ?F c \<noteq> 0} = {}"
    using assms(1) unfolding stack_bases_iff by blast+
  have tb: "?F c \<noteq> ?b t" if "c < MAX_CPUS" "?F c \<noteq> 0" for c using d(3) assms(2) that by blast
  have ne: "?b x \<noteq> ?b t" if "x \<in> set ?T" "t_tid x \<noteq> tid" for x
    using that assms(2,3) d(1) by (auto simp: distinct_map dest: inj_onD)
  have sub: "?G ` {c. c < MAX_CPUS \<and> ?G c \<noteq> 0} \<subseteq> insert (?b t) (?F ` {c. c < MAX_CPUS \<and> ?F c \<noteq> 0 \<and> c \<noteq> ?c})"
    unfolding G by auto
  have inj: "inj_on ?G {c. c < MAX_CPUS \<and> ?G c \<noteq> 0}"
  proof (rule inj_onI)
    fix x y
    assume "x \<in> {c. c < MAX_CPUS \<and> ?G c \<noteq> 0}" "y \<in> {c. c < MAX_CPUS \<and> ?G c \<noteq> 0}" "?G x = ?G y"
    then show "x = y" using tb[of x] tb[of y] inj_onD[OF d(2), of x y] unfolding G by (auto split: if_splits)
  qed
  have old: "?F ` {c. c < MAX_CPUS \<and> ?F c \<noteq> 0 \<and> c \<noteq> ?c} \<subseteq> ?F ` {c. c < MAX_CPUS \<and> ?F c \<noteq> 0}" by blast
  have disj: "?b ` {t \<in> set ?T. t_tid t \<noteq> tid} \<inter> ?G ` {c. c < MAX_CPUS \<and> ?G c \<noteq> 0} = {}"
  proof (rule Int_emptyI)
    fix y
    assume y: "y \<in> ?b ` {t \<in> set ?T. t_tid t \<noteq> tid}" "y \<in> ?G ` {c. c < MAX_CPUS \<and> ?G c \<noteq> 0}"
    obtain x where x: "y = ?b x" "x \<in> set ?T" "t_tid x \<noteq> tid" using y(1) by blast
    have "y \<in> insert (?b t) (?F ` {c. c < MAX_CPUS \<and> ?F c \<noteq> 0})" using y(2) sub old by (meson insert_mono subsetD)
    with x(1) ne[OF x(2,3)] have "?b x \<in> ?F ` {c. c < MAX_CPUS \<and> ?F c \<noteq> 0}" by simp
    with x(2) d(3) show False by blast
  qed
  show "distinct (stack_bases (stash_stack tid t s))"
    unfolding stack_bases_iff(1) T' set_filter using distinct_map_filter[OF d(1)] inj disj by simp
  have F: "x \<noteq> ?F ?c" if x: "x \<in> ?F ` {c. c < MAX_CPUS \<and> ?F c \<noteq> 0 \<and> c \<noteq> ?c}" for x
  proof -
    obtain c where c: "c < MAX_CPUS" "?F c \<noteq> 0" "c \<noteq> ?c" "x = ?F c" using x by blast
    with assms(4) inj_onD[OF d(2), of c ?c] show ?thesis by auto
  qed
  have T: "x \<noteq> ?F ?c \<or> x = 0" if "x \<in> ?b ` set ?T" for x using that d(3) assms(4) by blast
  show "set (stack_bases (stash_stack tid t s)) \<subseteq> set (stack_bases s) - {x. x = ?F ?c \<and> x \<noteq> 0}"
    unfolding stack_bases_iff(2) T' set_filter
  proof (rule subsetI)
    fix x
    assume "x \<in> ?b ` {t \<in> set ?T. t_tid t \<noteq> tid} \<union> ?G ` {c. c < MAX_CPUS \<and> ?G c \<noteq> 0}"
    with sub assms(2) consider "x \<in> ?b ` set ?T" | "x \<in> ?F ` {c. c < MAX_CPUS \<and> ?F c \<noteq> 0 \<and> c \<noteq> ?c}" by blast
    then show "x \<in> ?b ` set ?T \<union> ?F ` {c. c < MAX_CPUS \<and> ?F c \<noteq> 0} - {x. x = ?F ?c \<and> x \<noteq> 0}"
    proof cases
      case 1
      with T[OF 1] show ?thesis by blast
    next
      case 2
      with F[OF 2] old show ?thesis by blast
    qed
  qed
qed

lemma stacks_ok_set_vm: "stack_bases (set_vm v s) = stack_bases s" "kheap_of (set_vm v s) = kh v"
  by (simp_all add: stack_bases_def set_vm_def)

lemma defer_free_kernel_stack_ok:
  assumes "stacks_ok R s" and "cpu_idx s < MAX_CPUS" and "t \<in> set (THREADS s)" and "t_tid t = tid"
    and "distinct (map t_tid (THREADS s))"
  obtains v where "defer_free_kernel_stack (t_kernel_stack_base t) (remove_thread tid s) = Some (set_vm v (stash_stack tid t s))"
    and "this_cpu v = cpu_idx s" and "stacks_ok R (set_vm v (stash_stack tid t s))"
proof -
  let ?p = "PENDING_STACK_FREE s (cpu_idx s)" and ?s = "stash_stack tid t s"
  have ok: "heap_inv R (kheap_of s)" "R \<subseteq> {..< 2 ^ 64}" "distinct (stack_bases s)"
    "\<And>b. b \<in> set (stack_bases s) \<Longrightarrow> b \<noteq> 0 \<and> unat b \<in> fst ` set (live (kheap_of s))"
    using assms(1) by (auto simp: stacks_ok_def)
  have kh: "kheap_of ?s = kheap_of s" "cpu_idx ?s = cpu_idx s" by (simp_all add: stash_stack_def remove_thread_def)
  have p: "unat ?p \<in> fst ` set (live (kheap_of ?s))" if "?p \<noteq> 0"
    using ok(4)[of ?p] that assms(2) unfolding stack_bases_iff(2) kh by blast
  obtain v where v: "free_kernel_stack ?p ?s = Some (set_vm v ?s)" "this_cpu v = cpu_idx ?s" "heap_inv R (kh v)"
    "fst ` set (live (kheap_of ?s)) - {unat ?p} \<subseteq> fst ` set (live (kh v))"
    using free_kernel_stack_ok[of R ?s ?p] p ok(1) kh(1) by metis
  note b = stash_stack_bases[OF ok(3) assms(3,4,2,5)]
  have "b \<noteq> 0 \<and> unat b \<in> fst ` set (live (kh v))" if "b \<in> set (stack_bases ?s)" for b
  proof -
    have "b \<in> set (stack_bases s)" "?p \<noteq> 0 \<Longrightarrow> b \<noteq> ?p" using b(2) that by auto
    then have b: "b \<noteq> 0" "unat b \<in> fst ` set (live (kheap_of s))" "b \<noteq> ?p" using ok(4)[of b] by blast+
    from b(3) have "unat b \<noteq> unat ?p" by (metis word_unat_eq_iff)
    with b(1,2) have "b \<noteq> 0" "unat b \<in> fst ` set (live (kheap_of s)) - {unat ?p}" by blast+
    with v(4) kh(1) show ?thesis by auto
  qed
  then have "stacks_ok R (set_vm v ?s)"
    unfolding stacks_ok_def stacks_ok_set_vm using v(3) ok(2) b(1) by blast
  moreover have "defer_free_kernel_stack (t_kernel_stack_base t) (remove_thread tid s) = Some (set_vm v ?s)"
    using v(1) by (simp add: defer_free_kernel_stack_def stash_stack_def Let_def remove_thread_def)
  ultimately show thesis using that v(2) kh(2) by auto
qed

section \<open>Creating threads and processes\<close>

lemma less_counter:
  fixes n x :: u64
  assumes "n < u64_max"
  shows "x < n + 1 \<longleftrightarrow> x \<le> n" and "0 < n + 1"
proof -
  have "unat n < 2 ^ 64 - 1" using assms by (simp add: word_less_nat_alt)
  then have u: "unat (n + 1) = unat n + 1" by (simp add: unat_word_ariths)
  show "x < n + 1 \<longleftrightarrow> x \<le> n" unfolding word_less_nat_alt word_le_nat_alt u by auto
  show "0 < n + 1" unfolding word_less_nat_alt u by simp
qed

text \<open>The state after \<open>create_kernel_thread\<close>: failure leaves the footprint alone, success appends one thread.\<close>

lemma create_kernel_thread_cases:
  assumes "base_inv R s" and "create_kernel_thread pid entry arg l s = (tid, s')"
  obtains (fail) "tid = 0" "skel s' = skel s"
  | (ok) t w where "tid = NEXT_TID s" "t_tid t = tid" "t_pid t = pid" "t_state t = T_Sleeping"
      "s' = (set_vm w s)\<lparr>NEXT_TID := tid + 1, NEXT_ASSIGN_CPU := NEXT_ASSIGN_CPU s + 1, THREADS := THREADS s @ [t]\<rparr>"
      "this_cpu w = cpu_idx s" "heap_inv R (kh w)" "t_kernel_stack_base t \<notin> set (stack_bases s)" "t_kernel_stack_base t \<noteq> 0"
      "fst ` set (live (kh w)) = insert (unat (t_kernel_stack_base t)) (fst ` set (live (kheap_of s)))"
      "t_assigned_cpu t = unat (NEXT_ASSIGN_CPU s) mod max (cpu_count s) 1"
proof -
  have i: "thread_init s = s" and st: "stacks_ok R s"
    using assms(1) by (simp_all add: base_inv_def threads_ok_def thread_init_def)
  obtain r s1 where a: "alloc_kernel_stack s = (r, s1)" by (cases "alloc_kernel_stack s")
  show thesis
  proof (cases r)
    case None
    with assms(2) a i have "tid = 0" "s' = s1" by (simp_all add: create_kernel_thread_def)
    with fail alloc_kernel_stack_fail[OF st, of s1] a None show thesis by simp
  next
    case (Some b)
    obtain v where v: "s1 = set_vm v s" "this_cpu v = cpu_idx s" "heap_inv R (kh v)" "b \<notin> set (stack_bases s)" "b \<noteq> 0"
      "fst ` set (live (kh v)) = insert (unat b) (fst ` set (live (kheap_of s)))"
      using alloc_kernel_stack_ok[OF st a[unfolded Some]] .
    obtain rsp vs where k: "setup_kernel_task_stack b entry arg s1 = (rsp, poke_words rsp vs s1)"
      by (simp add: setup_kernel_task_stack_def Let_def)
    define t where "t = new_thread (NEXT_TID s) pid rsp b l (unat (NEXT_ASSIGN_CPU s) mod max (cpu_count s) 1)"
    let ?w = "v\<lparr>vmem := write_words rsp vs (vmem v)\<rparr>"
    let ?s = "(set_vm ?w s)\<lparr>NEXT_TID := NEXT_TID s + 1, NEXT_ASSIGN_CPU := NEXT_ASSIGN_CPU s + 1, THREADS := THREADS s @ [t]\<rparr>"
    have e: "setup_kernel_task_stack b entry arg s1 = (rsp, set_vm ?w s)"
      unfolding k unfolding v(1) by (simp add: poke_words_def set_vm_def)
    have "create_kernel_thread pid entry arg l s = (NEXT_TID s, ?s)"
      unfolding create_kernel_thread_def i a Some option.case prod.case e Let_def t_def by (simp add: set_vm_def)
    then have "(tid, s') = (NEXT_TID s, ?s)" using assms(2) by (rule trans[OF sym, rotated])
    then have r: "tid = NEXT_TID s" "s' = ?s" unfolding prod.inject by blast+
    show thesis
    proof (rule ok)
      show "tid = NEXT_TID s" by (rule r(1))
      show "s' = (set_vm ?w s)\<lparr>NEXT_TID := tid + 1, NEXT_ASSIGN_CPU := NEXT_ASSIGN_CPU s + 1, THREADS := THREADS s @ [t]\<rparr>"
        unfolding r(1) by (rule r(2))
      show "t_kernel_stack_base t \<notin> set (stack_bases s)" using v(4) by (simp add: t_def new_thread_def)
    qed (use v(2,3,5,6) r(1) in \<open>simp_all add: t_def new_thread_def\<close>)
  qed
qed

lemma stacks_ok_push:
  assumes "stacks_ok R s" and "THREADS s' = THREADS s @ [t]" and "PENDING_STACK_FREE s' = PENDING_STACK_FREE s"
    and "heap_inv R (kheap_of s')" and "t_kernel_stack_base t \<notin> set (stack_bases s)" and "t_kernel_stack_base t \<noteq> 0"
    and "fst ` set (live (kheap_of s')) = insert (unat (t_kernel_stack_base t)) (fst ` set (live (kheap_of s)))"
  shows "stacks_ok R s'"
proof -
  have b: "stack_bases s' = map t_kernel_stack_base (THREADS s) @ t_kernel_stack_base t
      # filter (\<lambda>b. b \<noteq> 0) (map (PENDING_STACK_FREE s) [0 ..< MAX_CPUS])"
    by (simp add: stack_bases_def assms(2,3))
  have old: "distinct (stack_bases s)" "R \<subseteq> {..< 2 ^ 64}"
    "\<forall>b \<in> set (stack_bases s). b \<noteq> 0 \<and> unat b \<in> fst ` set (live (kheap_of s))"
    using assms(1) by (simp_all add: stacks_ok_def)
  have d: "distinct (stack_bases s')"
    using old(1) assms(5) unfolding b unfolding stack_bases_def
    by (simp only: distinct_append distinct.simps set_append list.set) blast
  have n: "set (stack_bases s') = insert (t_kernel_stack_base t) (set (stack_bases s))"
    unfolding b unfolding stack_bases_def by simp
  have "\<forall>b \<in> set (stack_bases s'). b \<noteq> 0 \<and> unat b \<in> fst ` set (live (kheap_of s'))"
    unfolding n assms(7)
  proof (rule ballI)
    fix c
    assume "c \<in> insert (t_kernel_stack_base t) (set (stack_bases s))"
    with bspec[OF old(3), of c] assms(6)
    show "c \<noteq> 0 \<and> unat c \<in> insert (unat (t_kernel_stack_base t)) (fst ` set (live (kheap_of s)))"
      by (cases "c = t_kernel_stack_base t") simp_all
  qed
  with d old(2) assms(4) show ?thesis unfolding stacks_ok_def by (intro conjI)
qed

lemma create_kernel_thread_inv:
  assumes "base_inv R s" and "NEXT_TID s < u64_max" and "create_kernel_thread pid entry arg l s = (tid, s')"
  shows "base_inv R s' \<and> listed s' = listed s \<and> CURRENT_USER_TID s' = CURRENT_USER_TID s \<and> NEXT_PID s' = NEXT_PID s
    \<and> (tid = 0 \<and> owner s' = owner s \<or> tid = NEXT_TID s \<and> tid \<noteq> 0 \<and> owner s' = insert (tid, pid) (owner s))"
  using assms(1,3)
proof (cases rule: create_kernel_thread_cases)
  case fail
  from skel_cong[OF fail(2)] fail assms(1) show ?thesis by (simp add: skel_def)
next
  case (ok t w)
  have f: "THREADS s' = THREADS s @ [t]" "PROCESSES s' = PROCESSES s" "NEXT_TID s' = NEXT_TID s + 1" "NEXT_PID s' = NEXT_PID s"
    "threads_INITIALIZED s' = threads_INITIALIZED s" "processes_INITIALIZED s' = processes_INITIALIZED s"
    "CURRENT_USER_PID s' = CURRENT_USER_PID s" "CURRENT_USER_TID s' = CURRENT_USER_TID s"
    "PENDING_STACK_FREE s' = PENDING_STACK_FREE s" "kheap_of s' = kh w" "cpu_idx s' = cpu_idx s"
    using ok(1,5,6) by (simp_all add: set_vm_def)
  have old: "threads_ok s" "procs_ok s" "cpus_ok s" "stacks_ok R s" using assms(1) by (simp_all add: base_inv_def)
  have nz: "0 < tid" using old(1) ok(1) by (simp add: threads_ok_def)
  have lt: "0 < x \<and> x < NEXT_TID s \<and> y \<Longrightarrow> 0 < x \<and> x < NEXT_TID s + 1 \<and> y" for x y
    using less_counter(1)[OF assms(2), of x] by (simp add: less_imp_le)
  have "distinct (map t_tid (THREADS s @ [t]))" using old(1) ok(1,2) by (auto simp: threads_ok_def)
  moreover have "0 < t_tid t \<and> t_tid t < NEXT_TID s + 1 \<and> t_state t \<notin> {T_Empty, T_Exited}"
    using nz ok(1,2,4) less_counter(1)[OF assms(2), of tid] by simp
  ultimately have "threads_ok s'"
    using old(1) less_counter(2)[OF assms(2)] lt unfolding threads_ok_def f by simp
  moreover have "procs_ok s'" using old(2) unfolding procs_ok_def f .
  moreover have "cpus_ok s'"
    by (rule cpus_ok_mono[OF old(3)]) (simp_all add: f subset_insertI)
  moreover have "stacks_ok R s'"
    by (rule stacks_ok_push[OF old(4) f(1,9)]) (use ok f(10) in simp_all)
  ultimately have "base_inv R s'" by (simp add: base_inv_def)
  moreover have "listed s' = listed s" by (simp add: listed_def f)
  moreover have "owner s' = insert (tid, pid) (owner s)" using ok(2,3) by (simp add: owner_def f)
  ultimately show ?thesis using ok(1) nz f(4,8) by (simp add: word_neq_0_conv)
qed

lemma create_process_inv:
  assumes "base_inv R s" and "NEXT_PID s < u64_max" and "create_process nm l main s = (pid, s')"
  shows "base_inv R s' \<and> owner s' = owner s \<and> listed s' = insert (main, pid) (listed s)
    \<and> pid \<noteq> 0 \<and> CURRENT_USER_TID s' = CURRENT_USER_TID s \<and> THREADS s' = THREADS s"
proof -
  have old: "threads_ok s" "procs_ok s" "cpus_ok s" "stacks_ok R s" using assms(1) by (simp_all add: base_inv_def)
  have i: "process_init s = s" using old(2) by (simp add: procs_ok_def process_init_def)
  define p where "p = new_process (NEXT_PID s) (name_buf (take (min (length nm) (IMAGE_NAME_LEN - 1)) nm)) (tsc s) l main"
  have "create_process nm l main s = (NEXT_PID s, s\<lparr>NEXT_PID := NEXT_PID s + 1, PROCESSES := PROCESSES s @ [p]\<rparr>)"
    by (simp add: create_process_def allocate_pid_def i Let_def p_def)
  then have "(pid, s') = (NEXT_PID s, s\<lparr>NEXT_PID := NEXT_PID s + 1, PROCESSES := PROCESSES s @ [p]\<rparr>)"
    using assms(3) by (rule trans[OF sym, rotated])
  then have p: "p_pid p = NEXT_PID s" "p_threads p = [main]" "pid = NEXT_PID s"
    "s' = s\<lparr>NEXT_PID := NEXT_PID s + 1, PROCESSES := PROCESSES s @ [p]\<rparr>"
    unfolding prod.inject by (simp_all add: p_def new_process_def)
  have nz: "0 < pid" using old(2) p(3) by (simp add: procs_ok_def)
  have "distinct (map p_pid (PROCESSES s @ [p]))" using old(2) p(1) by (auto simp: procs_ok_def)
  moreover have "p_pid p < NEXT_PID s + 1 \<and> distinct (p_threads p) \<and> (p_pid p = 0 \<longrightarrow> p_threads p = [])"
    using p(1-3) nz less_counter(1)[OF assms(2), of pid] by simp
  moreover have "\<forall>p \<in> set (PROCESSES s). p_pid p < NEXT_PID s + 1"
    using old(2) unfolding less_counter(1)[OF assms(2)] by (simp add: procs_ok_def less_imp_le)
  ultimately have "procs_ok s'"
    using old(2) less_counter(2)[OF assms(2)] unfolding procs_ok_def p(4) by simp
  moreover have "threads_ok s'" using old(1) by (simp add: threads_ok_def p(4))
  moreover have "cpus_ok s'" by (rule cpus_ok_mono[OF old(3)]) (simp_all add: p(4))
  moreover have "kheap_of s' = kheap_of s" "stack_bases s' = stack_bases s" by (simp_all add: stack_bases_def p(4))
  then have "stacks_ok R s'" by (rule stacks_ok_cong[THEN iffD2, OF _ _ old(4)])
  moreover have "listed s' = insert (main, pid) (listed s)" using p(1-3) by (simp add: listed_def p(4))
  moreover have "owner s' = owner s" by (simp add: owner_def p(4))
  ultimately show ?thesis using nz p(4) by (simp add: base_inv_def word_neq_0_conv)
qed

lemma set_thread_pid_inv:
  assumes "base_inv R s" and "\<And>c. CURRENT_USER_TID s c \<noteq> Some tid"
  shows "base_inv R (set_thread_pid tid pid s) \<and> listed (set_thread_pid tid pid s) = listed s
    \<and> owner (set_thread_pid tid pid s) = (\<lambda>(i, p). (i, if i = tid then pid else p)) ` owner s"
proof -
  let ?s = "set_thread_pid tid pid s" and ?f = "\<lambda>t. if t_tid t = tid then t\<lparr>t_pid := pid\<rparr> else t"
  have old: "threads_ok s" "procs_ok s" "cpus_ok s" "stacks_ok R s" using assms(1) by (simp_all add: base_inv_def)
  have T: "THREADS ?s = map ?f (THREADS s)"
    using old(1) by (simp add: set_thread_pid_def upd_thread_def threads_ok_def update_first_key)
  have f: "PROCESSES ?s = PROCESSES s" "NEXT_TID ?s = NEXT_TID s" "NEXT_PID ?s = NEXT_PID s" "mach ?s = mach s"
    "threads_INITIALIZED ?s = threads_INITIALIZED s" "processes_INITIALIZED ?s = processes_INITIALIZED s"
    "CURRENT_USER_PID ?s = CURRENT_USER_PID s" "CURRENT_USER_TID ?s = CURRENT_USER_TID s"
    "PENDING_STACK_FREE ?s = PENDING_STACK_FREE s"
    by (simp_all add: set_thread_pid_def upd_thread_def)
  have k: "t_tid (?f t) = t_tid t" "t_state (?f t) = t_state t" "t_kernel_stack_base (?f t) = t_kernel_stack_base t"
    "t_assigned_cpu (?f t) = t_assigned_cpu t" for t by simp_all
  have "threads_ok ?s" using old(1) unfolding threads_ok_def T f map_map o_def set_map ball_simps(9) k .
  moreover have "procs_ok ?s" using old(2) unfolding procs_ok_def f .
  moreover have "stacks_ok R ?s"
    using old(4) unfolding stacks_ok_def stack_bases_def T f map_map o_def k .
  moreover have "cpus_ok ?s"
  proof (rule cpus_okI, unfold f)
    show "this_cpu (vm (mach s)) < MAX_CPUS" "\<And>c. CURRENT_USER_TID s c = None \<Longrightarrow> CURRENT_USER_PID s c = None"
      using old(3) by (simp_all add: cpus_ok_def)
    fix c i
    assume c: "CURRENT_USER_TID s c = Some i"
    obtain t where t: "t \<in> set (THREADS s)" "t_tid t = i" "t_assigned_cpu t = c" "CURRENT_USER_PID s c = Some (t_pid t)"
      by (rule cpus_okE[OF old(3) c])
    with c assms(2)[of c] have e: "?f t = t" by auto
    have "?f t \<in> set (THREADS ?s)" unfolding T set_map using t(1) by (rule imageI)
    with t(2-4) show "\<exists>t. t \<in> set (THREADS ?s) \<and> t_tid t = i \<and> t_assigned_cpu t = c \<and> CURRENT_USER_PID s c = Some (t_pid t)"
      unfolding e by (intro exI[of _ t]) simp
  qed
  moreover have "owner ?s = (\<lambda>(i, p). (i, if i = tid then pid else p)) ` owner s"
    unfolding owner_def T set_map image_image by (rule image_cong) auto
  ultimately show ?thesis by (simp add: base_inv_def listed_def f)
qed

lemma fresh_tid:
  assumes "base_inv R s"
  shows "CURRENT_USER_TID s c \<noteq> Some (NEXT_TID s)" and "(NEXT_TID s, p) \<notin> owner s"
proof -
  have lt: "t_tid t < NEXT_TID s" if "t \<in> set (THREADS s)" for t
    using assms that by (simp add: base_inv_def threads_ok_def)
  show "CURRENT_USER_TID s c \<noteq> Some (NEXT_TID s)"
  proof
    assume c: "CURRENT_USER_TID s c = Some (NEXT_TID s)"
    have "cpus_ok s" using assms by (simp add: base_inv_def)
    then obtain t where "t \<in> set (THREADS s)" "t_tid t = NEXT_TID s" by (rule cpus_okE[OF _ c])
    with lt[of t] show False by simp
  qed
  show "(NEXT_TID s, p) \<notin> owner s"
  proof
    assume "(NEXT_TID s, p) \<in> owner s"
    then obtain t where "t \<in> set (THREADS s)" "t_tid t = NEXT_TID s" unfolding owner_def by (elim imageE) simp
    with lt[of t] show False by simp
  qed
qed

lemma adopt_thread:
  assumes "task_inv R s" and "NEXT_TID s < u64_max" and "NEXT_PID s < u64_max"
    and "create_kernel_thread 0 entry arg l s = (tid, s1)" and "tid \<noteq> 0" and "create_process nm l' tid s1 = (pid, s2)"
  shows "pid \<noteq> 0" and "task_inv R (set_thread_pid tid pid s2)"
proof -
  have inv: "base_inv R s" "owner s = listed s" using assms(1) by (simp_all add: task_inv_def)
  have s1: "base_inv R s1" "listed s1 = listed s" "CURRENT_USER_TID s1 = CURRENT_USER_TID s" "NEXT_PID s1 = NEXT_PID s"
    "tid = NEXT_TID s" "owner s1 = insert (tid, 0) (owner s)"
    using create_kernel_thread_inv[OF inv(1) assms(2,4)] assms(5) by auto
  have s2: "base_inv R s2" "owner s2 = owner s1" "listed s2 = insert (tid, pid) (listed s1)" "pid \<noteq> 0"
    "CURRENT_USER_TID s2 = CURRENT_USER_TID s1"
    using create_process_inv[OF s1(1) _ assms(6)] assms(3) s1(4) by auto
  show "pid \<noteq> 0" by (rule s2(4))
  have c: "CURRENT_USER_TID s2 c \<noteq> Some tid" for c
    using fresh_tid(1)[OF inv(1), of c] s1(3,5) s2(5) by simp
  note f = set_thread_pid_inv[OF s2(1) c, of pid]
  have "(\<lambda>(i, p). (i, if i = tid then pid else p)) ` owner s = owner s"
  proof -
    have "(\<lambda>(i, p). (i, if i = tid then pid else p)) x = x" if "x \<in> owner s" for x
      using that fresh_tid(2)[OF inv(1), of "snd x"] s1(5) by (cases x) auto
    then show ?thesis by simp
  qed
  with f show "task_inv R (set_thread_pid tid pid s2)"
    by (simp add: task_inv_def s2(2,3) s1(2,6) inv(2))
qed

lemma create_fail_inv:
  assumes "task_inv R s" and "NEXT_TID s < u64_max" and "create_kernel_thread pid entry arg l s = (0, s1)"
  shows "task_inv R s1"
  using create_kernel_thread_inv[OF _ assms(2,3)] assms(1) by (auto simp: task_inv_def)

lemma spawn_inv:
  assumes "task_inv R s" and "NEXT_TID s < u64_max" and "NEXT_PID s < u64_max"
  shows "task_inv R (snd (spawn nm s))"
    and "task_inv R (snd (spawn_kernel_task nm entry arg l s))"
    and "task_inv R (snd (spawn_user_process nm entry top cr3 l argc argv s))"
proof -
  have step: "task_inv R (snd (let (tid, s1) = create_kernel_thread 0 entry arg l s
      in if tid = 0 then (0, s1)
         else let (pid, s2) = create_process nm l' tid s1
         in if pid = 0 then (0, remove_thread tid s2) else (pid, g tid pid (set_thread_pid tid pid s2))))"
    if g: "\<And>tid pid s. skel (g tid pid s) = skel s" for entry arg l l' g
  proof -
    obtain tid s1 pid s2 where c: "create_kernel_thread 0 entry arg l s = (tid, s1)" "create_process nm l' tid s1 = (pid, s2)"
      by (meson surj_pair)
    show ?thesis
    proof (cases "tid = 0")
      case True
      with c(1) create_fail_inv[OF assms(1,2)] show ?thesis by simp
    next
      case False
      from adopt_thread[OF assms c(1) False c(2)] skel_cong(4)[OF g] c False show ?thesis by simp
    qed
  qed
  show "task_inv R (snd (spawn nm s))"
    unfolding spawn_def by (rule step) (simp add: skel_simps)
  show "task_inv R (snd (spawn_kernel_task nm entry arg l s))"
    unfolding spawn_kernel_task_def by (rule step) (simp add: skel_simps)
  show "task_inv R (snd (spawn_user_process nm entry top cr3 l argc argv s))"
    unfolding spawn_user_process_def by (rule step) (simp add: skel_simps)
qed

lemma create_user_thread_inv:
  assumes "base_inv R s" and "NEXT_TID s < u64_max" and "create_user_thread pid entry top cr3 l argc argv s = (tid, s')"
  shows "base_inv R s' \<and> listed s' = listed s
    \<and> (tid = 0 \<and> owner s' = owner s \<or> tid = NEXT_TID s \<and> tid \<noteq> 0 \<and> owner s' = insert (tid, pid) (owner s))"
proof -
  obtain i s1 where c: "create_kernel_thread pid entry 0 l s = (i, s1)" by (cases "create_kernel_thread pid entry 0 l s")
  note k = create_kernel_thread_inv[OF assms(1,2) c]
  have "tid = i \<and> skel s' = skel s1"
    using assms(3) c by (auto simp: create_user_thread_def Let_def skel_simps split: if_splits)
  with k skel_cong[of s' s1] show ?thesis by simp
qed

text \<open>Changing the thread list of one process.\<close>

definition map_threads :: "u64 \<Rightarrow> (u64 list \<Rightarrow> u64 list) \<Rightarrow> process \<Rightarrow> process" where
  "map_threads pid g p = (if p_pid p = pid then p\<lparr>p_threads := g (p_threads p)\<rparr> else p)"

lemma map_threads_simps [simp]:
  "p_pid (map_threads pid g p) = p_pid p"
  "p_threads (map_threads pid g p) = (if p_pid p = pid then g (p_threads p) else p_threads p)"
  by (simp_all add: map_threads_def)

lemma mem_owner: "(i, q) \<in> owner s \<longleftrightarrow> (\<exists>t \<in> set (THREADS s). t_tid t = i \<and> t_pid t = q)"
  by (auto simp: owner_def)

lemma mem_listed: "(i, q) \<in> listed s \<longleftrightarrow> (\<exists>p \<in> set (PROCESSES s). p_pid p = q \<and> i \<in> set (p_threads p))"
  by (auto simp: listed_def)

lemma upd_threads_inv:
  assumes "base_inv R s"
    and g: "\<And>p. p \<in> set (PROCESSES s) \<Longrightarrow> p_pid p = pid \<Longrightarrow> distinct (g (p_threads p)) \<and> (pid = 0 \<longrightarrow> g (p_threads p) = [])"
  shows "base_inv R (upd_process pid (\<lambda>p. p\<lparr>p_threads := g (p_threads p)\<rparr>) s)"
    and "owner (upd_process pid (\<lambda>p. p\<lparr>p_threads := g (p_threads p)\<rparr>) s) = owner s"
    and "(i, q) \<in> listed (upd_process pid (\<lambda>p. p\<lparr>p_threads := g (p_threads p)\<rparr>) s)
      \<longleftrightarrow> (\<exists>p \<in> set (PROCESSES s). p_pid p = q \<and> i \<in> set (if q = pid then g (p_threads p) else p_threads p))"
proof -
  let ?s = "upd_process pid (\<lambda>p. p\<lparr>p_threads := g (p_threads p)\<rparr>) s"
  have old: "threads_ok s" "procs_ok s" "cpus_ok s" "stacks_ok R s" using assms(1) by (simp_all add: base_inv_def)
  have d: "distinct (map p_pid (PROCESSES s))" using old(2) by (simp add: procs_ok_def)
  have P: "PROCESSES ?s = map (map_threads pid g) (PROCESSES s)"
    using update_first_key[OF d, of pid "\<lambda>p. p\<lparr>p_threads := g (p_threads p)\<rparr>"]
    by (simp add: upd_process_def map_threads_def[abs_def])
  show "owner ?s = owner s" by (simp add: owner_def upd_process_def)
  show "(i, q) \<in> listed ?s
      \<longleftrightarrow> (\<exists>p \<in> set (PROCESSES s). p_pid p = q \<and> i \<in> set (if q = pid then g (p_threads p) else p_threads p))"
    unfolding mem_listed P set_map bex_simps(7) by (simp cong: conj_cong)
  have "procs_ok ?s"
    unfolding procs_ok_def P set_map ball_simps(9) map_map o_def map_threads_simps
    using old(2) g by (simp add: procs_ok_def upd_process_def)
  moreover have "threads_ok ?s" using old(1) by (simp add: threads_ok_def upd_process_def)
  moreover have "cpus_ok ?s" by (rule cpus_ok_mono[OF old(3)]) (simp_all add: upd_process_def)
  moreover have "kheap_of ?s = kheap_of s" "stack_bases ?s = stack_bases s"
    by (simp_all add: stack_bases_def upd_process_def)
  then have "stacks_ok R ?s" by (rule stacks_ok_cong[THEN iffD2, OF _ _ old(4)])
  ultimately show "base_inv R ?s" by (simp add: base_inv_def)
qed

lemma add_thread_inv:
  assumes "base_inv R s" and "(tid, pid) \<notin> listed s" and "pid \<noteq> 0" and "p \<in> set (PROCESSES s)" and "p_pid p = pid"
  shows "base_inv R (add_thread_to_process pid tid s)" and "owner (add_thread_to_process pid tid s) = owner s"
    and "listed (add_thread_to_process pid tid s) = insert (tid, pid) (listed s)"
proof -
  let ?s = "add_thread_to_process pid tid s"
  have g: "distinct (p_threads q @ [tid]) \<and> (pid = 0 \<longrightarrow> p_threads q @ [tid] = [])"
    if "q \<in> set (PROCESSES s)" "p_pid q = pid" for q
    using assms(1-3) that mem_listed[of tid pid s] by (auto simp: base_inv_def procs_ok_def)
  note u = upd_threads_inv[where g = "\<lambda>ts. ts @ [tid]", OF assms(1) g]
  show "base_inv R ?s" unfolding add_thread_to_process_def by (rule u(1))
  show "owner ?s = owner s" unfolding add_thread_to_process_def by (rule u(2))
  show "listed ?s = insert (tid, pid) (listed s)"
  proof (rule set_eqI, unfold split_paired_all)
    fix i q
    have e: "\<exists>p \<in> set (PROCESSES s). p_pid p = pid" using assms(4,5) by blast
    show "(i, q) \<in> listed ?s \<longleftrightarrow> (i, q) \<in> insert (tid, pid) (listed s)"
      unfolding add_thread_to_process_def
    proof (rule trans[OF u(3)[of i q]])
      show "(\<exists>p \<in> set (PROCESSES s). p_pid p = q \<and> i \<in> set (if q = pid then p_threads p @ [tid] else p_threads p))
          \<longleftrightarrow> (i, q) \<in> insert (tid, pid) (listed s)"
        unfolding insert_iff mem_listed prod.inject using e by (cases "q = pid"; cases "i = tid") simp_all
    qed
  qed
qed

lemma current_thread:
  assumes "base_inv R s" and "current_pid s \<noteq> 0 \<or> current_tid s \<noteq> 0"
  obtains t where "t \<in> set (THREADS s)" and "t_pid t = current_pid s" and "t_tid t = current_tid s"
    and "t_assigned_cpu t = cpu_idx s" and "CURRENT_USER_TID s (cpu_idx s) = Some (t_tid t)"
    and "CURRENT_USER_PID s (cpu_idx s) = Some (t_pid t)"
proof -
  have c: "cpus_ok s" using assms(1) by (simp add: base_inv_def)
  have "CURRENT_USER_TID s (cpu_idx s) \<noteq> None"
  proof
    assume n: "CURRENT_USER_TID s (cpu_idx s) = None"
    with c have "CURRENT_USER_PID s (cpu_idx s) = None" by (simp add: cpus_ok_def)
    with n assms(2) show False by (simp add: current_pid_def current_tid_def current_user_pid_def current_user_tid_def)
  qed
  then obtain i where i: "CURRENT_USER_TID s (cpu_idx s) = Some i" by blast
  obtain t where t: "t \<in> set (THREADS s)" "t_tid t = i" "t_assigned_cpu t = cpu_idx s"
    "CURRENT_USER_PID s (cpu_idx s) = Some (t_pid t)"
    by (rule cpus_okE[OF c i])
  with i show thesis
    by (intro that[of t]) (simp_all add: current_pid_def current_tid_def current_user_pid_def current_user_tid_def)
qed

lemma spawn_user_thread_inv:
  assumes "task_inv R s" and "NEXT_TID s < u64_max"
  shows "task_inv R (snd (spawn_user_thread entry arg top s))"
proof (cases "current_pid s = 0 \<or> thread_user_cr3 (current_tid s) s = None")
  case True
  with assms(1) show ?thesis by (auto simp: spawn_user_thread_def Let_def split: option.splits)
next
  case False
  let ?pid = "current_pid s"
  obtain cr3 tid s1 where c: "thread_user_cr3 (current_tid s) s = Some cr3"
    "create_user_thread ?pid entry top cr3 (process_privilege_level ?pid s) arg 0 s = (tid, s1)"
    using False by (metis not_Some_eq surj_pair)
  have inv: "base_inv R s" "owner s = listed s" using assms(1) by (simp_all add: task_inv_def)
  note k = create_user_thread_inv[OF inv(1) assms(2) c(2)]
  show ?thesis
  proof (cases "tid = 0")
    case True
    with k inv(2) False c show ?thesis by (auto simp: spawn_user_thread_def Let_def task_inv_def)
  next
    case t: False
    have k1: "base_inv R s1" "listed s1 = listed s" "owner s1 = insert (tid, ?pid) (owner s)" "tid = NEXT_TID s"
      using k t by auto
    obtain t where "t \<in> set (THREADS s)" "t_pid t = ?pid"
      by (rule current_thread[OF inv(1)]) (use False in auto)
    then have "(t_tid t, ?pid) \<in> owner s" unfolding mem_owner by blast
    then have "(t_tid t, ?pid) \<in> listed s1" using inv(2) k1(2) by simp
    then obtain p where p: "p \<in> set (PROCESSES s1)" "p_pid p = ?pid" by (auto simp: mem_listed)
    have "(tid, ?pid) \<notin> listed s1" using fresh_tid(2)[OF inv(1)] k1 inv(2) by simp
    note a = add_thread_inv[OF k1(1) this _ p]
    have "task_inv R (add_thread_to_process ?pid tid s1)" using a False k1 inv(2) by (simp add: task_inv_def)
    then show ?thesis
      using False c t by (simp add: spawn_user_thread_def Let_def skel_cong(4)[OF skel_thread_fields(4)])
  qed
qed

section \<open>Changing the current thread\<close>

text \<open>Operations that touch only the per-CPU current process and thread.\<close>

definition same_tables :: "'a task_state_scheme \<Rightarrow> 'a task_state_scheme \<Rightarrow> bool" where
  "same_tables s s' \<longleftrightarrow> THREADS s' = THREADS s \<and> PROCESSES s' = PROCESSES s \<and> NEXT_TID s' = NEXT_TID s
     \<and> NEXT_PID s' = NEXT_PID s \<and> threads_INITIALIZED s' = threads_INITIALIZED s
     \<and> processes_INITIALIZED s' = processes_INITIALIZED s \<and> PENDING_STACK_FREE s' = PENDING_STACK_FREE s
     \<and> mach s' = mach s"

lemma same_tables_inv:
  assumes "same_tables s s'" and "base_inv R s" and "cpus_ok s'"
  shows "base_inv R s'" and "owner s' = owner s" and "listed s' = listed s"
proof -
  have old: "threads_ok s" "procs_ok s" "stacks_ok R s" using assms(2) by (simp_all add: base_inv_def)
  have eq: "THREADS s' = THREADS s" "PROCESSES s' = PROCESSES s" "NEXT_TID s' = NEXT_TID s" "NEXT_PID s' = NEXT_PID s"
    "threads_INITIALIZED s' = threads_INITIALIZED s" "processes_INITIALIZED s' = processes_INITIALIZED s"
    "PENDING_STACK_FREE s' = PENDING_STACK_FREE s" "mach s' = mach s"
    using assms(1) by (simp_all add: same_tables_def)
  have "kheap_of s' = kheap_of s" "stack_bases s' = stack_bases s" by (simp_all add: eq stack_bases_def)
  then have "stacks_ok R s'" by (rule stacks_ok_cong[THEN iffD2, OF _ _ old(3)])
  moreover have "threads_ok s'" using old(1) unfolding threads_ok_def eq .
  moreover have "procs_ok s'" using old(2) unfolding procs_ok_def eq .
  ultimately show "base_inv R s'" using assms(3) by (simp add: base_inv_def)
  show "owner s' = owner s" unfolding owner_def eq ..
  show "listed s' = listed s" unfolding listed_def eq ..
qed

text \<open>A CPU drops its current thread, or takes one that is pinned to it.\<close>

lemma cpus_ok_set:
  assumes "cpus_ok s" and "THREADS s' = THREADS s" and "mach s' = mach s"
    and "CURRENT_USER_PID s' = (CURRENT_USER_PID s)(cpu_idx s := pp)"
    and "CURRENT_USER_TID s' = (CURRENT_USER_TID s)(cpu_idx s := tt)"
    and "tt = None \<and> pp = None \<or> (\<exists>t \<in> set (THREADS s). tt = Some (t_tid t) \<and> t_assigned_cpu t = cpu_idx s \<and> pp = Some (t_pid t))"
  shows "cpus_ok s'"
proof (rule cpus_okI)
  show "cpu_idx s' < MAX_CPUS" using assms(1,3) by (simp add: cpus_ok_def)
  show "CURRENT_USER_PID s' c = None" if "CURRENT_USER_TID s' c = None" for c
    using assms(1,6) that unfolding assms(4,5) by (auto simp: cpus_ok_def split: if_splits)
  fix c tid
  assume c: "CURRENT_USER_TID s' c = Some tid"
  show "\<exists>t. t \<in> set (THREADS s') \<and> t_tid t = tid \<and> t_assigned_cpu t = c \<and> CURRENT_USER_PID s' c = Some (t_pid t)"
  proof (cases "c = cpu_idx s")
    case True
    with c assms(5) have "tt = Some tid" by simp
    with assms(6) obtain t where "t \<in> set (THREADS s)" "tid = t_tid t" "t_assigned_cpu t = cpu_idx s" "pp = Some (t_pid t)"
      by auto
    with True show ?thesis unfolding assms(2,4) by (intro exI[of _ t]) simp
  next
    case False
    with c assms(5) have "CURRENT_USER_TID s c = Some tid" by simp
    then obtain t where "t \<in> set (THREADS s)" "t_tid t = tid" "t_assigned_cpu t = c" "CURRENT_USER_PID s c = Some (t_pid t)"
      by (rule cpus_okE[OF assms(1)])
    with False show ?thesis unfolding assms(2,4) by (intro exI[of _ t]) simp
  qed
qed

lemma thread_pid_found:
  assumes "threads_ok s" and "t \<in> set (THREADS s)"
  shows "thread_pid (t_tid t) s = Some (t_pid t)" and "find_thread (t_tid t) s = Some t"
proof -
  have d: "distinct (map t_tid (THREADS s))" and a: "\<And>x. x \<in> set (THREADS s) \<Longrightarrow> t_state x \<noteq> T_Empty"
    using assms(1) by (auto simp: threads_ok_def)
  show f: "find_thread (t_tid t) s = Some t" unfolding find_thread_def by (rule find_key[OF d assms(2)])
  have "List.find (\<lambda>x. t_tid x = t_tid t \<and> t_state x \<noteq> T_Empty) (THREADS s) = List.find (\<lambda>x. t_tid x = t_tid t) (THREADS s)"
    by (rule find_cong[OF refl]) (use a in simp)
  with f show "thread_pid (t_tid t) s = Some (t_pid t)" by (simp add: thread_pid_def find_thread_def)
qed

lemma set_current_inv:
  assumes "task_inv R s"
  shows "task_inv R (set_current_user_tid None s)" and "task_inv R (set_current_user_pid None s)"
    and "task_inv R (clear_current_pid s)" and "task_inv R (clear_current_user pid s)"
    and "t \<in> set (THREADS s) \<Longrightarrow> t_assigned_cpu t = cpu_idx s \<Longrightarrow> task_inv R (set_current_user_tid (Some (t_tid t)) s)"
proof -
  have inv: "base_inv R s" "owner s = listed s" "cpus_ok s" "threads_ok s"
    using assms by (simp_all add: task_inv_def base_inv_def)
  have step: "task_inv R s'" if "same_tables s s'" "cpus_ok s'" for s'
    using same_tables_inv[OF that(1) inv(1) that(2)] inv(2) by (simp add: task_inv_def)
  have drop: "task_inv R s'" if "same_tables s s'" "CURRENT_USER_PID s' = (CURRENT_USER_PID s)(cpu_idx s := None)"
    "CURRENT_USER_TID s' = (CURRENT_USER_TID s)(cpu_idx s := None)" for s'
    by (rule step[OF that(1)], rule cpus_ok_set[OF inv(3) _ _ that(2,3)]) (use that(1) in \<open>simp_all add: same_tables_def\<close>)
  show "task_inv R (set_current_user_tid None s)" "task_inv R (set_current_user_pid None s)" "task_inv R (clear_current_pid s)"
    by (auto intro!: drop simp: set_current_user_tid_def set_current_user_pid_def clear_current_pid_def same_tables_def)
  show "task_inv R (clear_current_user pid s)"
    using assms by (auto intro!: drop simp: clear_current_user_def same_tables_def)
  show "task_inv R (set_current_user_tid (Some (t_tid t)) s)" if t: "t \<in> set (THREADS s)" "t_assigned_cpu t = cpu_idx s"
  proof (rule step)
    show "same_tables s (set_current_user_tid (Some (t_tid t)) s)" by (simp add: same_tables_def set_current_user_tid_def)
    show "cpus_ok (set_current_user_tid (Some (t_tid t)) s)"
      by (rule cpus_ok_set[OF inv(3), where pp = "Some (t_pid t)" and tt = "Some (t_tid t)"])
        (use t thread_pid_found(1)[OF inv(4) t(1)] in \<open>auto simp: set_current_user_tid_def\<close>)
  qed
qed

section \<open>Leaving\<close>

lemma image_filter: "f ` {x \<in> A. P (f x)} = {y \<in> f ` A. P y}"
  by blast

lemma filter_upd_tid:
  "(\<And>t. t_tid (f t) = t_tid t) \<Longrightarrow>
    filter (\<lambda>t. t_tid t \<noteq> tid) (update_first (\<lambda>t. t_tid t = tid) f T) = filter (\<lambda>t. t_tid t \<noteq> tid) T"
  by (induction T) auto

lemma remove_thread_upd [simp]:
  "(\<And>t. t_tid (f t) = t_tid t) \<Longrightarrow> remove_thread tid (upd_thread tid f s) = remove_thread tid s"
  by (simp add: remove_thread_def upd_thread_def filter_upd_tid)

lemma filter_tkey: "map tkey (filter (\<lambda>t. t_tid t \<noteq> tid) T) = filter (\<lambda>k. fst k \<noteq> tid) (map tkey T)"
  by (induction T) (auto simp: tkey_def)

lemma skel_remove_thread: "skel s' = skel s \<Longrightarrow> skel (remove_thread tid s') = skel (remove_thread tid s)"
  by (simp add: skel_def remove_thread_def filter_tkey del: map_eq_conv)

text \<open>The tables without a thread that is current on no CPU.\<close>

lemma remove_thread_tables:
  assumes "threads_ok s" and "procs_ok s" and "cpus_ok s" and "\<And>c. CURRENT_USER_TID s c \<noteq> Some tid"
  shows "threads_ok (remove_thread tid s)" and "procs_ok (remove_thread tid s)" and "cpus_ok (remove_thread tid s)"
    and "owner (remove_thread tid s) = {x \<in> owner s. fst x \<noteq> tid}" and "listed (remove_thread tid s) = listed s"
proof -
  show "threads_ok (remove_thread tid s)"
    using assms(1) by (simp add: threads_ok_def remove_thread_def distinct_map_filter)
  show "procs_ok (remove_thread tid s)" using assms(2) by (simp add: procs_ok_def remove_thread_def)
  show "cpus_ok (remove_thread tid s)"
  proof (rule cpus_okI)
    fix c i
    assume "CURRENT_USER_TID (remove_thread tid s) c = Some i"
    then have c: "CURRENT_USER_TID s c = Some i" by (simp add: remove_thread_def)
    obtain t where "t \<in> set (THREADS s)" "t_tid t = i" "t_assigned_cpu t = c" "CURRENT_USER_PID s c = Some (t_pid t)"
      by (rule cpus_okE[OF assms(3) c])
    with c assms(4)[of c] show "\<exists>t. t \<in> set (THREADS (remove_thread tid s)) \<and> t_tid t = i \<and> t_assigned_cpu t = c
        \<and> CURRENT_USER_PID (remove_thread tid s) c = Some (t_pid t)"
      by (intro exI[of _ t]) (auto simp: remove_thread_def)
  qed (use assms(3) in \<open>simp_all add: cpus_ok_def remove_thread_def\<close>)
  show "owner (remove_thread tid s) = {x \<in> owner s. fst x \<noteq> tid}"
    using image_filter[of "\<lambda>t. (t_tid t, t_pid t)" "set (THREADS s)" "\<lambda>x. fst x \<noteq> tid"]
    by (simp add: owner_def remove_thread_def)
  show "listed (remove_thread tid s) = listed s" by (simp add: listed_def remove_thread_def)
qed

lemma stash_stack_tables:
  "threads_ok (set_vm v (stash_stack tid t s)) = threads_ok (remove_thread tid s)"
  "procs_ok (set_vm v (stash_stack tid t s)) = procs_ok (remove_thread tid s)"
  "this_cpu v = cpu_idx s \<Longrightarrow> cpus_ok (set_vm v (stash_stack tid t s)) = cpus_ok (remove_thread tid s)"
  "owner (set_vm v (stash_stack tid t s)) = owner (remove_thread tid s)"
  "listed (set_vm v (stash_stack tid t s)) = listed (remove_thread tid s)"
  by (simp_all add: threads_ok_def procs_ok_def cpus_ok_def owner_def listed_def set_vm_def stash_stack_def remove_thread_def)

lemma remove_thread_from_process_inv:
  assumes "base_inv R s"
  shows "base_inv R (remove_thread_from_process pid tid s)" and "owner (remove_thread_from_process pid tid s) = owner s"
    and "listed (remove_thread_from_process pid tid s) = listed s - {(tid, pid)}"
proof -
  let ?s = "remove_thread_from_process pid tid s"
  have g: "distinct (filter (\<lambda>t. t \<noteq> tid) (p_threads q)) \<and> (pid = 0 \<longrightarrow> filter (\<lambda>t. t \<noteq> tid) (p_threads q) = [])"
    if "q \<in> set (PROCESSES s)" "p_pid q = pid" for q
    using assms that by (simp add: base_inv_def procs_ok_def)
  note u = upd_threads_inv[where g = "filter (\<lambda>t. t \<noteq> tid)", OF assms(1) g]
  show "base_inv R ?s" unfolding remove_thread_from_process_def by (rule u(1))
  show "owner ?s = owner s" unfolding remove_thread_from_process_def by (rule u(2))
  show "listed ?s = listed s - {(tid, pid)}"
  proof (rule set_eqI, unfold split_paired_all)
    fix i q
    show "(i, q) \<in> listed ?s \<longleftrightarrow> (i, q) \<in> listed s - {(tid, pid)}"
      unfolding remove_thread_from_process_def
    proof (rule trans[OF u(3)[of i q]])
      show "(\<exists>p \<in> set (PROCESSES s). p_pid p = q \<and> i \<in> set (if q = pid then filter (\<lambda>t. t \<noteq> tid) (p_threads p) else p_threads p))
          \<longleftrightarrow> (i, q) \<in> listed s - {(tid, pid)}"
        unfolding Diff_iff mem_listed by (cases "q = pid"; cases "i = tid") simp_all
    qed
  qed
qed

text \<open>No two threads of the table have the same number, so a thread has one owner.\<close>

lemma owner_unique: "threads_ok s \<Longrightarrow> (i, p) \<in> owner s \<Longrightarrow> (i, q) \<in> owner s \<Longrightarrow> p = q"
  unfolding mem_owner threads_ok_def by (metis distinct_map inj_onD)

text \<open>Marking a thread exited, waking its joiners and removing it, as seen by the tables.\<close>

lemma exit_removes:
  assumes "stacks_ok R s" and "cpu_idx s < MAX_CPUS" and "distinct (map t_tid (THREADS s))"
    and "t \<in> set (THREADS s)" and "t_tid t = tid"
    and "r = (let s2 = wakeup_thread_waiters tid (thread_set_state tid T_Exited s);
                  stack_base = (case thread_kernel_stack_base tid s2 of Some b \<Rightarrow> b | None \<Rightarrow> 0)
              in defer_free_kernel_stack stack_base (remove_thread tid s2))"
  obtains v t2 s2 where "r = Some (set_vm v (stash_stack tid t2 s2))" and "this_cpu v = cpu_idx s2"
    and "stacks_ok R (set_vm v (stash_stack tid t2 s2))" and "skel (remove_thread tid s2) = skel (remove_thread tid s)"
proof -
  let ?x = "thread_set_state tid T_Exited s"
  let ?s2 = "wakeup_thread_waiters tid ?x"
  let ?k = "\<lambda>t. (t_tid t, t_kernel_stack_base t)"
  have x: "?x = upd_thread tid (\<lambda>t. t\<lparr>t_state := T_Exited\<rparr>) s" by (simp add: thread_set_state_def)
  have w: "skel ?s2 = skel ?x" by (rule skel_wakeups)
  have f: "PENDING_STACK_FREE ?s2 = PENDING_STACK_FREE s" "kheap_of ?s2 = kheap_of s" "cpu_idx ?s2 = cpu_idx s"
    "map tkey (THREADS ?s2) = map tkey (THREADS ?x)"
    using w by (simp_all add: skel_def x upd_thread_def)
  have "map ?k (THREADS ?s2) = map ?k (THREADS ?x)"
    using arg_cong[OF f(4), of "map (\<lambda>(i, _, _, b, _). (i, b))"] by (simp add: o_def tkey_def)
  then have k: "map ?k (THREADS ?s2) = map ?k (THREADS s)"
    by (simp add: x upd_thread_def map_update_first)
  have "map fst (map ?k (THREADS ?s2)) = map fst (map ?k (THREADS s))" "map snd (map ?k (THREADS ?s2)) = map snd (map ?k (THREADS s))"
    unfolding k by (rule refl)+
  then have m: "map t_tid (THREADS ?s2) = map t_tid (THREADS s)"
    "map t_kernel_stack_base (THREADS ?s2) = map t_kernel_stack_base (THREADS s)"
    by (simp_all add: o_def del: map_eq_conv)
  have st: "stacks_ok R ?s2"
    by (rule stacks_ok_cong[THEN iffD2, OF f(2) _ assms(1)]) (simp only: stack_bases_def m f)
  have "tid \<in> set (map t_tid (THREADS ?s2))" unfolding m using assms(4,5) by (metis image_eqI set_map)
  then obtain t2 where t2: "t2 \<in> set (THREADS ?s2)" "t_tid t2 = tid" unfolding set_map by (elim imageE) simp
  have d: "distinct (map t_tid (THREADS ?s2))" unfolding m by (rule assms(3))
  have b: "thread_kernel_stack_base tid ?s2 = Some (t_kernel_stack_base t2)"
    using find_key[OF d t2(1)] t2(2) by (simp add: thread_kernel_stack_base_def find_thread_def)
  obtain v where v: "defer_free_kernel_stack (t_kernel_stack_base t2) (remove_thread tid ?s2) = Some (set_vm v (stash_stack tid t2 ?s2))"
    "this_cpu v = cpu_idx ?s2" "stacks_ok R (set_vm v (stash_stack tid t2 ?s2))"
    by (rule defer_free_kernel_stack_ok[OF st _ t2 d]) (use assms(2) f(3) in auto)
  have "skel (remove_thread tid ?s2) = skel (remove_thread tid ?x)" by (rule skel_remove_thread[OF w])
  also have "remove_thread tid ?x = remove_thread tid s" by (simp add: x)
  finally show thesis
    using that[of v t2 ?s2] v assms(6) b by (simp add: Let_def)
qed

lemma exit_current_thread_ok:
  assumes "task_inv R s"
  obtains s' where "exit_current_thread s = Some s'" and "task_inv R s'"
    and "owner s' = {x \<in> owner s. fst x \<noteq> current_tid s}" and "CURRENT_USER_TID s' (cpu_idx s) = None"
proof -
  let ?pid = "current_pid s" and ?tid = "current_tid s"
  let ?s0 = "remove_thread_from_process ?pid ?tid s"
  let ?s1 = "clear_current_pid (clear_current_user ?pid ?s0)"
  have inv: "base_inv R s" "owner s = listed s" using assms by (simp_all add: task_inv_def)
  note r = remove_thread_from_process_inv[OF inv(1), of ?pid ?tid]
  have cl: "same_tables ?s0 ?s1" "CURRENT_USER_PID ?s1 = (CURRENT_USER_PID ?s0)(cpu_idx s := None)"
    "CURRENT_USER_TID ?s1 = (CURRENT_USER_TID ?s0)(cpu_idx s := None)" "cpu_idx ?s0 = cpu_idx s"
    by (auto simp: same_tables_def clear_current_pid_def set_current_user_pid_def clear_current_user_def
        remove_thread_from_process_def upd_process_def)
  have "cpus_ok ?s1"
    by (rule cpus_ok_set[of ?s0 _ None None]) (use r(1) cl in \<open>simp_all add: base_inv_def same_tables_def\<close>)
  note s1 = same_tables_inv[OF cl(1) r(1) this]
  have cur1: "CURRENT_USER_TID ?s1 (cpu_idx s) = None" "cpu_idx ?s1 = cpu_idx s" using cl by (simp_all add: same_tables_def)
  show thesis
  proof (cases "?tid = 0")
    case True
    have nz: "fst x \<noteq> 0" if "x \<in> owner s" for x
      using that inv(1) by (auto simp: owner_def base_inv_def threads_ok_def)
    then have o: "{x \<in> owner s. fst x \<noteq> ?tid} = owner s" using True by auto
    have "(?tid, ?pid) \<notin> listed s" using nz[of "(?tid, ?pid)"] True inv(2) by auto
    then have "task_inv R ?s1" using s1 r(2,3) inv(2) by (simp add: task_inv_def)
    moreover have "exit_current_thread s = Some ?s1" using True by (simp add: exit_current_thread_def Let_def)
    ultimately show thesis using s1(2) r(2) o cur1(1) by (intro that[of ?s1]) simp_all
  next
    case False
    obtain t where t: "t \<in> set (THREADS s)" "t_pid t = ?pid" "t_tid t = ?tid" "t_assigned_cpu t = cpu_idx s"
      by (rule current_thread[OF inv(1)]) (use False in auto)
    have other: "CURRENT_USER_TID ?s1 c \<noteq> Some ?tid" for c
    proof
      assume c: "CURRENT_USER_TID ?s1 c = Some ?tid"
      with cur1(1) have "c \<noteq> cpu_idx s" by auto
      with c cl(3) have "CURRENT_USER_TID s c = Some ?tid" by (simp add: remove_thread_from_process_def upd_process_def)
      moreover have ok: "threads_ok s" "cpus_ok s" using inv(1) by (simp_all add: base_inv_def)
      ultimately obtain u where u: "u \<in> set (THREADS s)" "t_tid u = ?tid" "t_assigned_cpu u = c" by - (rule cpus_okE)
      from thread_pid_found(2)[OF ok(1) u(1)] thread_pid_found(2)[OF ok(1) t(1)] u(2) t(3) have "u = t" by simp
      with u(3) t(4) \<open>c \<noteq> cpu_idx s\<close> show False by simp
    qed
    have ok1: "threads_ok ?s1" "procs_ok ?s1" "cpus_ok ?s1" "stacks_ok R ?s1" using s1(1) by (simp_all add: base_inv_def)
    have ow: "owner s - {(?tid, ?pid)} = {x \<in> owner s. fst x \<noteq> ?tid}"
    proof -
      have "(?tid, ?pid) \<in> owner s" unfolding mem_owner using t(1-3) by blast
      then have "x = (?tid, ?pid)" if "x \<in> owner s" "fst x = ?tid" for x
        using owner_unique[of s ?tid "snd x" ?pid] that inv(1) by (cases x) (simp add: base_inv_def)
      then have "x \<in> owner s \<Longrightarrow> fst x = ?tid \<longleftrightarrow> x = (?tid, ?pid)" for x by (metis fst_conv)
      then show ?thesis by blast
    qed
    have t1: "t \<in> set (THREADS ?s1)"
      using t(1) cl(1) by (simp add: same_tables_def remove_thread_from_process_def upd_process_def)
    obtain v t2 s2 where e: "exit_current_thread s = Some (set_vm v (stash_stack ?tid t2 s2))"
      "this_cpu v = cpu_idx s2" "stacks_ok R (set_vm v (stash_stack ?tid t2 s2))"
      "skel (remove_thread ?tid s2) = skel (remove_thread ?tid ?s1)"
      by (rule exit_removes[OF ok1(4) _ _ t1 t(3)]) (use ok1 False in \<open>simp_all add: cpus_ok_def threads_ok_def exit_current_thread_def Let_def\<close>)
    let ?s' = "set_vm v (stash_stack ?tid t2 s2)"
    note k = skel_cong[OF e(4)] and rt = remove_thread_tables[OF ok1(1-3) other]
    have "base_inv R ?s'"
      using rt(1-3) k(5-7) e(2,3) by (simp add: base_inv_def stash_stack_tables)
    moreover have "owner ?s' = {x \<in> owner s. fst x \<noteq> ?tid}" "listed ?s' = {x \<in> owner s. fst x \<noteq> ?tid}"
      using rt(4,5) k(2,3) s1(2,3) r(2,3) ow inv(2) by (simp_all add: stash_stack_tables)
    moreover have "CURRENT_USER_TID ?s' (cpu_idx s) = None"
      using e(4) cur1(1) by (simp add: skel_def set_vm_def stash_stack_def remove_thread_def)
    ultimately show thesis using e(1) by (intro that[of ?s']) (simp_all add: task_inv_def)
  qed
qed

section \<open>Entering a thread\<close>

lemmas inv_simps = skel_simps[THEN skel_cong(4)]

definition pinned :: "u64 \<Rightarrow> 'a task_state_scheme \<Rightarrow> bool" where
  "pinned tid s \<longleftrightarrow> (\<exists>t \<in> set (THREADS s). t_tid t = tid \<and> t_assigned_cpu t = cpu_idx s)"

lemma pinned_tkey: "pinned tid s \<longleftrightarrow> (\<exists>k \<in> set (map tkey (THREADS s)). fst k = tid \<and> snd (snd (snd (snd k))) = cpu_idx s)"
  by (simp add: pinned_def tkey_def)

lemma pinned_cong: "skel s' = skel s \<Longrightarrow> pinned tid s' = pinned tid s"
  unfolding pinned_tkey by (simp add: skel_def del: set_map)

lemmas pinned_simps = skel_simps[THEN pinned_cong]

lemma set_current_pinned: "task_inv R s \<Longrightarrow> pinned tid s \<Longrightarrow> task_inv R (set_current_user_tid (Some tid) s)"
  using set_current_inv(5) by (auto simp: pinned_def)

lemma schedule_next_pinned:
  assumes "schedule_next cur s \<noteq> 0"
  shows "pinned (schedule_next cur s) s"
proof -
  have *: "pinned tid s" if "list_min (map t_tid (filter P (THREADS s))) = Some tid" "\<And>t. P t \<Longrightarrow> sched_ready (cpu_idx s) t" for P tid
  proof -
    have "tid \<in> t_tid ` set (filter P (THREADS s))" using that(1) unfolding list_min_Some_iff set_map by blast
    then obtain t where "tid = t_tid t" "t \<in> set (filter P (THREADS s))" by (rule imageE)
    then have "t \<in> set (THREADS s)" "P t" "tid = t_tid t" by simp_all
    with that(2)[of t] show ?thesis unfolding pinned_def sched_ready_def by blast
  qed
  show ?thesis
    using assms *[of "\<lambda>t. sched_ready (cpu_idx s) t \<and> cur < t_tid t"] *[of "sched_ready (cpu_idx s)"]
    by (auto simp: schedule_next_def Let_def split: option.splits)
qed

lemma enter_thread_inv:
  assumes "task_inv R s" and "pinned tid s"
  shows "task_inv R (snd (enter_thread tid s))"
proof -
  obtain r s1 where b: "thread_take_blocking_rsp tid s = (r, s1)" by (cases "thread_take_blocking_rsp tid s")
  obtain v s2 where v: "thread_take_blocking_retval tid s1 = (v, s2)" by (cases "thread_take_blocking_retval tid s1")
  have k1: "skel s1 = skel s" using skel_thread_take(1)[of tid s] b by simp
  have k2: "skel s2 = skel s1" using skel_thread_take(2)[of tid s1] v by simp
  have i1: "task_inv R s1" "pinned tid s1" using assms skel_cong(4)[OF k1] pinned_cong[OF k1] by simp_all
  have i2: "task_inv R s2" "pinned tid s2" using i1 skel_cong(4)[OF k2] pinned_cong[OF k2] by simp_all
  have sc: "task_inv R (set_current_user_tid (Some tid) (load_cr3 c x))" if "task_inv R x" "pinned tid x" for c x
    by (rule set_current_pinned) (use that in \<open>simp_all add: inv_simps pinned_simps\<close>)
  show ?thesis
    using i1(1) sc[OF i1] sc[OF i2] set_current_pinned[OF i2] set_current_inv(1)[OF i1(1)]
    by (simp add: enter_thread_def Let_def b v resume_kernel_def inv_simps split_beta split: option.splits bool.splits)
qed

lemma enter_next_process_inv:
  assumes "task_inv R s"
  shows "task_inv R (snd (enter_next_process s))"
proof (cases "schedule_next 0 s = 0")
  case True
  have "task_inv R (set_current_user_tid None (clear_current_pid (set_idle True s)))"
    by (rule set_current_inv(1), rule set_current_inv(3)) (use assms in \<open>simp add: inv_simps\<close>)
  with True show ?thesis by (simp add: enter_next_process_def wait_round_def Let_def)
next
  case False
  from enter_thread_inv[OF assms schedule_next_pinned[OF False]] assms False show ?thesis
    by (simp add: enter_next_process_def wait_round_def Let_def split_beta split: option.splits)
qed

lemma syscall_block_fn_inv:
  assumes "task_inv R s"
  shows "task_inv R (syscall_block_fn s)"
proof -
  have "skel (set_vm (switch_cr3 (kernel_cr3_of s) (vm (mach s))) s) = skel s"
    by (rule skel_set_vm) (simp_all add: switch_cr3_def)
  from skel_cong(4)[OF this] assms show ?thesis
    unfolding syscall_block_fn_def Let_def
    by (intro set_current_inv) (simp add: inv_simps split: option.splits)
qed

end
