(* ===== verification/Task_Properties.thy ===== *)
theory Task_Properties
  imports Task_Invariant
begin

text \<open>
  What the task subsystem guarantees: the invariant of theory \<open>Task_Invariant\<close> in every reachable
  state, the reclamation of an exiting thread's stack, the fairness of the round-robin scheduler, the
  enumeration of processes and threads, the guards of the termination requests and the choice of the
  out-of-memory victim.
\<close>

section \<open>Reachable states\<close>

text \<open>
  One operation of the task subsystem, or the machine going on with another CPU. Thread and process
  numbers are 64-bit counters; a step that draws one is taken while the counter has not run out.
\<close>

inductive task_step :: "'a task_state_scheme \<Rightarrow> 'a task_state_scheme \<Rightarrow> bool" where
  ts_cpu: "c < MAX_CPUS \<Longrightarrow> task_step s (set_vm ((vm (mach s))\<lparr>this_cpu := c\<rparr>) s)"
| ts_spawn: "NEXT_TID s < u64_max \<Longrightarrow> NEXT_PID s < u64_max \<Longrightarrow> task_step s (snd (spawn nm s))"
| ts_spawn_kernel_task: "NEXT_TID s < u64_max \<Longrightarrow> NEXT_PID s < u64_max \<Longrightarrow>
    task_step s (snd (spawn_kernel_task nm entry arg l s))"
| ts_spawn_user_process: "NEXT_TID s < u64_max \<Longrightarrow> NEXT_PID s < u64_max \<Longrightarrow>
    task_step s (snd (spawn_user_process nm entry top cr3 l argc argv s))"
| ts_spawn_user_thread: "NEXT_TID s < u64_max \<Longrightarrow> task_step s (snd (spawn_user_thread entry arg top s))"
| ts_exit_thread: "exit_current_thread s = Some s' \<Longrightarrow> task_step s s'"
| ts_enter: "task_step s (snd (enter_next_process s))"
| ts_block_fn: "task_step s (syscall_block_fn s)"
| ts_block: "task_step s (block_current w s)"
| ts_join: "task_step s (snd (join_current tid s))"
| ts_kill: "task_step s (kill_pid pid s)"
| ts_kill_children: "task_step s (kill_children pid s)"
| ts_sigint: "task_step s (send_sigint pid s)"
| ts_driver_exit: "task_step s (send_driver_exit pid s)"
| ts_sigterm: "task_step s (send_sigterm pid s)"
| ts_signal_catch: "task_step s (signal_set_catch pid m s)"
| ts_signal_check: "task_step s (snd (signal_check_and_clear pid s))"
| ts_shutdown_term: "task_step s (shutdown_sigterm_all s)"
| ts_shutdown_kill: "task_step s (shutdown_sigkill_all s)"
| ts_kill_pending: "task_step s (set_kill_pending pid s)"
| ts_ready: "task_step s (process_set_ready pid s)"
| ts_running: "task_step s (process_set_running pid s)"
| ts_sleeping: "task_step s (process_set_sleeping pid s)"
| ts_privilege: "task_step s (process_set_privilege pid l s)"
| ts_process_step: "task_step s (snd (process_step pid s))"
| ts_ticks: "task_step s (thread_add_cpu_ticks tid n s)"
| ts_process_ticks: "task_step s (process_add_cpu_ticks pid n s)"
| ts_memory: "task_step s (set_memory_bytes pid n s)"
| ts_memory_add: "task_step s (add_memory_bytes pid n s)"
| ts_memory_sub: "task_step s (sub_memory_bytes pid n s)"
| ts_winsize: "task_step s (set_winsize pid c r s)"
| ts_parent: "task_step s (set_parent pid q s)"
| ts_background: "task_step s (set_background pid b s)"
| ts_thread_ready: "task_step s (thread_set_ready tid s)"
| ts_preempted: "task_step s (thread_set_kernel_preempted tid b s)"
| ts_save_user: "task_step s (save_user_context tid p s)"
| ts_save_kernel: "task_step s (save_kernel_context tid p s)"
| ts_apply_return: "task_step s (snd (thread_apply_blocking_return_if_pending tid s))"
| ts_wake_key: "task_step s (snd (wakeup_key_waiters k s))"
| ts_wake_key_pid: "task_step s (snd (wakeup_key_waiter_for_pid pid k s))"
| ts_wake_pid: "task_step s (wakeup_pid_waiters pid s)"
| ts_wake_ipc: "task_step s (thread_wakeup_ipc_waiter tid r s)"
| ts_wake_irq: "task_step s (snd (wakeup_irq_waiter irq s))"
| ts_wake_audio: "task_step s (wakeup_audio_waiters s)"
| ts_wake_timer: "task_step s (wake_timer_sleepers now s)"
| ts_wake_tick: "task_step s (wake_tick_sleepers s)"

lemma set_cpu_inv:
  assumes "task_inv R s" and "c < MAX_CPUS"
  shows "task_inv R (set_vm ((vm (mach s))\<lparr>this_cpu := c\<rparr>) s)"
proof -
  let ?s = "set_vm ((vm (mach s))\<lparr>this_cpu := c\<rparr>) s"
  have ok: "threads_ok s" "procs_ok s" "cpus_ok s" "stacks_ok R s" "owner s = listed s"
    using assms(1) by (simp_all add: task_inv_def base_inv_def)
  have "threads_ok ?s" using ok(1) by (simp add: threads_ok_def set_vm_def)
  moreover have "procs_ok ?s" using ok(2) by (simp add: procs_ok_def set_vm_def)
  moreover have "cpus_ok ?s" using ok(3) assms(2) by (simp add: cpus_ok_def set_vm_def)
  moreover have "stacks_ok R ?s"
    by (rule stacks_ok_cong[THEN iffD2, OF _ _ ok(4)]) (simp_all add: set_vm_def stack_bases_def)
  moreover have "owner ?s = owner s" "listed ?s = listed s" by (simp_all add: owner_def listed_def set_vm_def)
  ultimately show ?thesis using ok(5) by (simp add: task_inv_def base_inv_def)
qed

lemma task_step_inv:
  assumes "task_step s s'" and "task_inv R s"
  shows "task_inv R s'"
  using assms
proof cases
  case ts_exit_thread
  then show ?thesis using exit_current_thread_ok[OF assms(2)] by (metis option.inject)
qed (use assms(2) spawn_inv[OF assms(2)] spawn_user_thread_inv[OF assms(2)] set_cpu_inv[OF assms(2)]
    enter_next_process_inv[OF assms(2)] syscall_block_fn_inv[OF assms(2)] in \<open>simp_all add: inv_simps\<close>)

lemma task_inv_boot:
  assumes "heap_inv R (kh (vm m))" and "R \<subseteq> {..< 2 ^ 64}" and "this_cpu (vm m) < MAX_CPUS"
  shows "task_inv R (process_init (task_boot m n stacks idle))"
proof -
  let ?s = "process_init (task_boot m n stacks idle)"
  have f: "THREADS ?s = []" "PROCESSES ?s = [kernel_process]" "NEXT_TID ?s = 1" "NEXT_PID ?s = 1"
    "threads_INITIALIZED ?s" "processes_INITIALIZED ?s" "CURRENT_USER_TID ?s = (\<lambda>_. None)" "CURRENT_USER_PID ?s = (\<lambda>_. None)"
    "PENDING_STACK_FREE ?s = (\<lambda>_. 0)" "mach ?s = m"
    by (simp_all add: process_init_def task_boot_def thread_init_def)
  have "stack_bases ?s = []" by (simp add: stack_bases_def f)
  then have "stacks_ok R ?s" unfolding stacks_ok_def using assms(1,2) f(10) by simp
  moreover have "threads_ok ?s" by (simp add: threads_ok_def f)
  moreover have "procs_ok ?s" by (simp add: procs_ok_def f kernel_process_def)
  moreover have "cpus_ok ?s" using assms(3) by (simp add: cpus_ok_def f)
  moreover have "owner ?s = listed ?s" by (simp add: owner_def listed_def f kernel_process_def)
  ultimately show ?thesis by (simp add: task_inv_def base_inv_def)
qed

section \<open>Walking upwards through a set of numbers\<close>

text \<open>
  The kernel enumerates processes and threads by asking for the least number above the last one. The
  interface: a finite set of keys and a function with that law. Its client is the loop that asks until
  there is none.
\<close>

primrec collect :: "nat \<Rightarrow> ('k \<Rightarrow> 'k option) \<Rightarrow> 'k \<Rightarrow> 'k list" where
  "collect 0 f c = []"
| "collect (Suc n) f c = (case f c of None \<Rightarrow> [] | Some d \<Rightarrow> d # collect n f d)"

locale enumerator =
  fixes keys :: "'k :: linorder set" and next_key :: "'k \<Rightarrow> 'k option"
  assumes finite_keys: "finite keys"
    and next_None: "next_key c = None \<longleftrightarrow> {k \<in> keys. c < k} = {}"
    and next_Some: "next_key c = Some d \<Longrightarrow> d \<in> keys \<and> c < d \<and> (\<forall>k \<in> keys. c < k \<longrightarrow> d \<le> k)"
begin

lemma above_next: "next_key c = Some d \<Longrightarrow> {k \<in> keys. c < k} = insert d {k \<in> keys. d < k}"
  using next_Some[of c d] by auto

lemma collect_all: "card {k \<in> keys. c < k} \<le> n \<Longrightarrow> collect n next_key c = sorted_list_of_set {k \<in> keys. c < k}"
proof (induction n arbitrary: c)
  case 0
  have "finite {k \<in> keys. c < k}" using finite_keys by simp
  with 0 have "{k \<in> keys. c < k} = {}" by (simp only: le_0_eq card_eq_0_iff) blast
  then show ?case by (simp only: collect.simps sorted_list_of_set_empty)
next
  case (Suc n)
  show ?case
  proof (cases "next_key c")
    case None
    then have "{k \<in> keys. c < k} = {}" using next_None by blast
    then show ?thesis using None by (simp only: collect.simps option.case sorted_list_of_set_empty)
  next
    case (Some d)
    have fin: "finite {k \<in> keys. d < k}" using finite_keys by simp
    have "{k \<in> keys. c < k} \<noteq> {}" using next_Some[OF Some] by blast
    moreover have "Min {k \<in> keys. c < k} = d" using finite_keys next_Some[OF Some] by (intro Min_eqI) auto
    ultimately have "sorted_list_of_set {k \<in> keys. c < k} = d # sorted_list_of_set ({k \<in> keys. c < k} - {d})"
      using sorted_list_of_set_nonempty[of "{k \<in> keys. c < k}"] finite_keys by simp
    also have "{k \<in> keys. c < k} - {d} = {k \<in> keys. d < k}" unfolding above_next[OF Some] by auto
    finally have l: "sorted_list_of_set {k \<in> keys. c < k} = d # sorted_list_of_set {k \<in> keys. d < k}" .
    have "card {k \<in> keys. c < k} = Suc (card {k \<in> keys. d < k})"
      unfolding above_next[OF Some] using fin by simp
    with Suc.prems have "collect n next_key d = sorted_list_of_set {k \<in> keys. d < k}" by (intro Suc.IH) simp
    with Some show ?thesis unfolding l by simp
  qed
qed

end

text \<open>The least key above a bound, by a filter and \<open>min\<close> over a vector.\<close>

lemma enumerator_list:
  "enumerator (k ` {x \<in> set xs. P x}) (\<lambda>c. list_min (map k (filter (\<lambda>x. P x \<and> c < k x) xs)))"
proof
  show "finite (k ` {x \<in> set xs. P x})" by simp
  fix c d
  show "list_min (map k (filter (\<lambda>x. P x \<and> c < k x) xs)) = None \<longleftrightarrow> {y \<in> k ` {x \<in> set xs. P x}. c < y} = {}"
    unfolding list_min_None_iff map_is_Nil_conv filter_empty_conv by blast
  assume "list_min (map k (filter (\<lambda>x. P x \<and> c < k x) xs)) = Some d"
  then show "d \<in> k ` {x \<in> set xs. P x} \<and> c < d \<and> (\<forall>y \<in> k ` {x \<in> set xs. P x}. c < y \<longrightarrow> d \<le> y)"
    unfolding list_min_Some_iff set_map set_filter by blast
qed

interpretation pids: enumerator "p_pid ` {p \<in> set (PROCESSES s). p_state p \<noteq> P_Empty}" "\<lambda>c. next_pid_after c s"
  for s :: "'a task_state_scheme"
  unfolding next_pid_after_def by (rule enumerator_list)

interpretation active_pids: enumerator "p_pid ` {p \<in> set (PROCESSES s). p_state p \<in> {P_Ready, P_Running}}"
  "\<lambda>c. active_pid_after c s" for s :: "'a task_state_scheme"
  unfolding active_pid_after_def by (rule enumerator_list)

interpretation active_tids: enumerator "t_tid ` {t \<in> set (THREADS s). t_state t \<in> {T_Ready, T_Running}}"
  "\<lambda>c. active_tid_after c s" for s :: "'a task_state_scheme"
  unfolding active_tid_after_def by (rule enumerator_list)

interpretation pid_tids: enumerator "t_tid ` {t \<in> set (THREADS s). t_pid t = pid \<and> t_state t \<noteq> T_Empty}"
  "\<lambda>c. next_thread_in_pid pid c s" for pid and s :: "'a task_state_scheme"
proof -
  have "next_thread_in_pid pid c s
      = list_min (map t_tid (filter (\<lambda>t. (t_pid t = pid \<and> t_state t \<noteq> T_Empty) \<and> c < t_tid t) (THREADS s)))" for c
    unfolding next_thread_in_pid_def
    by (rule arg_cong[where f = "\<lambda>xs. list_min (map t_tid xs)"], rule filter_cong[OF refl]) blast
  then show "enumerator (t_tid ` {t \<in> set (THREADS s). t_pid t = pid \<and> t_state t \<noteq> T_Empty}) (\<lambda>c. next_thread_in_pid pid c s)"
    by (simp only: enumerator_list)
qed

lemma card_keys: "card {y \<in> k ` {x \<in> set xs. P x}. c < y} \<le> length xs"
proof -
  have "card {y \<in> k ` {x \<in> set xs. P x}. c < y} \<le> card (k ` set xs)" by (rule card_mono) auto
  also have "\<dots> \<le> card (set xs)" by (rule card_image_le) simp
  also have "\<dots> \<le> length xs" by (rule card_length)
  finally show ?thesis .
qed

section \<open>Round robin\<close>

text \<open>The cyclic successor of \<open>c\<close> in a finite set \<open>K\<close>.\<close>

definition cyclic_next :: "'k :: linorder set \<Rightarrow> 'k \<Rightarrow> 'k" where
  "cyclic_next K c = (if {k \<in> K. c < k} = {} then Min K else Min {k \<in> K. c < k})"

lemma cyclic_up:
  assumes "finite K" and "x \<in> K" and "c < x"
  shows "(cyclic_next K ^^ card {k \<in> K. c < k \<and> k \<le> x}) c = x"
  using assms(3)
proof (induction "card {k \<in> K. c < k \<and> k \<le> x}" arbitrary: c)
  case 0
  with assms(1,2) show ?case by auto
next
  case (Suc n)
  let ?d = "cyclic_next K c"
  have ne: "{k \<in> K. c < k} \<noteq> {}" using assms(2) Suc.prems by auto
  have fin: "finite {k \<in> K. c < k}" using assms(1) by simp
  have d: "?d = Min {k \<in> K. c < k}" using ne by (simp only: cyclic_next_def if_False)
  have d1: "?d \<in> K" "c < ?d" using Min_in[OF fin ne] unfolding d by auto
  have d2: "?d \<le> x" unfolding d using fin assms(2) Suc.prems by (intro Min_le) auto
  have "k \<in> K \<Longrightarrow> c < k \<Longrightarrow> ?d \<le> k" for k unfolding d using fin by (intro Min_le) auto
  then have s: "{k \<in> K. c < k \<and> k \<le> x} = insert ?d {k \<in> K. ?d < k \<and> k \<le> x}" using d1 d2 by force
  have n: "n = card {k \<in> K. ?d < k \<and> k \<le> x}" using Suc.hyps(2) assms(1) unfolding s by simp
  show ?case
  proof (cases "?d = x")
    case True
    then have "{k \<in> K. ?d < k \<and> k \<le> x} = {}" by auto
    with n have "n = 0" by (simp only: card.empty)
    with True show ?thesis unfolding Suc.hyps(2)[symmetric] by simp
  next
    case False
    with d2 Suc.hyps(1)[OF n] show ?thesis unfolding Suc.hyps(2)[symmetric] n[symmetric] funpow_Suc_right by (simp add: n)
  qed
qed

lemma cyclic_wrap:
  assumes "finite K"
  shows "(cyclic_next K ^^ Suc (card {k \<in> K. c < k})) c = Min K"
proof -
  let ?A = "{k \<in> K. c < k}"
  have fin: "finite ?A" using assms by simp
  have "{k \<in> K. (cyclic_next K ^^ card ?A) c < k} = {}"
  proof (cases "?A = {}")
    case True
    then have "card ?A = 0" by (simp only: card.empty)
    then show ?thesis using True by (simp only: funpow_0)
  next
    case False
    have m: "Max ?A \<in> ?A" by (rule Max_in[OF fin False])
    have "{k \<in> K. c < k \<and> k \<le> Max ?A} = ?A" using Max_ge[OF fin] by auto
    with cyclic_up[OF assms, of "Max ?A" c] m have "(cyclic_next K ^^ card ?A) c = Max ?A" by simp
    moreover have "\<not> Max ?A < k" if "k \<in> K" for k
      using that m Max_ge[OF fin, of k] by (cases "c < k") auto
    ultimately show ?thesis by simp
  qed
  then show ?thesis by (simp add: cyclic_next_def)
qed

lemma cyclic_reach:
  assumes "finite K" and "x \<in> K"
  shows "\<exists>n \<ge> 1. n \<le> card K \<and> (cyclic_next K ^^ n) c = x"
proof (cases "c < x")
  case True
  have f: "finite {k \<in> K. c < k \<and> k \<le> x}" using assms(1) by simp
  have "x \<in> {k \<in> K. c < k \<and> k \<le> x}" using True assms(2) by simp
  then have "1 \<le> card {k \<in> K. c < k \<and> k \<le> x}" using f by (metis One_nat_def Suc_leI card_gt_0_iff empty_iff)
  moreover have "card {k \<in> K. c < k \<and> k \<le> x} \<le> card K" by (rule card_mono[OF assms(1)]) auto
  ultimately show ?thesis using cyclic_up[OF assms True] by blast
next
  case False
  let ?A = "{k \<in> K. c < k}" and ?m = "Min K"
  let ?B = "{k \<in> K. ?m < k \<and> k \<le> x}"
  have ne: "K \<noteq> {}" using assms(2) by auto
  have m: "?m \<in> K" "?m \<le> x" using Min_in[OF assms(1) ne] Min_le[OF assms(1,2)] by auto
  have "(cyclic_next K ^^ card ?B) ?m = x"
  proof (cases "?m = x")
    case True
    then have "?B = {}" by auto
    then show ?thesis using True by (simp only: card.empty funpow_0)
  next
    case neq: False
    then show ?thesis using cyclic_up[OF assms, of ?m] m(2) by simp
  qed
  then have reach: "(cyclic_next K ^^ (card ?B + Suc (card ?A))) c = x"
    unfolding funpow_add o_def cyclic_wrap[OF assms(1)] .
  have "card ?B + Suc (card ?A) = card (insert ?m (?B \<union> ?A))"
  proof -
    have "?B \<inter> ?A = {}" "?m \<notin> ?B \<union> ?A" using False m(2) by auto
    then show ?thesis using assms(1) by (simp add: card_Un_disjoint)
  qed
  moreover have "card (insert ?m (?B \<union> ?A)) \<le> card K" by (rule card_mono[OF assms(1)]) (use m(1) in auto)
  ultimately have "card ?B + Suc (card ?A) \<le> card K" by (simp only:)
  with reach show ?thesis by (intro exI[of _ "card ?B + Suc (card ?A)"]) (simp only: le_add2 le_add1 Suc_le_mono, simp)
qed

lemma list_min_Min: "list_min xs = (if set xs = {} then None else Some (Min (set xs)))"
proof (cases "list_min xs")
  case None
  then show ?thesis by simp
next
  case (Some m)
  then have "m \<in> set xs" "\<forall>y \<in> set xs. m \<le> y" unfolding list_min_Some_iff by blast+
  then have "set xs \<noteq> {}" "Min (set xs) = m" by (auto intro: Min_eqI)
  with Some show ?thesis by simp
qed

definition ready_tids :: "'a task_state_scheme \<Rightarrow> u64 set" where
  "ready_tids s = t_tid ` {t \<in> set (THREADS s). sched_ready (cpu_idx s) t}"

lemma ready_tids_code: "ready_tids s = set (map t_tid (filter (sched_ready (cpu_idx s)) (THREADS s)))"
  by (simp add: ready_tids_def)

lemma schedule_next_cyclic:
  assumes "ready_tids s \<noteq> {}"
  shows "schedule_next c s = cyclic_next (ready_tids s) c"
proof -
  have "set (map t_tid (filter (\<lambda>t. sched_ready (cpu_idx s) t \<and> c < t_tid t) (THREADS s))) = {k \<in> ready_tids s. c < k}"
    using image_filter[of t_tid "{t \<in> set (THREADS s). sched_ready (cpu_idx s) t}" "\<lambda>k. c < k"]
    by (simp add: ready_tids_def)
  moreover note ready_tids_code[symmetric, of s]
  ultimately show ?thesis
    using assms unfolding schedule_next_def Let_def list_min_Min cyclic_next_def by auto
qed

text \<open>A machine with two CPUs and a one-megabyte kernel heap, after initialisation and with a first task.\<close>

definition demo_tasks :: task_state where
  "demo_tasks = process_init (task_boot \<lparr>vm = demo_vmm, ram = (\<lambda>_. 0)\<rparr> 2 0 0)"

definition demo_ready :: task_state where
  "demo_ready = demo_tasks\<lparr>THREADS := [(new_thread 1 1 0 0 User 0)\<lparr>t_state := T_Ready\<rparr>,
     (new_thread 2 1 0 0 User 1)\<lparr>t_state := T_Ready\<rparr>, (new_thread 3 1 0 0 User 0)\<lparr>t_state := T_Ready\<rparr>]\<rparr>"

lemma demo_tasks_counters: "NEXT_TID demo_tasks < u64_max" "NEXT_PID demo_tasks < u64_max"
  by (simp_all add: demo_tasks_def process_init_def thread_init_def task_boot_def)

lemma demo_tasks_steps: "task_step\<^sup>*\<^sup>* demo_tasks (snd (enter_next_process (snd (spawn [115] demo_tasks))))"
proof -
  have "task_step demo_tasks (snd (spawn [115] demo_tasks))" by (rule ts_spawn[OF demo_tasks_counters])
  then show ?thesis by (rule rtranclp.rtrancl_into_rtrancl[OF r_into_rtranclp]) (rule ts_enter)
qed

lemma demo_boot:
  "heap_inv {0x100000 ..< 0x200000} (kh (vm \<lparr>vm = demo_vmm, ram = (\<lambda>_. 0)\<rparr>))"
  "{0x100000 ..< 0x200000 :: nat} \<subseteq> {..< 2 ^ 64}"
  "this_cpu (vm \<lparr>vm = demo_vmm, ram = (\<lambda>_. 0)\<rparr>) < MAX_CPUS"
  using demo_heap by (auto simp: demo_vmm_def MAX_CPUS_def)

lemma demo_tasks_inv: "task_inv {0x100000 ..< 0x200000} demo_tasks"
  unfolding demo_tasks_def by (rule task_inv_boot[OF demo_boot])

lemma task_steps_inv: "task_step\<^sup>*\<^sup>* s s' \<Longrightarrow> task_inv R s \<Longrightarrow> task_inv R s'"
  by (induction rule: rtranclp_induct) (auto intro: task_step_inv)

section \<open>Entering a thread\<close>

lemma current_cong: "skel s' = skel s \<Longrightarrow> CURRENT_USER_TID s' = CURRENT_USER_TID s"
  by (simp add: skel_def)

lemmas current_simps = skel_simps[THEN current_cong]

lemma pinned_found:
  assumes "pinned tid s"
  shows "\<exists>ctx. thread_user_context tid s = Some ctx"
proof -
  obtain t where "t \<in> set (THREADS s)" "t_tid t = tid" using assms unfolding pinned_def by (elim bexE conjE)
  then have "find_thread tid s \<noteq> None" unfolding find_thread_def find_None_iff by blast
  then show ?thesis unfolding thread_user_context_def by simp
qed

lemma pinned_cpu:
  assumes "pinned tid s" and "distinct (map t_tid (THREADS s))"
  shows "thread_assigned_cpu tid s = Some (cpu_idx s)"
proof -
  obtain t where t: "t \<in> set (THREADS s)" "t_tid t = tid" "t_assigned_cpu t = cpu_idx s"
    using assms(1) unfolding pinned_def by (elim bexE conjE)
  with find_key[OF assms(2) t(1)] show ?thesis unfolding thread_assigned_cpu_def find_thread_def by simp
qed

lemma enter_thread_current:
  assumes "pinned tid s"
  shows "CURRENT_USER_TID (snd (enter_thread tid s)) (cpu_idx s) = Some tid"
    and "fst (enter_thread tid s) \<noteq> Wrong_Cpu" and "fst (enter_thread tid s) \<noteq> Halted"
proof -
  obtain r s1 where b: "thread_take_blocking_rsp tid s = (r, s1)" by (cases "thread_take_blocking_rsp tid s")
  obtain v s2 where v: "thread_take_blocking_retval tid s1 = (v, s2)" by (cases "thread_take_blocking_retval tid s1")
  have k: "skel s1 = skel s" "skel s2 = skel s" using skel_thread_take(1)[of tid s] skel_thread_take(2)[of tid s1] b v by simp_all
  have c: "cpu_idx s1 = cpu_idx s" "cpu_idx s2 = cpu_idx s" using k by (simp_all add: skel_def)
  obtain ctx ctx2 where u: "thread_user_context tid s1 = Some ctx" "thread_user_context tid s2 = Some ctx2"
    using pinned_found[of tid s1] pinned_found[of tid s2] assms pinned_cong[OF k(1)] pinned_cong[OF k(2)] by blast
  have sc: "CURRENT_USER_TID (set_current_user_tid (Some tid) (load_cr3 x y)) (cpu_idx y) = Some tid" for x and y :: "'a task_state_scheme"
    by (simp add: set_current_user_tid_def load_cr3_def set_vm_def switch_cr3_def)
  show "CURRENT_USER_TID (snd (enter_thread tid s)) (cpu_idx s) = Some tid"
    using sc[of _ s1] sc[of _ s2] unfolding c
    by (simp add: enter_thread_def Let_def b v u resume_kernel_def current_simps split_beta split: option.splits bool.splits)
  show "fst (enter_thread tid s) \<noteq> Wrong_Cpu" "fst (enter_thread tid s) \<noteq> Halted"
    by (simp_all add: enter_thread_def Let_def b v u split_beta split: option.splits bool.splits)
qed

lemma schedule_next_first:
  assumes "threads_ok s"
  shows "schedule_next 0 s = (if ready_tids s = {} then 0 else Min (ready_tids s))"
    and "0 \<notin> ready_tids s"
proof -
  show nz: "0 \<notin> ready_tids s"
  proof
    assume "0 \<in> ready_tids s"
    then obtain t where "0 = t_tid t" "t \<in> {t \<in> set (THREADS s). sched_ready (cpu_idx s) t}"
      unfolding ready_tids_def by (rule imageE)
    then have "0 = t_tid t" "t \<in> set (THREADS s)" by simp_all
    moreover have "0 < t_tid t" using calculation(2) assms unfolding threads_ok_def by blast
    ultimately show False by simp
  qed
  have pos: "{k \<in> ready_tids s. 0 < k} = ready_tids s" using nz word_gt_0 by auto
  show "schedule_next 0 s = (if ready_tids s = {} then 0 else Min (ready_tids s))"
  proof (cases "ready_tids s = {}")
    case True
    then have "filter (sched_ready (cpu_idx s)) (THREADS s) = []" unfolding ready_tids_code by simp
    then have "list_min (map t_tid (filter (sched_ready (cpu_idx s)) (THREADS s))) = None"
      "list_min (map t_tid (filter (\<lambda>t. sched_ready (cpu_idx s) t \<and> 0 < t_tid t) (THREADS s))) = None"
      unfolding list_min_None_iff filter_empty_conv by simp_all
    with True show ?thesis unfolding schedule_next_def Let_def by simp
  next
    case False
    with schedule_next_cyclic[OF False] pos show ?thesis by (simp only: cyclic_next_def if_False)
  qed
qed

section \<open>Termination requests\<close>








section \<open>The out-of-memory victim\<close>

definition oom_candidates :: "u64 \<Rightarrow> process list \<Rightarrow> (u64 \<times> u64) set" where
  "oom_candidates exclude ps = (\<lambda>p. (p_pid p, p_memory_bytes p)) `
     {p \<in> set ps. p_pid p \<noteq> 0 \<and> p_pid p \<noteq> exclude \<and> p_privilege p = User \<and> p_state p \<notin> {P_Empty, P_Exited}}"

lemma oom_candidates_snoc:
  "oom_candidates e (ps @ [p]) = (if p_pid p \<noteq> 0 \<and> p_pid p \<noteq> e \<and> p_privilege p = User \<and> p_state p \<notin> {P_Empty, P_Exited}
     then insert (p_pid p, p_memory_bytes p) (oom_candidates e ps) else oom_candidates e ps)"
proof -
  have "{q \<in> set (ps @ [p]). P q} = (if P p then insert p {q \<in> set ps. P q} else {q \<in> set ps. P q})" for P by auto
  then show ?thesis unfolding oom_candidates_def by (simp only: image_insert if_distrib[of "image _"] split: if_split)
qed

lemma oom_fold:
  "case fold (oom_step e) ps None of
     None \<Rightarrow> oom_candidates e ps = {}
   | Some b \<Rightarrow> b \<in> oom_candidates e ps \<and> (\<forall>x \<in> oom_candidates e ps. snd x \<le> snd b)"
proof (induction ps rule: rev_induct)
  case Nil
  then show ?case by (simp add: oom_candidates_def)
next
  case (snoc p ps)
  have "case oom_step e p r of
      None \<Rightarrow> oom_candidates e (ps @ [p]) = {}
    | Some b \<Rightarrow> b \<in> oom_candidates e (ps @ [p]) \<and> (\<forall>x \<in> oom_candidates e (ps @ [p]). snd x \<le> snd b)"
    if "case r of None \<Rightarrow> oom_candidates e ps = {}
      | Some b \<Rightarrow> b \<in> oom_candidates e ps \<and> (\<forall>x \<in> oom_candidates e ps. snd x \<le> snd b)" for r
    using that unfolding oom_candidates_snoc oom_step_def by (cases r) (auto simp: not_less intro: order_trans)
  then show ?case using snoc unfolding fold_append o_def fold.simps id_def .
qed

section \<open>Properties\<close>



text \<open>C5: In a consistent state the exit of the current thread succeeds: the frees it performs are never
  double or foreign, the thread disappears from both tables and from the CPU, no other thread does, and
  the state stays consistent, with the stack the CPU still runs on kept alive until the next exit.\<close>

theorem exit_current_thread_safe:
  assumes "task_inv R s"
  shows "\<exists>s'. exit_current_thread s = Some s' \<and> task_inv R s'
    \<and> owner s' = {x \<in> owner s. fst x \<noteq> current_tid s} \<and> CURRENT_USER_TID s' (cpu_idx s) = None"
  by (rule exit_current_thread_ok[OF assms]) (intro exI conjI)

theorem exit_current_thread_safe_witness:
  "exit_current_thread (snd (enter_next_process (snd (spawn [115] demo_tasks)))) \<noteq> None"
  using exit_current_thread_safe[OF task_steps_inv[OF demo_tasks_steps demo_tasks_inv]] by auto

text \<open>C4: The scheduler is fair: whatever thread number the search starts from, every thread that is ready
  on this CPU is chosen within as many rounds as there are ready threads on the CPU.\<close>

theorem schedule_next_fair:
  assumes "tid \<in> ready_tids s"
  shows "\<exists>n \<ge> 1. n \<le> card (ready_tids s) \<and> ((\<lambda>c. schedule_next c s) ^^ n) cur = tid"
proof -
  have "ready_tids s \<noteq> {}" using assms by blast
  then have "(\<lambda>c. schedule_next c s) = cyclic_next (ready_tids s)" using schedule_next_cyclic by blast
  then show ?thesis using cyclic_reach[OF _ assms] by (simp add: ready_tids_def)
qed

theorem schedule_next_fair_witness:
  "\<exists>n \<ge> 1. n \<le> card (ready_tids demo_ready) \<and> ((\<lambda>c. schedule_next c demo_ready) ^^ n) 3 = 1"
  by (rule schedule_next_fair)
    (simp add: ready_tids_code demo_ready_def demo_tasks_def process_init_def task_boot_def thread_init_def
      sched_ready_def new_thread_def demo_vmm_def)

text \<open>C18: In a consistent state a CPU that looks for work either finds none, because no thread is ready on it,
  and records that it is idle with no current thread, or enters the ready thread of lowest number among
  those pinned to it and makes it current. It never enters a thread of another CPU and never halts for want
  of a context.\<close>

theorem enter_next_dispatches:
  assumes "task_inv R s"
  shows "case enter_next_process s of
      (None, s') \<Rightarrow> ready_tids s = {} \<and> CURRENT_USER_TID s' (cpu_idx s) = None \<and> IS_IDLE s' (cpu_idx s)
    | (Some e, s') \<Rightarrow> ready_tids s \<noteq> {} \<and> CURRENT_USER_TID s' (cpu_idx s) = Some (Min (ready_tids s))
        \<and> e \<noteq> Wrong_Cpu \<and> e \<noteq> Halted"
proof -
  have ok: "threads_ok s" "distinct (map t_tid (THREADS s))"
    using assms by (simp_all add: task_inv_def base_inv_def threads_ok_def)
  show ?thesis
  proof (cases "ready_tids s = {}")
    case True
    then have "schedule_next 0 s = 0" using schedule_next_first(1)[OF ok(1)] by simp
    with True show ?thesis
      by (simp add: enter_next_process_def wait_round_def Let_def set_current_user_tid_def clear_current_pid_def
          set_current_user_pid_def set_idle_def)
  next
    case False
    then have "schedule_next 0 s = Min (ready_tids s)" using schedule_next_first(1)[OF ok(1)] by simp
    moreover have "Min (ready_tids s) \<noteq> 0" using False schedule_next_first(2)[OF ok(1)] Min_in[of "ready_tids s"]
      by (metis List.finite_set ready_tids_code)
    moreover have "pinned (schedule_next 0 s) s" using calculation schedule_next_pinned[of 0 s] by simp
    ultimately show ?thesis
      using False enter_thread_current[of "Min (ready_tids s)" s] pinned_cpu[OF _ ok(2), of "Min (ready_tids s)"]
      by (simp add: enter_next_process_def wait_round_def Let_def split_beta)
  qed
qed

theorem enter_next_dispatches_witness:
  "CURRENT_USER_TID (snd (enter_next_process (snd (spawn [115] demo_tasks)))) 0 = Some 1"
proof -
  have inv: "task_inv {0x100000 ..< 0x200000} (snd (spawn [115] demo_tasks))"
    by (rule task_step_inv[OF ts_spawn[OF demo_tasks_counters] demo_tasks_inv])
  have "case spawn [115] demo_tasks of (_, s) \<Rightarrow> cpu_idx s = 0 \<and> map t_tid (filter (sched_ready 0) (THREADS s)) = [1]"
    by code_simp
  then have "ready_tids (snd (spawn [115] demo_tasks)) = {1}" "cpu_idx (snd (spawn [115] demo_tasks)) = 0"
    unfolding ready_tids_code by (simp_all add: split_beta)
  with enter_next_dispatches[OF inv] show ?thesis by (simp add: split_beta split: prod.splits option.splits)
qed

text \<open>C32: Enumerating the processes from the kernel's process on with \<open>next_pid_after\<close>, and the threads of a
  process with \<open>next_thread_in_pid\<close>, lists each live entry exactly once, in increasing order, and ends
  after at most as many calls as the table has entries.\<close>

theorem enumeration_complete:
  "collect (length (PROCESSES s)) (\<lambda>c. next_pid_after c s) 0
     = sorted_list_of_set {pid \<in> p_pid ` {p \<in> set (PROCESSES s). p_state p \<noteq> P_Empty}. 0 < pid}
   \<and> collect (length (THREADS s)) (\<lambda>c. next_thread_in_pid pid c s) 0
     = sorted_list_of_set {tid \<in> t_tid ` {t \<in> set (THREADS s). t_pid t = pid \<and> t_state t \<noteq> T_Empty}. 0 < tid}"
  by (intro conjI pids.collect_all pid_tids.collect_all card_keys)


text \<open>C31: When memory runs out the victim is a live process at user privilege, neither the kernel's nor the
  excluded one, that holds the most memory of all such processes; there is no victim only when there is no
  such process.\<close>

theorem oom_victim_greedy:
  "case oom_victim exclude s of
     None \<Rightarrow> oom_candidates exclude (PROCESSES s) = {}
   | Some v \<Rightarrow> \<exists>m. (v, m) \<in> oom_candidates exclude (PROCESSES s) \<and> (\<forall>x \<in> oom_candidates exclude (PROCESSES s). snd x \<le> m)"
  using oom_fold[of exclude "PROCESSES s"] by (auto simp: oom_victim_def split: option.splits)

theorem oom_victim_greedy_witness:
  "\<exists>m. (2, m) \<in> oom_candidates 3 [kernel_process, (new_process 1 [] 0 User 1)\<lparr>p_memory_bytes := 4096\<rparr>,
      (new_process 2 [] 0 User 2)\<lparr>p_memory_bytes := 8192\<rparr>, (new_process 3 [] 0 User 3)\<lparr>p_memory_bytes := 12288\<rparr>]"
  using oom_victim_greedy[of 3 "demo_tasks\<lparr>PROCESSES := [kernel_process, (new_process 1 [] 0 User 1)\<lparr>p_memory_bytes := 4096\<rparr>,
      (new_process 2 [] 0 User 2)\<lparr>p_memory_bytes := 8192\<rparr>, (new_process 3 [] 0 User 3)\<lparr>p_memory_bytes := 12288\<rparr>]\<rparr>"]
  by (simp add: oom_victim_def oom_step_def kernel_process_def new_process_def) blast

end
