(* ===== verification/Ipc.thy ===== *)
theory Ipc
  imports Task_Invariant
begin

text \<open>
  The named message channels of \<open>ipc.rs\<close>. The table of channels extends the state of the task
  subsystem, because sending and receiving put processes to sleep and wake them. Every function runs
  under the thread lock and is one atomic step. A buffer to fill is its length on the way in and the
  bytes written to it on the way out.
\<close>

section \<open>Channels\<close>

definition MAX_CHANNELS :: nat where "MAX_CHANNELS = 32"
definition MAX_MSG_SIZE :: nat where "MAX_MSG_SIZE = 8192"
definition MAX_QUEUE :: nat where "MAX_QUEUE = 8"
definition NAME_LEN :: nat where "NAME_LEN = 32"

record channel =
  ch_name :: "u8 list"
  ch_name_len :: nat
  queue :: "u8 list list"
  recv_waiters :: "u64 list"
  send_waiters :: "u64 list"
  ref_count :: nat

record ipc_state = task_state +
  CHANNELS :: "channel option list"

text \<open>A one-based id resolved to its channel, and a change of that channel in place.\<close>

definition channel_slot :: "u64 \<Rightarrow> 'a ipc_state_scheme \<Rightarrow> channel option" where
  "channel_slot channel_id s =
     (if unat channel_id = 0 then None
      else let idx = unat channel_id - 1
           in if idx < length (CHANNELS s) then CHANNELS s ! idx else None)"

definition put_channel :: "u64 \<Rightarrow> channel option \<Rightarrow> 'a ipc_state_scheme \<Rightarrow> 'a ipc_state_scheme" where
  "put_channel channel_id c s = s\<lparr>CHANNELS := (CHANNELS s)[unat channel_id - 1 := c]\<rparr>"

definition channel_named :: "u8 list \<Rightarrow> channel option \<Rightarrow> bool" where
  "channel_named name slot =
     (case slot of
        Some c \<Rightarrow> ch_name_len c = length name \<and> take (ch_name_len c) (ch_name c) = name
      | None \<Rightarrow> False)"

definition new_channel :: "u8 list \<Rightarrow> channel" where
  "new_channel name =
     \<lparr>ch_name = splice (replicate NAME_LEN 0) 0 name, ch_name_len = length name, queue = [],
      recv_waiters = [], send_waiters = [], ref_count = 1\<rparr>"

definition ipc_open :: "u8 list \<Rightarrow> 'a ipc_state_scheme \<Rightarrow> u64 \<times> 'a ipc_state_scheme" where
  "ipc_open name s =
     (if name = [] \<or> length name > NAME_LEN then (u64_max, s)
      else case position (channel_named name) (CHANNELS s) of
        Some i \<Rightarrow>
          (word_of_nat (i + 1),
           s\<lparr>CHANNELS := (CHANNELS s)[i := map_option (\<lambda>c. c\<lparr>ref_count := ref_count c + 1\<rparr>) (CHANNELS s ! i)]\<rparr>)
      | None \<Rightarrow>
          (case position (\<lambda>slot. slot = None) (CHANNELS s) of
             Some i \<Rightarrow> (word_of_nat (i + 1), s\<lparr>CHANNELS := (CHANNELS s)[i := Some (new_channel name)]\<rparr>)
           | None \<Rightarrow>
               if length (CHANNELS s) \<ge> MAX_CHANNELS then (u64_max, s)
               else (word_of_nat (length (CHANNELS s) + 1), s\<lparr>CHANNELS := CHANNELS s @ [Some (new_channel name)]\<rparr>)))"

section \<open>Sending\<close>

datatype send_result = Send_Ok | Send_Block | Send_Error

text \<open>\<open>if !c.recv_waiters.is_empty() { .. remove(0) .. wakeup_ipc_waiter(waiter_pid, 0) }\<close> after a push.\<close>

definition enqueue_and_wake :: "u64 \<Rightarrow> channel \<Rightarrow> u8 list \<Rightarrow> 'a ipc_state_scheme \<Rightarrow> 'a ipc_state_scheme" where
  "enqueue_and_wake channel_id c data s =
     (let c1 = c\<lparr>queue := queue c @ [data]\<rparr>
      in case recv_waiters c1 of
           [] \<Rightarrow> put_channel channel_id (Some c1) s
         | waiter # rest \<Rightarrow>
             process_wakeup_ipc_waiter waiter 0 (put_channel channel_id (Some (c1\<lparr>recv_waiters := rest\<rparr>)) s))"

definition try_send_reliable :: "u64 \<Rightarrow> u64 \<Rightarrow> u8 list \<Rightarrow> 'a ipc_state_scheme \<Rightarrow> send_result \<times> 'a ipc_state_scheme" where
  "try_send_reliable channel_id sender data s =
     (if length data > MAX_MSG_SIZE then (Send_Error, s)
      else case channel_slot channel_id s of
        None \<Rightarrow> (Send_Error, s)
      | Some c \<Rightarrow>
          if length (queue c) \<ge> MAX_QUEUE then (Send_Block, s)
          else (Send_Ok, enqueue_and_wake channel_id c data s))"

definition wait_send_space :: "u64 \<Rightarrow> u64 \<Rightarrow> 'a ipc_state_scheme \<Rightarrow> bool \<times> 'a ipc_state_scheme" where
  "wait_send_space channel_id pid s =
     (case channel_slot channel_id s of
        None \<Rightarrow> (False, s)
      | Some c \<Rightarrow>
          if length (queue c) < MAX_QUEUE then (False, s)
          else (True,
                if pid \<noteq> 0 \<and> pid \<notin> set (send_waiters c)
                then process_set_sleeping pid
                       (process_set_wait_target pid (Wait_Ipc channel_id)
                         (put_channel channel_id (Some (c\<lparr>send_waiters := send_waiters c @ [pid]\<rparr>)) s))
                else s))"

text \<open>\<open>while c.queue.len() >= MAX_QUEUE { c.queue.pop_front(); }\<close>.\<close>

fun drop_oldest :: "u8 list list \<Rightarrow> u8 list list" where
  "drop_oldest q = (if q \<noteq> [] \<and> length q \<ge> MAX_QUEUE then drop_oldest (tl q) else q)"

declare drop_oldest.simps [simp del]

definition try_send :: "u64 \<Rightarrow> u64 \<Rightarrow> u8 list \<Rightarrow> 'a ipc_state_scheme \<Rightarrow> send_result \<times> 'a ipc_state_scheme" where
  "try_send channel_id sender data s =
     (if length data > MAX_MSG_SIZE then (Send_Error, s)
      else case channel_slot channel_id s of
        None \<Rightarrow> (Send_Error, s)
      | Some c \<Rightarrow> (Send_Ok, enqueue_and_wake channel_id (c\<lparr>queue := drop_oldest (queue c)\<rparr>) data s))"

section \<open>Receiving\<close>

datatype recv_result = Recv_Ok "u8 list" | Recv_Block | Recv_Error

text \<open>The branch for a message at the head of the queue, with the wake-up of a sender.\<close>

definition take_message ::
    "u64 \<Rightarrow> channel \<Rightarrow> u8 list \<Rightarrow> u8 list list \<Rightarrow> nat \<Rightarrow> 'a ipc_state_scheme \<Rightarrow> recv_result \<times> 'a ipc_state_scheme" where
  "take_message channel_id c msg rest buf_len s =
     (let c1 = c\<lparr>queue := rest\<rparr>
      in (Recv_Ok (take (min (length msg) buf_len) msg),
          case send_waiters c1 of
            [] \<Rightarrow> put_channel channel_id (Some c1) s
          | waiter # ws \<Rightarrow>
              process_wakeup_ipc_waiter waiter 0 (put_channel channel_id (Some (c1\<lparr>send_waiters := ws\<rparr>)) s)))"

definition try_recv :: "u64 \<Rightarrow> nat \<Rightarrow> u64 \<Rightarrow> 'a ipc_state_scheme \<Rightarrow> recv_result \<times> 'a ipc_state_scheme" where
  "try_recv channel_id buf_len pid s =
     (case channel_slot channel_id s of
        None \<Rightarrow> (Recv_Error, s)
      | Some c \<Rightarrow>
          (case queue c of
             [] \<Rightarrow>
               (Recv_Block,
                if pid \<noteq> 0
                then process_set_sleeping pid
                       (process_set_wait_target pid (Wait_Ipc channel_id)
                         (put_channel channel_id (Some (c\<lparr>recv_waiters := recv_waiters c @ [pid]\<rparr>)) s))
                else s)
           | msg # rest \<Rightarrow> take_message channel_id c msg rest buf_len s))"

definition try_recv_nonblock :: "u64 \<Rightarrow> nat \<Rightarrow> 'a ipc_state_scheme \<Rightarrow> recv_result \<times> 'a ipc_state_scheme" where
  "try_recv_nonblock channel_id buf_len s =
     (case channel_slot channel_id s of
        None \<Rightarrow> (Recv_Error, s)
      | Some c \<Rightarrow>
          (case queue c of
             [] \<Rightarrow> (Recv_Block, s)
           | msg # rest \<Rightarrow> take_message channel_id c msg rest buf_len s))"

section \<open>Waiters and closing\<close>

definition abort_senders :: "u64 \<Rightarrow> 'a ipc_state_scheme \<Rightarrow> 'a ipc_state_scheme" where
  "abort_senders channel_id s =
     (case channel_slot channel_id s of
        None \<Rightarrow> s
      | Some c \<Rightarrow>
          fold (\<lambda>waiter. process_wakeup_ipc_waiter waiter 0) (send_waiters c)
            (put_channel channel_id (Some (c\<lparr>queue := [], send_waiters := []\<rparr>)) s))"

definition add_send_waiter :: "u64 \<Rightarrow> u64 \<Rightarrow> 'a ipc_state_scheme \<Rightarrow> 'a ipc_state_scheme" where
  "add_send_waiter channel_id pid s =
     (case channel_slot channel_id s of
        None \<Rightarrow> s
      | Some c \<Rightarrow> put_channel channel_id (Some (c\<lparr>send_waiters := send_waiters c @ [pid]\<rparr>)) s)"

definition ipc_close :: "u64 \<Rightarrow> 'a ipc_state_scheme \<Rightarrow> 'a ipc_state_scheme" where
  "ipc_close channel_id s =
     (case channel_slot channel_id s of
        None \<Rightarrow> s
      | Some c \<Rightarrow>
          if ref_count c > 1 then put_channel channel_id (Some (c\<lparr>ref_count := ref_count c - 1\<rparr>)) s
          else if queue c \<noteq> [] then put_channel channel_id (Some (c\<lparr>ref_count := 0\<rparr>)) s
          else put_channel channel_id None s)"

section \<open>The table of channels\<close>

lemma channels_task_ops [simp]:
  "CHANNELS (process_wakeup_ipc_waiter pid r s) = CHANNELS s"
  "CHANNELS (process_set_sleeping pid s) = CHANNELS s"
  "CHANNELS (process_set_wait_target pid w s) = CHANNELS s"
  "CHANNELS (fold (\<lambda>w. process_wakeup_ipc_waiter w r) ws s) = CHANNELS s"
proof -
  show w: "CHANNELS (process_wakeup_ipc_waiter pid r s) = CHANNELS s" for pid s
    by (simp add: process_wakeup_ipc_waiter_def on_main_def thread_wakeup_ipc_waiter_def upd_thread_def split: option.split)
  show "CHANNELS (process_set_sleeping pid s) = CHANNELS s"
    by (simp add: process_set_sleeping_def on_main_def thread_set_sleeping_def upd_thread_def upd_process_def split: option.split)
  show "CHANNELS (process_set_wait_target pid w s) = CHANNELS s"
    by (simp add: process_set_wait_target_def on_main_def thread_set_wait_target_def upd_thread_def split: option.split)
  show "CHANNELS (fold (\<lambda>w. process_wakeup_ipc_waiter w r) ws s) = CHANNELS s"
    by (induction ws arbitrary: s) (simp_all add: w)
qed

lemma channel_slot_cong: "CHANNELS s' = CHANNELS s \<Longrightarrow> channel_slot i s' = channel_slot i s"
  by (simp add: channel_slot_def Let_def)

lemmas channel_slot_task_ops [simp] = channels_task_ops[THEN channel_slot_cong]

lemma length_put_channel [simp]: "length (CHANNELS (put_channel i c s)) = length (CHANNELS s)"
  by (simp add: put_channel_def)

lemma channel_slot_put:
  assumes "1 \<le> unat i" and "unat i \<le> length (CHANNELS s)"
  shows "channel_slot j (put_channel i c s) = (if j = i then c else channel_slot j s)"
proof (cases "j = i")
  case True
  have "unat i - 1 < length (CHANNELS s)" "unat i \<noteq> 0" using assms by linarith+
  with True show ?thesis by (simp add: channel_slot_def put_channel_def Let_def)
next
  case False
  then have "unat j \<noteq> unat i" unfolding word_unat_eq_iff .
  then have "unat i - 1 \<noteq> unat j - 1 \<or> unat j = 0" using assms by linarith
  with False show ?thesis by (auto simp: channel_slot_def put_channel_def Let_def)
qed

lemma channel_slot_range: "channel_slot i s = Some c \<Longrightarrow> 1 \<le> unat i \<and> unat i \<le> length (CHANNELS s)"
  by (auto simp: channel_slot_def Let_def split: if_splits)

lemma channel_slot_put_Some:
  "channel_slot i s = Some c0 \<Longrightarrow> channel_slot j (put_channel i c s) = (if j = i then c else channel_slot j s)"
  using channel_slot_range[of i s c0] channel_slot_put by blast

text \<open>Ids and positions in the table.\<close>

lemma channel_id_nth:
  assumes "k < length (CHANNELS s)" and "length (CHANNELS s) \<le> MAX_CHANNELS"
  shows "channel_slot (word_of_nat (k + 1)) s = CHANNELS s ! k" and "unat (word_of_nat (k + 1) :: u64) = k + 1"
proof -
  have "k + 1 < 2 ^ 64" using assms by (simp add: MAX_CHANNELS_def)
  then show "unat (word_of_nat (k + 1) :: u64) = k + 1" by (simp add: unat_of_nat del: of_nat_add of_nat_Suc)
  then show "channel_slot (word_of_nat (k + 1)) s = CHANNELS s ! k"
    using assms(1) by (simp add: channel_slot_def Let_def del: of_nat_add of_nat_Suc)
qed

lemma channel_slot_nth:
  assumes "channel_slot i s = Some c"
  obtains k where "k < length (CHANNELS s)" and "CHANNELS s ! k = Some c" and "unat i = k + 1"
  using assms channel_slot_range[OF assms] that[of "unat i - 1"] by (auto simp: channel_slot_def Let_def split: if_splits)

section \<open>The invariant\<close>

definition chan_name :: "channel \<Rightarrow> u8 list" where
  "chan_name c = take (ch_name_len c) (ch_name c)"

definition chan_ok :: "channel \<Rightarrow> bool" where
  "chan_ok c \<longleftrightarrow> 1 \<le> ch_name_len c \<and> ch_name_len c \<le> NAME_LEN \<and> length (ch_name c) = NAME_LEN
     \<and> length (queue c) \<le> MAX_QUEUE \<and> (\<forall>m \<in> set (queue c). length m \<le> MAX_MSG_SIZE)"

text \<open>The table and its queues are within their limits, and a name belongs to one channel.\<close>

definition ipc_inv :: "'a ipc_state_scheme \<Rightarrow> bool" where
  "ipc_inv s \<longleftrightarrow> length (CHANNELS s) \<le> MAX_CHANNELS \<and> (\<forall>i c. channel_slot i s = Some c \<longrightarrow> chan_ok c)
     \<and> (\<forall>i j c d. channel_slot i s = Some c \<longrightarrow> channel_slot j s = Some d \<longrightarrow> chan_name c = chan_name d \<longrightarrow> i = j)"

lemma channel_named_iff: "chan_ok c \<Longrightarrow> channel_named name (Some c) \<longleftrightarrow> chan_name c = name"
  by (auto simp: channel_named_def chan_name_def chan_ok_def)

lemma new_channel_ok:
  assumes "name \<noteq> []" and "length name \<le> NAME_LEN"
  shows "chan_ok (new_channel name)" and "chan_name (new_channel name) = name"
proof -
  show "chan_ok (new_channel name)" using assms by (auto simp: chan_ok_def new_channel_def Suc_le_eq)
  show "chan_name (new_channel name) = name"
    using take_drop_splice[of 0 "replicate NAME_LEN 0" name] by (simp add: chan_name_def new_channel_def)
qed

lemma ipc_inv_ext:
  "length (CHANNELS s') = length (CHANNELS s) \<Longrightarrow> (\<And>j. channel_slot j s' = channel_slot j s) \<Longrightarrow> ipc_inv s' = ipc_inv s"
  by (simp add: ipc_inv_def)

lemma ipc_inv_cong: "CHANNELS s' = CHANNELS s \<Longrightarrow> ipc_inv s' = ipc_inv s"
  by (rule ipc_inv_ext) (simp_all add: channel_slot_cong[of s' s])

text \<open>Replacing a channel by one of the same name within the limits, and freeing one.\<close>

lemma ipc_inv_put:
  assumes "ipc_inv s" and "channel_slot i s = Some c" and "chan_ok c'" and "chan_name c' = chan_name c"
  shows "ipc_inv (put_channel i (Some c') s)"
  unfolding ipc_inv_def length_put_channel channel_slot_put_Some[OF assms(2)]
proof (intro conjI allI impI)
  show "length (CHANNELS s) \<le> MAX_CHANNELS" using assms(1) by (simp add: ipc_inv_def)
  fix j d assume "(if j = i then Some c' else channel_slot j s) = Some d"
  then show "chan_ok d" using assms(1,3) by (auto simp: ipc_inv_def split: if_splits)
next
  fix j k d e
  assume *: "(if j = i then Some c' else channel_slot j s) = Some d" "(if k = i then Some c' else channel_slot k s) = Some e"
    "chan_name d = chan_name e"
  have u: "channel_slot a s = Some x \<Longrightarrow> channel_slot b s = Some y \<Longrightarrow> chan_name x = chan_name y \<Longrightarrow> a = b" for a b x y
    using assms(1) unfolding ipc_inv_def by blast
  consider "j = i" "k = i" | "j = i" "k \<noteq> i" "d = c'" "channel_slot k s = Some e" | "j \<noteq> i" "k = i" "e = c'" "channel_slot j s = Some d"
    | "channel_slot j s = Some d" "channel_slot k s = Some e"
    using *(1,2) by (cases "j = i"; cases "k = i") simp_all
  then show "j = k"
  proof cases
    case 2
    with *(3) assms(4) show ?thesis using u[OF assms(2) 2(4)] by metis
  next
    case 3
    with *(3) assms(4) show ?thesis using u[OF 3(4) assms(2)] by metis
  next
    case 4
    with *(3) show ?thesis using u by metis
  qed metis
qed

lemma ipc_inv_free:
  assumes "ipc_inv s" and "channel_slot i s = Some c"
  shows "ipc_inv (put_channel i None s)"
  using assms(1) unfolding ipc_inv_def length_put_channel channel_slot_put_Some[OF assms(2)] by (auto split: if_splits)

section \<open>The effect of each operation on the table\<close>

lemma drop_oldest_eq: "drop_oldest q = drop (Suc (length q) - MAX_QUEUE) q"
proof (induction q rule: drop_oldest.induct)
  case (1 q)
  show ?case
  proof (cases "q \<noteq> [] \<and> length q \<ge> MAX_QUEUE")
    case True
    then have "drop_oldest q = drop (Suc (length (tl q)) - MAX_QUEUE) (tl q)" using 1 by (simp add: drop_oldest.simps[of q])
    also have "\<dots> = drop (Suc (Suc (length (tl q)) - MAX_QUEUE)) q" by (simp add: drop_Suc)
    also have "Suc (Suc (length (tl q)) - MAX_QUEUE) = Suc (length q) - MAX_QUEUE"
      using True by (cases q) (auto simp: MAX_QUEUE_def)
    finally show ?thesis .
  next
    case False
    then have "length q < MAX_QUEUE" by (auto simp: MAX_QUEUE_def)
    then show ?thesis using False by (simp add: drop_oldest.simps[of q])
  qed
qed

lemma slot_enqueue:
  assumes "channel_slot i s = Some c0"
  shows "channel_slot j (enqueue_and_wake i c data s)
    = (if j = i then Some (c\<lparr>queue := queue c @ [data], recv_waiters := tl (recv_waiters c)\<rparr>) else channel_slot j s)"
  by (cases c; cases "recv_waiters c") (simp_all add: enqueue_and_wake_def Let_def channel_slot_put_Some[OF assms])

lemma slot_take_message:
  assumes "channel_slot i s = Some c0"
  shows "channel_slot j (snd (take_message i c msg rest n s))
    = (if j = i then Some (c\<lparr>queue := rest, send_waiters := tl (send_waiters c)\<rparr>) else channel_slot j s)"
    and "fst (take_message i c msg rest n s) = Recv_Ok (take n msg)"
proof -
  show "channel_slot j (snd (take_message i c msg rest n s))
    = (if j = i then Some (c\<lparr>queue := rest, send_waiters := tl (send_waiters c)\<rparr>) else channel_slot j s)"
    by (cases c; cases "send_waiters c") (simp_all add: take_message_def Let_def channel_slot_put_Some[OF assms])
  show "fst (take_message i c msg rest n s) = Recv_Ok (take n msg)" by (simp add: take_message_def Let_def min_def)
qed

text \<open>An operation that touches one channel keeps the invariant when it keeps that channel within its limits.\<close>

definition same_but :: "u64 \<Rightarrow> 'a ipc_state_scheme \<Rightarrow> channel \<Rightarrow> 'a ipc_state_scheme \<Rightarrow> bool" where
  "same_but i s c s' \<longleftrightarrow> length (CHANNELS s') = length (CHANNELS s)
     \<and> (\<forall>j. channel_slot j s' = (if j = i then Some c else channel_slot j s))"

lemma ipc_inv_same_but:
  assumes "ipc_inv s" and "channel_slot i s = Some c" and "same_but i s c' s'" and "chan_ok c'" and "chan_name c' = chan_name c"
  shows "ipc_inv s'"
proof -
  have "ipc_inv (put_channel i (Some c') s)" using ipc_inv_put[OF assms(1,2,4,5)] .
  moreover have "ipc_inv s' = ipc_inv (put_channel i (Some c') s)"
    by (rule ipc_inv_ext) (use assms(3) in \<open>simp_all add: same_but_def channel_slot_put_Some[OF assms(2)]\<close>)
  ultimately show ?thesis by simp
qed

lemma length_ipc_ops [simp]:
  "length (CHANNELS (enqueue_and_wake i c data s)) = length (CHANNELS s)"
  "length (CHANNELS (snd (take_message i c msg rest n s))) = length (CHANNELS s)"
  by (simp_all add: enqueue_and_wake_def take_message_def Let_def split: list.split)

lemma chan_simps [simp]:
  "chan_name (c\<lparr>queue := q\<rparr>) = chan_name c" "chan_name (c\<lparr>recv_waiters := w\<rparr>) = chan_name c"
  "chan_name (c\<lparr>send_waiters := w\<rparr>) = chan_name c" "chan_name (c\<lparr>ref_count := n\<rparr>) = chan_name c"
  "chan_ok (c\<lparr>recv_waiters := w\<rparr>) = chan_ok c" "chan_ok (c\<lparr>send_waiters := w\<rparr>) = chan_ok c"
  "chan_ok (c\<lparr>ref_count := n\<rparr>) = chan_ok c"
  by (simp_all add: chan_name_def chan_ok_def)

lemma chan_ok_queue:
  assumes "chan_ok c" and "length q \<le> MAX_QUEUE" and "\<forall>m \<in> set q. length m \<le> MAX_MSG_SIZE"
  shows "chan_ok (c\<lparr>queue := q\<rparr>)"
  using assms by (simp add: chan_ok_def)

lemma ipc_inv_slot: "ipc_inv s \<Longrightarrow> channel_slot i s = Some c \<Longrightarrow> chan_ok c"
  by (simp add: ipc_inv_def)

lemma enqueue_inv:
  assumes "ipc_inv s" and "channel_slot i s = Some c" and "length q < MAX_QUEUE" and "set q \<subseteq> set (queue c)"
    and "length data \<le> MAX_MSG_SIZE"
  shows "ipc_inv (enqueue_and_wake i (c\<lparr>queue := q\<rparr>) data s)"
proof (rule ipc_inv_same_but[OF assms(1,2)])
  let ?c = "(c\<lparr>queue := q\<rparr>)\<lparr>queue := q @ [data], recv_waiters := tl (recv_waiters c)\<rparr>"
  show "same_but i s ?c (enqueue_and_wake i (c\<lparr>queue := q\<rparr>) data s)"
    by (simp add: same_but_def slot_enqueue[OF assms(2)])
  have "chan_ok (c\<lparr>queue := q @ [data]\<rparr>)"
    using ipc_inv_slot[OF assms(1,2)] assms(3-5) by (intro chan_ok_queue) (auto simp: chan_ok_def)
  then show "chan_ok ?c" by simp
qed simp

lemma take_message_inv:
  assumes "ipc_inv s" and "channel_slot i s = Some c" and "queue c = msg # rest"
  shows "ipc_inv (snd (take_message i c msg rest n s))"
proof (rule ipc_inv_same_but[OF assms(1,2)])
  let ?c = "c\<lparr>queue := rest, send_waiters := tl (send_waiters c)\<rparr>"
  show "same_but i s ?c (snd (take_message i c msg rest n s))" by (simp add: same_but_def slot_take_message[OF assms(2)])
  have "chan_ok (c\<lparr>queue := rest\<rparr>)"
    using ipc_inv_slot[OF assms(1,2)] assms(3) by (intro chan_ok_queue) (auto simp: chan_ok_def)
  then show "chan_ok ?c" by simp
qed simp

lemma waiter_inv:
  assumes "ipc_inv s" and "channel_slot i s = Some c" and "chan_ok c'" and "chan_name c' = chan_name c"
    and "CHANNELS s' = CHANNELS (put_channel i (Some c') s)"
  shows "ipc_inv s'"
  using ipc_inv_put[OF assms(1-4)] ipc_inv_cong[OF assms(5)] by blast

text \<open>A new channel in a freed slot, or in a slot of its own at the end of the table.\<close>

definition channel_added :: "u64 \<Rightarrow> u8 list \<Rightarrow> 'a ipc_state_scheme \<Rightarrow> 'a ipc_state_scheme \<Rightarrow> bool" where
  "channel_added i name s s' \<longleftrightarrow> channel_slot i s = None \<and> i \<noteq> 0 \<and> unat i \<le> MAX_CHANNELS \<and> length (CHANNELS s') \<le> MAX_CHANNELS
     \<and> (\<forall>j. channel_slot j s' = (if j = i then Some (new_channel name) else channel_slot j s))"

lemma channel_added_room:
  assumes "channel_added i name s s'" and "length (CHANNELS s) = MAX_CHANNELS"
  shows "None \<in> set (CHANNELS s)"
proof -
  have i: "channel_slot i s = None" "unat i \<noteq> 0" "unat i \<le> MAX_CHANNELS"
    using assms(1) by (simp_all add: channel_added_def unat_eq_zero)
  then have "unat i - 1 < length (CHANNELS s)" using assms(2) by linarith
  moreover have "CHANNELS s ! (unat i - 1) = None" using i calculation by (simp add: channel_slot_def Let_def)
  ultimately show ?thesis by (metis nth_mem)
qed

lemma channel_added_hole:
  assumes "k < length (CHANNELS s)" and "CHANNELS s ! k = None" and "length (CHANNELS s) \<le> MAX_CHANNELS"
  shows "channel_added (word_of_nat (k + 1)) name s (s\<lparr>CHANNELS := (CHANNELS s)[k := Some (new_channel name)]\<rparr>)"
proof -
  let ?i = "word_of_nat (k + 1) :: u64"
  note id = channel_id_nth[OF assms(1,3)]
  have put: "s\<lparr>CHANNELS := (CHANNELS s)[k := Some (new_channel name)]\<rparr> = put_channel ?i (Some (new_channel name)) s"
    unfolding put_channel_def id(2) by simp
  have "1 \<le> unat ?i" "unat ?i \<le> length (CHANNELS s)" unfolding id(2) using assms(1) by simp_all
  note sl = channel_slot_put[OF this]
  have "?i \<noteq> 0" using id(2) by (metis add_is_0 one_neq_zero unat_0)
  moreover have "channel_slot ?i s = None" using id(1) assms(2) by (simp only:)
  moreover have "unat ?i \<le> MAX_CHANNELS" unfolding id(2) using assms(1,3) by simp
  ultimately show ?thesis unfolding channel_added_def put length_put_channel sl using assms(3) by blast
qed

lemma channel_added_end:
  assumes "length (CHANNELS s) < MAX_CHANNELS"
  shows "channel_added (word_of_nat (length (CHANNELS s) + 1)) name s (s\<lparr>CHANNELS := CHANNELS s @ [Some (new_channel name)]\<rparr>)"
proof -
  let ?i = "word_of_nat (length (CHANNELS s) + 1) :: u64" and ?s = "s\<lparr>CHANNELS := CHANNELS s @ [Some (new_channel name)]\<rparr>"
  have id: "unat ?i = length (CHANNELS s) + 1"
    using assms by (simp add: unat_of_nat MAX_CHANNELS_def del: of_nat_add of_nat_Suc)
  have sl: "channel_slot j ?s = (if j = ?i then Some (new_channel name) else channel_slot j s)" for j
  proof (cases "j = ?i")
    case True
    then show ?thesis unfolding channel_slot_def True id by (simp add: Let_def)
  next
    case ne: False
    then have "unat j \<noteq> length (CHANNELS s) + 1" using id unfolding word_unat_eq_iff by simp
    with ne show ?thesis by (auto simp: channel_slot_def Let_def nth_append)
  qed
  have "?i \<noteq> 0" using id by (metis add_is_0 one_neq_zero unat_0)
  moreover have "channel_slot ?i s = None" unfolding channel_slot_def id by (simp add: Let_def)
  moreover have "unat ?i \<le> MAX_CHANNELS" unfolding id using assms by simp
  ultimately show ?thesis unfolding channel_added_def sl using assms by simp
qed

lemma ipc_open_cases:
  assumes "ipc_inv s"
  obtains (invalid) "name = [] \<or> length name > NAME_LEN" and "ipc_open name s = (u64_max, s)"
  | (found) i c where "name \<noteq> []" and "length name \<le> NAME_LEN" and "channel_slot i s = Some c" and "chan_name c = name"
      and "ipc_open name s = (i, put_channel i (Some (c\<lparr>ref_count := ref_count c + 1\<rparr>)) s)"
  | (fresh) i s' where "name \<noteq> []" and "length name \<le> NAME_LEN" and "\<And>j c. channel_slot j s = Some c \<Longrightarrow> chan_name c \<noteq> name"
      and "ipc_open name s = (i, s')" and "channel_added i name s s'"
  | (full) "name \<noteq> []" and "length name \<le> NAME_LEN" and "\<And>j c. channel_slot j s = Some c \<Longrightarrow> chan_name c \<noteq> name"
      and "length (CHANNELS s) = MAX_CHANNELS" and "None \<notin> set (CHANNELS s)" and "ipc_open name s = (u64_max, s)"
proof (cases "name = [] \<or> length name > NAME_LEN")
  case True
  then show thesis by (intro invalid) (auto simp: ipc_open_def)
next
  case ok: False
  have len: "length (CHANNELS s) \<le> MAX_CHANNELS" using assms by (simp add: ipc_inv_def)
  show thesis
  proof (cases "position (channel_named name) (CHANNELS s)")
    case (Some k)
    note k = position_SomeD[OF Some]
    let ?i = "word_of_nat (k + 1) :: u64"
    obtain c where c: "CHANNELS s ! k = Some c" using k(2) by (cases "CHANNELS s ! k") (auto simp: channel_named_def)
    note id = channel_id_nth[OF k(1) len]
    have sl: "channel_slot ?i s = Some c" using id(1) c by (simp only:)
    have "chan_name c = name" using k(2) c channel_named_iff[OF ipc_inv_slot[OF assms sl]] by (simp only:)
    moreover have "ipc_open name s = (?i, put_channel ?i (Some (c\<lparr>ref_count := ref_count c + 1\<rparr>)) s)"
      using ok Some c unfolding put_channel_def id(2) by (simp add: ipc_open_def)
    ultimately show thesis using found[OF _ _ sl] ok by auto
  next
    case None
    have no: "chan_name c \<noteq> name" if sl: "channel_slot j s = Some c" for j c
    proof -
      have "Some c \<in> set (CHANNELS s)" by (rule channel_slot_nth[OF sl]) (metis nth_mem)
      then show ?thesis using None channel_named_iff[OF ipc_inv_slot[OF assms sl]] by (auto simp: position_None_iff)
    qed
    show thesis
    proof (cases "position (\<lambda>slot. slot = None) (CHANNELS s)")
      case (Some k)
      note k = position_SomeD[OF Some]
      show thesis
        by (rule fresh[OF _ _ no _ channel_added_hole[OF k(1,2) len]]) (use ok None Some in \<open>auto simp: ipc_open_def\<close>)
    next
      case noslot: None
      show thesis
      proof (cases "length (CHANNELS s) < MAX_CHANNELS")
        case True
        show thesis
          by (rule fresh[OF _ _ no _ channel_added_end[OF True]]) (use ok None noslot True in \<open>auto simp: ipc_open_def\<close>)
      next
        case False
        then have "ipc_open name s = (u64_max, s)" using ok None noslot by (auto simp: ipc_open_def)
        then show thesis using full[OF _ _ no] ok False len noslot by (auto simp: position_None_iff)
      qed
    qed
  qed
qed

lemma ipc_open_inv:
  assumes "ipc_inv s"
  shows "ipc_inv (snd (ipc_open name s))"
proof (cases rule: ipc_open_cases[OF assms, of name])
  case (2 i c)
  have "chan_ok c" by (rule ipc_inv_slot[OF assms 2(3)])
  then show ?thesis unfolding 2(5) snd_conv by (intro ipc_inv_put[OF assms 2(3)]) simp_all
next
  case (3 i s')
  note n = new_channel_ok[OF 3(1,2)]
  have sl: "channel_slot j s' = (if j = i then Some (new_channel name) else channel_slot j s)" for j
    using 3(5) by (simp add: channel_added_def)
  have len: "length (CHANNELS s') \<le> MAX_CHANNELS" using 3(5) by (simp add: channel_added_def)
  have "ipc_inv s'" unfolding ipc_inv_def
  proof (intro conjI allI impI len)
    fix j c assume "channel_slot j s' = Some c"
    then show "chan_ok c" using n(1) ipc_inv_slot[OF assms] unfolding sl by (metis option.inject)
  next
    fix j k c d
    assume *: "channel_slot j s' = Some c" "channel_slot k s' = Some d" "chan_name c = chan_name d"
    show "j = k"
    proof (cases "j = i \<or> k = i")
      case True
      then show ?thesis using * 3(3) n(2) unfolding sl by (metis option.inject)
    next
      case False
      then have "channel_slot j s = Some c" "channel_slot k s = Some d" using *(1,2) unfolding sl by simp_all
      then show ?thesis using assms *(3) unfolding ipc_inv_def by metis
    qed
  qed
  then show ?thesis unfolding 3(4) by simp
qed (use assms in simp_all)

section \<open>Reachable tables\<close>

inductive ipc_step :: "'a ipc_state_scheme \<Rightarrow> 'a ipc_state_scheme \<Rightarrow> bool" where
  is_open: "ipc_step s (snd (ipc_open name s))"
| is_send: "ipc_step s (snd (try_send i p data s))"
| is_send_reliable: "ipc_step s (snd (try_send_reliable i p data s))"
| is_wait_space: "ipc_step s (snd (wait_send_space i p s))"
| is_recv: "ipc_step s (snd (try_recv i n p s))"
| is_recv_nonblock: "ipc_step s (snd (try_recv_nonblock i n s))"
| is_abort: "ipc_step s (abort_senders i s)"
| is_add_waiter: "ipc_step s (add_send_waiter i p s)"
| is_close: "ipc_step s (ipc_close i s)"
| is_other: "CHANNELS s' = CHANNELS s \<Longrightarrow> ipc_step s s'"

lemma send_inv:
  assumes "ipc_inv s"
  shows "ipc_inv (snd (try_send i p data s))" and "ipc_inv (snd (try_send_reliable i p data s))"
proof -
  have "ipc_inv (enqueue_and_wake i (c\<lparr>queue := drop_oldest (queue c)\<rparr>) data s)"
    if "channel_slot i s = Some c" "length data \<le> MAX_MSG_SIZE" for c
    using ipc_inv_slot[OF assms that(1)] that(2)
    by (intro enqueue_inv[OF assms that(1)]) (auto simp: drop_oldest_eq chan_ok_def MAX_QUEUE_def dest: in_set_dropD)
  then show "ipc_inv (snd (try_send i p data s))" using assms by (auto simp: try_send_def split: option.split)
  have "ipc_inv (enqueue_and_wake i c data s)"
    if "channel_slot i s = Some c" "length data \<le> MAX_MSG_SIZE" "length (queue c) < MAX_QUEUE" for c
    using enqueue_inv[OF assms that(1), of "queue c" data] that(2,3) by simp
  then show "ipc_inv (snd (try_send_reliable i p data s))" using assms by (auto simp: try_send_reliable_def split: option.split)
qed

lemma recv_inv:
  assumes "ipc_inv s"
  shows "ipc_inv (snd (try_recv i n p s))" and "ipc_inv (snd (try_recv_nonblock i n s))"
proof -
  have "ipc_inv (process_set_sleeping p (process_set_wait_target p w (put_channel i (Some (c\<lparr>recv_waiters := ws\<rparr>)) s)))"
    if "channel_slot i s = Some c" for c w ws
    using ipc_inv_slot[OF assms that] by (intro waiter_inv[OF assms that]) simp_all
  then show "ipc_inv (snd (try_recv i n p s))"
    using assms take_message_inv[OF assms] by (auto simp: try_recv_def split: option.split list.split)
  show "ipc_inv (snd (try_recv_nonblock i n s))"
    using assms take_message_inv[OF assms] by (auto simp: try_recv_nonblock_def split: option.split list.split)
qed

lemma ipc_step_inv:
  assumes "ipc_step s s'" and "ipc_inv s"
  shows "ipc_inv s'"
  using assms(1)
proof cases
  case (is_wait_space i p)
  have "ipc_inv (process_set_sleeping p (process_set_wait_target p w (put_channel i (Some (c\<lparr>send_waiters := ws\<rparr>)) s)))"
    if "channel_slot i s = Some c" for c w ws
    using ipc_inv_slot[OF assms(2) that] by (intro waiter_inv[OF assms(2) that]) simp_all
  then show ?thesis using is_wait_space assms(2) by (auto simp: wait_send_space_def split: option.split)
next
  case (is_abort i)
  have "ipc_inv (fold (\<lambda>w. process_wakeup_ipc_waiter w 0) ws (put_channel i (Some (c\<lparr>queue := [], send_waiters := []\<rparr>)) s))"
    if "channel_slot i s = Some c" for c ws
    using chan_ok_queue[OF ipc_inv_slot[OF assms(2) that], of "[]"] by (intro waiter_inv[OF assms(2) that]) simp_all
  then show ?thesis using is_abort assms(2) by (auto simp: abort_senders_def split: option.split)
next
  case (is_add_waiter i p)
  have "ipc_inv (put_channel i (Some (c\<lparr>send_waiters := ws\<rparr>)) s)" if "channel_slot i s = Some c" for c ws
    using ipc_inv_slot[OF assms(2) that] by (intro ipc_inv_put[OF assms(2) that]) simp_all
  then show ?thesis using is_add_waiter assms(2) by (auto simp: add_send_waiter_def split: option.split)
next
  case (is_close i)
  have "ipc_inv (put_channel i (Some (c\<lparr>ref_count := n\<rparr>)) s)" if "channel_slot i s = Some c" for c n
    using ipc_inv_slot[OF assms(2) that] by (intro ipc_inv_put[OF assms(2) that]) simp_all
  then show ?thesis using is_close assms(2) ipc_inv_free[OF assms(2)] by (auto simp: ipc_close_def split: option.split)
next
  case is_other
  then show ?thesis using ipc_inv_cong assms(2) by blast
qed (use assms(2) ipc_open_inv send_inv recv_inv in blast)+

section \<open>Queues and waiters\<close>

text \<open>The abstract view: which queue each id names.\<close>

definition queues :: "'a ipc_state_scheme \<Rightarrow> u64 \<Rightarrow> u8 list list option" where
  "queues s i = map_option queue (channel_slot i s)"



lemma queues_put: "channel_slot i s = Some c0 \<Longrightarrow> queues (put_channel i (Some c) s) = (queues s)(i \<mapsto> queue c)"
  by (rule ext) (simp add: queues_def channel_slot_put_Some)

lemma queues_task_ops [simp]:
  "queues (process_set_sleeping pid s) = queues s" "queues (process_set_wait_target pid w s) = queues s"
  by (simp_all add: queues_def fun_eq_iff)






lemma threads_put_channel [simp]:
  "main_tid pid (put_channel i c s) = main_tid pid s" "find_thread tid (put_channel i c s) = find_thread tid s"
  by (simp_all add: put_channel_def main_tid_def find_process_def find_thread_def)

section \<open>Properties\<close>

definition demo_ipc :: ipc_state where
  "demo_ipc = task_state.extend
     ((task_boot \<lparr>vm = demo_vmm, ram = (\<lambda>_. 0)\<rparr> 1 0 0)\<lparr>PROCESSES := [kernel_process, new_process 1 [] 0 User 1],
        THREADS := [(new_thread 1 1 0 0 User 0)\<lparr>t_state := T_Running\<rparr>]\<rparr>)
     (ipc_state.fields [])"

definition demo_channel :: ipc_state where
  "demo_channel = demo_ipc\<lparr>CHANNELS := [Some (new_channel [109])]\<rparr>"

lemma demo_ipc_fields:
  "CHANNELS demo_ipc = []" "CHANNELS demo_channel = [Some (new_channel [109])]"
  "main_tid 1 demo_channel = Some 1" "find_thread 1 demo_channel = Some ((new_thread 1 1 0 0 User 0)\<lparr>t_state := T_Running\<rparr>)"
  by (simp_all add: demo_channel_def demo_ipc_def task_state.defs ipc_state.defs task_boot_def main_tid_def find_process_def
      find_thread_def new_process_def kernel_process_def new_thread_def)

text \<open>C23: Whatever sequence of channel operations runs, the table never holds more than 32 channels, a name
  belongs to one channel, no queue holds more than 8 messages and no message more than 8192 bytes.\<close>

theorem ipc_bounded_reachable:
  assumes "CHANNELS s = []" and "ipc_step\<^sup>*\<^sup>* s s'"
  shows "length (CHANNELS s') \<le> 32
    \<and> (\<forall>i c. channel_slot i s' = Some c \<longrightarrow> length (queue c) \<le> 8 \<and> (\<forall>m \<in> set (queue c). length m \<le> 8192))
    \<and> (\<forall>i j c d. channel_slot i s' = Some c \<longrightarrow> channel_slot j s' = Some d \<longrightarrow> chan_name c = chan_name d \<longrightarrow> i = j)"
proof -
  have "ipc_inv s" using assms(1) by (simp add: ipc_inv_def channel_slot_def Let_def)
  with assms(2) have "ipc_inv s'" by (induction rule: rtranclp_induct) (auto intro: ipc_step_inv)
  then show ?thesis by (simp add: ipc_inv_def chan_ok_def MAX_CHANNELS_def MAX_QUEUE_def MAX_MSG_SIZE_def)
qed

theorem ipc_bounded_reachable_witness:
  "length (CHANNELS (snd (try_send 1 0 [1, 2, 3] (snd (ipc_open [109] demo_ipc))))) \<le> 32"
  using ipc_bounded_reachable[OF demo_ipc_fields(1) rtranclp.rtrancl_into_rtrancl[OF r_into_rtranclp[where r = ipc_step, OF is_open] is_send]]
  by blast



text \<open>C29: Opening a channel fails exactly for an invalid name or when the table is full and no channel has the
  name. Otherwise the returned id names a channel with that name, every other id keeps its channel, an existing
  channel keeps its queue and a new one starts empty, and opening the name again returns the same id.\<close>

theorem ipc_open_correct:
  assumes "ipc_inv s"
  shows "case ipc_open name s of (i, s') \<Rightarrow>
    if name = [] \<or> length name > NAME_LEN
       \<or> (length (CHANNELS s) = MAX_CHANNELS \<and> None \<notin> set (CHANNELS s) \<and> (\<forall>j c. channel_slot j s = Some c \<longrightarrow> chan_name c \<noteq> name))
    then i = u64_max \<and> s' = s
    else (\<exists>c. channel_slot i s' = Some c \<and> chan_name c = name)
      \<and> queues s' = (queues s)(i \<mapsto> (case queues s i of Some q \<Rightarrow> q | None \<Rightarrow> []))
      \<and> fst (ipc_open name s') = i"
proof -
  have again: "fst (ipc_open name s') = i"
    if inv: "ipc_inv s'" and sl: "channel_slot i s' = Some c" "chan_name c = name" "name \<noteq> []" "length name \<le> NAME_LEN" for s' i c
  proof (cases rule: ipc_open_cases[OF inv, of name])
    case (2 j d)
    then have "j = i" using inv sl unfolding ipc_inv_def by metis
    then show ?thesis using 2 by simp
  qed (use sl in auto)
  have inv': "ipc_inv (snd (ipc_open name s))" by (rule ipc_open_inv[OF assms])
  show ?thesis
  proof (cases rule: ipc_open_cases[OF assms, of name])
    case (2 i c)
    let ?s = "put_channel i (Some (c\<lparr>ref_count := ref_count c + 1\<rparr>)) s"
    have sl: "channel_slot i ?s = Some (c\<lparr>ref_count := ref_count c + 1\<rparr>)" using channel_slot_put_Some[OF 2(3)] by simp
    have ag: "fst (ipc_open name ?s) = i" by (rule again[OF _ sl]) (use inv' 2 in simp_all)
    show ?thesis unfolding 2(5) using 2 sl ag queues_put[OF 2(3)] by (auto simp: queues_def)
  next
    case (3 i s')
    have sl: "channel_slot j s' = (if j = i then Some (new_channel name) else channel_slot j s)" for j
      using 3(5) by (simp add: channel_added_def)
    note n = new_channel_ok(2)[OF 3(1,2)]
    have "i \<noteq> u64_max" "channel_slot i s = None" using 3(5) by (auto simp: channel_added_def MAX_CHANNELS_def)
    have ag: "fst (ipc_open name s') = i" by (rule again[OF _ _ n]) (use inv' 3 sl in simp_all)
    have fullno: "\<not> (length (CHANNELS s) = MAX_CHANNELS \<and> None \<notin> set (CHANNELS s))"
      using channel_added_room[OF 3(5)] by blast
    show ?thesis unfolding 3(4) using 3(1,2) n sl ag fullno \<open>channel_slot i s = None\<close>
      by (auto simp: queues_def fun_eq_iff new_channel_def)
  qed (use assms in auto)
qed

theorem ipc_open_correct_witness:
  "fst (ipc_open [109] demo_channel) \<noteq> u64_max \<and> fst (ipc_open [] demo_channel) = u64_max"
proof -
  have "ipc_inv demo_ipc" by (simp add: ipc_inv_def channel_slot_def demo_ipc_fields)
  then have inv: "ipc_inv demo_channel"
    using ipc_open_inv[of demo_ipc "[109]"] by (simp add: ipc_open_def demo_ipc_fields demo_channel_def NAME_LEN_def MAX_CHANNELS_def)
  have "fst (ipc_open [109] demo_channel) = 1"
    by (simp add: ipc_open_def demo_ipc_fields NAME_LEN_def channel_named_def new_channel_def splice_def)
  then show ?thesis using ipc_open_correct[OF inv, of "[]"] by (simp add: split_beta)
qed



end
