(* ===== verification/Context_Switch.thy ===== *)
theory Context_Switch
  imports Scheduler
begin

text \<open>
  Context switches end to end. The entry stubs of the interrupts write a frame, the scheduler copies it
  into a thread's context and later writes another frame from it, and an exit path pops that one. The
  theorems say that the registers come back: through the timer (\<open>save_user_context\<close> and the three frames
  built from a context), and for a system call that blocked, where the kernel has two ways back to the
  thread that must agree. A new kernel thread starts from a frame nobody pushed.

  Every frame is a row of words (\<open>write_words\<close>), so the lemmas are about rows: what a push sequence
  writes and what a pop sequence reads.
\<close>

section \<open>Rows of words\<close>

text \<open>\<open>8 * i\<close> as an address; the addresses of a row shorter than the address space are different.\<close>

definition slot :: "nat \<Rightarrow> u64" where
  "slot i = 8 * word_of_nat i"

lemma slot_simps [simp]: "slot 0 = 0" "slot (Suc i) = 8 + slot i" "slot (i + j) = slot i + slot j"
  by (simp_all add: slot_def algebra_simps)

lemma slot_inj:
  assumes "slot i = slot j" and "i < 2 ^ 61" and "j < 2 ^ 61"
  shows "i = j"
proof -
  have "slot k = word_of_nat (8 * k)" for k by (simp add: slot_def)
  then have "word_of_nat (8 * i) = (word_of_nat (8 * j) :: u64)" using assms(1) by simp
  then have "unat (word_of_nat (8 * i) :: u64) = unat (word_of_nat (8 * j) :: u64)" by (rule arg_cong)
  then have "(8 * i) mod 2 ^ 64 = (8 * j) mod 2 ^ 64" unfolding unat_of_nat by simp
  with assms(2,3) show ?thesis by simp
qed

lemma slot_neq: "i < j \<Longrightarrow> j < 2 ^ 61 \<Longrightarrow> slot i \<noteq> slot j" "i < j \<Longrightarrow> j < 2 ^ 61 \<Longrightarrow> slot j \<noteq> slot i"
  using slot_inj[of i j] slot_inj[of j i] by auto

lemma write_words_outside:
  "(\<And>i. i < length vs \<Longrightarrow> a \<noteq> b + slot i) \<Longrightarrow> write_words b vs m a = m a"
proof (induction vs arbitrary: b m)
  case (Cons v vs)
  have "a \<noteq> b" using Cons.prems[of 0] by simp
  moreover have "write_words (b + 8) vs (m(b := v)) a = (m(b := v)) a"
    using Cons.prems[of "Suc _"] by (intro Cons.IH) (simp add: algebra_simps)
  ultimately show ?case by simp
qed simp

lemma write_words_nth:
  "i < length vs \<Longrightarrow> length vs < 2 ^ 61 \<Longrightarrow> write_words b vs m (b + slot i) = vs ! i"
proof (induction vs arbitrary: b m i)
  case (Cons v vs)
  show ?case
  proof (cases i)
    case 0
    have "b \<noteq> b + 8 + slot j" if "j < length vs" for j
      using slot_neq(1)[of 0 "Suc j"] that Cons.prems(2) by (simp add: algebra_simps)
    then have "write_words (b + 8) vs (m(b := v)) b = (m(b := v)) b" by (rule write_words_outside)
    with 0 show ?thesis by simp
  next
    case (Suc k)
    with Cons.prems have "write_words (b + 8) vs (m(b := v)) (b + 8 + slot k) = vs ! k" by (intro Cons.IH) simp_all
    with Suc show ?thesis by (simp add: add.assoc)
  qed
qed simp

lemma write_words_upd:
  "(\<And>i. i < length vs \<Longrightarrow> a \<noteq> b + slot i) \<Longrightarrow> write_words b vs (m(a := v)) = (write_words b vs m)(a := v)"
proof (induction vs arbitrary: b m)
  case (Cons w vs)
  have ne: "a \<noteq> b" using Cons.prems[of 0] by simp
  have "write_words (b + 8) vs ((m(b := w))(a := v)) = (write_words (b + 8) vs (m(b := w)))(a := v)"
    using Cons.prems[of "Suc _"] by (intro Cons.IH) (simp add: add.assoc)
  with ne show ?case by (simp only: write_words.simps fun_upd_twist[OF ne])
qed simp

lemma write_words_append:
  "write_words b (vs @ ws) m = write_words (b + slot (length vs)) ws (write_words b vs m)"
  by (induction vs arbitrary: b m) (simp_all add: algebra_simps)

section \<open>Pushing and popping\<close>

lemma push_words_eq:
  "length vs < 2 ^ 61 \<Longrightarrow>
   push_words vs rsp m = (rsp - slot (length vs), write_words (rsp - slot (length vs)) (rev vs) m)"
proof (induction vs arbitrary: rsp m)
  case (Cons v vs)
  let ?b = "rsp - slot (length (v # vs))"
  have b: "rsp - 8 - slot (length vs) = ?b" "rsp - 8 = ?b + slot (length vs)" by (simp_all add: algebra_simps)
  have "?b + slot (length vs) \<noteq> ?b + slot i" if "i < length (rev vs)" for i
    using slot_neq(2)[of i "length vs"] that Cons.prems by simp
  then have "write_words ?b (rev vs) (m(?b + slot (length vs) := v)) = (write_words ?b (rev vs) m)(?b + slot (length vs) := v)"
    by (rule write_words_upd)
  moreover have "write_words ?b (rev (v # vs)) m = (write_words ?b (rev vs) m)(?b + slot (length vs) := v)"
    by (simp add: write_words_append)
  moreover have "push_words (v # vs) rsp m = (?b, write_words ?b (rev vs) (m(rsp - 8 := v)))"
  proof -
    have "push_words vs (rsp - 8) (m(rsp - 8 := v))
        = (rsp - 8 - slot (length vs), write_words (rsp - 8 - slot (length vs)) (rev vs) (m(rsp - 8 := v)))"
      using Cons.prems by (intro Cons.IH) simp
    then show ?thesis unfolding b(1) by (simp only: push_words.simps)
  qed
  ultimately show ?case unfolding b(2) by (simp only:)
qed simp

lemma pop_regs_eq:
  "distinct xs \<Longrightarrow> pop_regs xs rsp m r =
     (rsp + slot (length xs), \<lambda>x. case position (\<lambda>y. y = x) xs of Some i \<Rightarrow> m (rsp + slot i) | None \<Rightarrow> r x)"
proof (induction xs arbitrary: rsp r)
  case (Cons x xs)
  have "position (\<lambda>y. y = x) xs = None" using Cons.prems by (auto simp: position_None_iff)
  with Cons show ?case by (auto simp: fun_eq_iff algebra_simps split: option.splits)
qed simp

text \<open>Popping a row that holds \<open>v x\<close> for each register \<open>x\<close>, then the processor's five words.\<close>

definition frame_words :: "reg list \<Rightarrow> (reg \<Rightarrow> u64) \<Rightarrow> iret_frame \<Rightarrow> u64 list" where
  "frame_words pops v i = map v pops @ [i_rip i, i_cs i, i_rflags i, i_rsp i, i_ss i]"

lemma stub_exit_frame:
  assumes "distinct pops" and "length pops \<le> 15"
  shows "stub_exit pops q (write_words q (frame_words pops v i) m) r = (\<lambda>x. if x \<in> set pops then v x else r x, i)"
proof -
  let ?w = "frame_words pops v i" and ?n = "length pops"
  let ?m = "write_words q ?w m"
  have len: "length ?w = ?n + 5" "length ?w < 2 ^ 61" using assms(2) by (simp_all add: frame_words_def)
  have rd: "?m (q + slot k) = ?w ! k" if "k < ?n + 5" for k using write_words_nth[of k ?w q m] that len by simp
  have low: "?m (q + slot k) = v (pops ! k)" if "k < ?n" for k using rd[of k] that by (simp add: frame_words_def nth_append)
  have "(case position (\<lambda>y. y = x) pops of Some k \<Rightarrow> ?m (q + slot k) | None \<Rightarrow> r x) = (if x \<in> set pops then v x else r x)" for x
  proof (cases "position (\<lambda>y. y = x) pops")
    case None
    then have "x \<notin> set pops" by (auto simp: position_None_iff)
    with None show ?thesis by simp
  next
    case (Some k)
    with position_SomeD[OF Some] low[of k] show ?thesis by auto
  qed
  moreover have "iretq (q + slot ?n) ?m = i"
    using rd[of ?n] rd[of "?n + 1"] rd[of "?n + 2"] rd[of "?n + 3"] rd[of "?n + 4"]
    by (simp add: iretq_def frame_words_def nth_append slot_def algebra_simps)
  ultimately show ?thesis unfolding stub_exit_def pop_regs_eq[OF assms(1)] by (simp add: Let_def)
qed

lemma stub_entry_frame:
  assumes "length pushes \<le> 15"
  shows "stub_entry pushes i r rsp0 m
    = (rsp0 - slot (length pushes + 5), write_words (rsp0 - slot (length pushes + 5)) (frame_words (rev pushes) r i) m)"
proof -
  have "length (cpu_pushes i @ map r pushes) < 2 ^ 61" "length (cpu_pushes i @ map r pushes) = length pushes + 5"
    using assms by (simp_all add: cpu_pushes_def)
  then show ?thesis unfolding stub_entry_def push_words_eq[OF \<open>_ < 2 ^ 61\<close>]
    by (simp only: prod.inject simp_thms) (simp add: cpu_pushes_def frame_words_def rev_map)
qed

section \<open>Frames of a context\<close>

primrec ctx_reg :: "user_context \<Rightarrow> reg \<Rightarrow> u64" where
  "ctx_reg c RAX = u_rax c"
| "ctx_reg c RBX = u_rbx c"
| "ctx_reg c RCX = u_rcx c"
| "ctx_reg c RDX = u_rdx c"
| "ctx_reg c RSI = u_rsi c"
| "ctx_reg c RDI = u_rdi c"
| "ctx_reg c RBP = u_rbp c"
| "ctx_reg c R8 = u_r8 c"
| "ctx_reg c R9 = u_r9 c"
| "ctx_reg c R10 = u_r10 c"
| "ctx_reg c R11 = u_r11 c"
| "ctx_reg c R12 = u_r12 c"
| "ctx_reg c R13 = u_r13 c"
| "ctx_reg c R14 = u_r14 c"
| "ctx_reg c R15 = u_r15 c"

definition ctx_iret :: "user_context \<Rightarrow> u64 \<Rightarrow> iret_frame" where
  "ctx_iret c flags = \<lparr>i_rip = u_rip c, i_cs = USER_CODE, i_rflags = flags, i_rsp = u_rsp c, i_ss = USER_DATA\<rparr>"

lemma poke_words_kmem [simp]: "kmem (poke_words b vs s) = write_words b vs (kmem s)"
  by (simp add: poke_words_def set_vm_def)

lemma frames_of_context:
  "kmem (restore_user_frame q c s) = write_words q (frame_words timer_pops (ctx_reg c) (ctx_iret c (u_rflags c))) (kmem s)"
  "setup_user_frame_for_timer_on_temp_stack c s = (user_return_stack_top s - 160,
     poke_words (user_return_stack_top s - 160) (frame_words timer_pops (ctx_reg c) (ctx_iret c (u_rflags c OR 0x200))) s)"
  "setup_user_frame_on_temp_stack c s = (user_return_stack_top s - 160,
     poke_words (user_return_stack_top s - 160) (frame_words user_entry_pops (ctx_reg c) (ctx_iret c (u_rflags c OR 0x200))) s)"
  by (simp_all add: restore_user_frame_def setup_user_frame_for_timer_on_temp_stack_def setup_user_frame_on_temp_stack_def
      frame_words_def timer_pops_def user_entry_pops_def ctx_iret_def Let_def)

lemma all_regs: "set timer_pops = UNIV" "set user_entry_pops = UNIV" "set int80_pops = - {RAX}"
proof -
  show "set timer_pops = UNIV" "set user_entry_pops = UNIV" "set int80_pops = - {RAX}"
    unfolding set_eq_iff by (intro allI, case_tac x, simp_all add: timer_pops_def user_entry_pops_def int80_pops_def)+
qed

lemma stubs_match:
  "rev timer_pushes = timer_pops" "distinct timer_pops" "length timer_pops \<le> 15" "length timer_pushes \<le> 15"
  "rev int80_pushes = int80_pops" "distinct int80_pops" "length int80_pops \<le> 15" "length int80_pushes \<le> 15"
  "distinct user_entry_pops" "length user_entry_pops \<le> 15"
  by (simp_all add: timer_pushes_def timer_pops_def int80_pushes_def int80_pops_def user_entry_pops_def)

lemmas exit_frames =
  stub_exit_frame[OF stubs_match(2,3), unfolded all_regs, simplified]
  stub_exit_frame[OF stubs_match(6,7), unfolded all_regs, simplified]
  stub_exit_frame[OF stubs_match(9,10), unfolded all_regs, simplified]

lemmas entry_frames =
  stub_entry_frame[OF stubs_match(4), unfolded stubs_match(1)]
  stub_entry_frame[OF stubs_match(8), unfolded stubs_match(5)]

text \<open>The three ways from a context back to user mode.\<close>

definition returns_to :: "user_context \<Rightarrow> (reg \<Rightarrow> u64) \<Rightarrow> iret_frame \<Rightarrow> bool" where
  "returns_to c r i \<longleftrightarrow> ctx_reg c = r \<and> ctx_iret c (u_rflags c) = i"

lemma returns_to_frames:
  assumes "returns_to c r i"
  shows "stub_exit timer_pops q (kmem (restore_user_frame q c s)) r0 = (r, i)"
    and "case setup_user_frame_for_timer_on_temp_stack c s of (q, s') \<Rightarrow>
      stub_exit timer_pops q (kmem s') r0 = (r, i\<lparr>i_rflags := i_rflags i OR 0x200\<rparr>)"
    and "case setup_user_frame_on_temp_stack c s of (q, s') \<Rightarrow>
      stub_exit user_entry_pops q (kmem s') r0 = (r, i\<lparr>i_rflags := i_rflags i OR 0x200\<rparr>)"
  using assms by (simp_all add: returns_to_def frames_of_context exit_frames) (auto simp: ctx_iret_def)

lemma frame_word_written:
  "k < length vs \<Longrightarrow> length vs < 2 ^ 61 \<Longrightarrow> frame_word (write_words p vs m) p k = vs ! k"
  using write_words_nth[of k vs p m] by (simp add: frame_word_def slot_def)

lemma thread_user_context_set:
  assumes "thread_user_context tid s = Some c"
  shows "thread_user_context tid (thread_set_user_context tid c' s) = Some c'"
  using assms find_update_first[of "\<lambda>t. t_tid t = tid" "\<lambda>t. t\<lparr>t_user_context := c'\<rparr>" "THREADS s"]
  by (auto simp: thread_user_context_def thread_set_user_context_def find_thread_def upd_thread_def)

lemma save_user_context_reads:
  assumes "kmem s = write_words p (frame_words timer_pops r i) m" and "thread_user_context tid s = Some c"
    and "i_cs i = USER_CODE" and "i_ss i = USER_DATA"
  shows "\<exists>c'. thread_user_context tid (save_user_context tid p s) = Some c' \<and> u_cr3 c' = u_cr3 c \<and> returns_to c' r i"
proof -
  have w: "frame_word (kmem s) p k = frame_words timer_pops r i ! k" if "k < 20" for k
    unfolding assms(1) using that by (intro frame_word_written) (simp_all add: frame_words_def timer_pops_def)
  let ?c = "c\<lparr>u_rax := r RAX, u_rcx := r RCX, u_rdx := r RDX, u_rsi := r RSI, u_rdi := r RDI, u_r8 := r R8, u_r9 := r R9,
    u_r10 := r R10, u_r11 := r R11, u_rbx := r RBX, u_rbp := r RBP, u_r12 := r R12, u_r13 := r R13, u_r14 := r R14,
    u_r15 := r R15, u_rip := i_rip i, u_rsp := i_rsp i, u_rflags := i_rflags i, u_kernel_rsp := p\<rparr>"
  have "save_user_context tid p s = thread_set_user_context tid ?c s"
    using assms(2) by (simp add: save_user_context_def frame_at_def Let_def w) (simp add: frame_words_def timer_pops_def)
  then have "thread_user_context tid (save_user_context tid p s) = Some ?c"
    using thread_user_context_set[OF assms(2)] by simp
  moreover have "ctx_reg ?c x = r x" for x by (cases x) simp_all
  then have "returns_to ?c r i" using assms(3,4) by (simp add: returns_to_def ctx_iret_def fun_eq_iff)
  ultimately show ?thesis by (intro exI[of _ ?c]) simp
qed

text \<open>The context a woken thread gets from the frame of the system call it blocked in.\<close>

lemma restore_ctx_reads:
  assumes "mem = write_words (t_blocking_rsp t) (frame_words int80_pops r i) m" and "t_blocking_rsp t \<noteq> 0"
    and "i_cs i = USER_CODE" and "i_ss i = USER_DATA"
  shows "returns_to (t_user_context (restore_ctx_from_blocking_frame mem retval t)) (r(RAX := retval)) i"
proof -
  have w: "frame_word mem (t_blocking_rsp t) k = frame_words int80_pops r i ! k" if "k < 19" for k
    unfolding assms(1) using that by (intro frame_word_written) (simp_all add: frame_words_def int80_pops_def)
  let ?c = "t_user_context (restore_ctx_from_blocking_frame mem retval t)"
  have "ctx_reg ?c x = (r(RAX := retval)) x" for x
    by (cases x) (simp_all add: restore_ctx_from_blocking_frame_def Let_def assms(2) w, simp_all add: frame_words_def int80_pops_def)
  moreover have "ctx_iret ?c (u_rflags ?c) = i"
    by (simp add: ctx_iret_def restore_ctx_from_blocking_frame_def Let_def assms(2) w)
      (simp add: frame_words_def int80_pops_def assms(3,4))
  ultimately show ?thesis by (simp add: returns_to_def fun_eq_iff)
qed

section \<open>Properties\<close>

text \<open>A user thread interrupted with 7 in every register, and the memory after the entry stub ran.\<close>

definition demo_iret :: iret_frame where
  "demo_iret = \<lparr>i_rip = 0x400000, i_cs = USER_CODE, i_rflags = 0x202, i_rsp = 0x7fff0000, i_ss = USER_DATA\<rparr>"

definition demo_entered :: "reg list \<Rightarrow> task_state" where
  "demo_entered pushes =
     (task_boot \<lparr>vm = demo_vmm\<lparr>vmem := snd (stub_entry pushes demo_iret (\<lambda>_. 7) 0x110000 (\<lambda>_. 0))\<rparr>, ram = (\<lambda>_. 0)\<rparr> 1 0x200000 0)
       \<lparr>THREADS := [new_thread 1 1 0 0x100000 User 0]\<rparr>"

lemma demo_entered_ctx: "thread_user_context 1 (demo_entered pushes) = Some EMPTY_USER_CONTEXT"
  by (simp add: demo_entered_def thread_user_context_def find_thread_def new_thread_def)

lemma demo_entry:
  "stub_entry pushes demo_iret (\<lambda>_. 7) 0x110000 (\<lambda>_. 0)
     = (fst (stub_entry pushes demo_iret (\<lambda>_. 7) 0x110000 (\<lambda>_. 0)), kmem (demo_entered pushes))"
  by (simp add: demo_entered_def task_boot_def)

text \<open>C2: A user thread interrupted by the timer gets its registers back: the frame the stub pushed, saved
  into the thread's context, comes back through each of the three ways the kernel returns to user mode from
  a context (over the interrupted frame, through the temporary stack in the timer handler, and on the entry
  from the scheduler), with every general register, the instruction and stack pointer and the flags as they
  were; the ways through a temporary stack also enable interrupts. The address space of the context is kept.\<close>

theorem user_preemption_roundtrip:
  assumes "stub_entry timer_pushes i r rsp0 m = (p, kmem s)" and "thread_user_context tid s = Some c"
    and "i_cs i = USER_CODE" and "i_ss i = USER_DATA"
  shows "\<exists>c'. thread_user_context tid (save_user_context tid p s) = Some c' \<and> u_cr3 c' = u_cr3 c
    \<and> stub_exit timer_pops q (kmem (restore_user_frame q c' u)) r0 = (r, i)
    \<and> (case setup_user_frame_for_timer_on_temp_stack c' u of (q, u') \<Rightarrow>
         stub_exit timer_pops q (kmem u') r0 = (r, i\<lparr>i_rflags := i_rflags i OR 0x200\<rparr>))
    \<and> (case setup_user_frame_on_temp_stack c' u of (q, u') \<Rightarrow>
         stub_exit user_entry_pops q (kmem u') r0 = (r, i\<lparr>i_rflags := i_rflags i OR 0x200\<rparr>))"
proof -
  have "kmem s = write_words p (frame_words timer_pops r i) m"
    using assms(1) unfolding entry_frames prod.inject by (elim conjE) (simp only:)
  from save_user_context_reads[OF this assms(2-4)] obtain c' where
    c: "thread_user_context tid (save_user_context tid p s) = Some c'" "u_cr3 c' = u_cr3 c" "returns_to c' r i" by blast
  show ?thesis by (intro exI[of _ c'] conjI) (rule c returns_to_frames[OF c(3)])+
qed

theorem user_preemption_roundtrip_witness:
  "\<exists>c. stub_exit timer_pops 0x300000 (kmem (restore_user_frame 0x300000 c (demo_entered []))) (\<lambda>_. 0) = (\<lambda>_. 7, demo_iret)"
  using user_preemption_roundtrip[OF demo_entry demo_entered_ctx, of "0x300000" "demo_entered []" "\<lambda>_. 0"]
  by (auto simp: demo_iret_def)

text \<open>C3: The two ways back from a system call that blocked agree. A thread whose frame is still on its kernel
  stack is resumed by popping it with the return value in \<open>rax\<close>; a thread that was woken first had the frame
  copied into its context and returns from there. Both give the registers at the system call, with \<open>rax\<close>
  replaced by the return value, and return to the instruction after it.\<close>

theorem blocked_syscall_resume_agree:
  assumes "stub_entry int80_pushes i r rsp0 m = (t_blocking_rsp t, mem)" and "t_blocking_rsp t \<noteq> 0"
    and "i_cs i = USER_CODE" and "i_ss i = USER_DATA"
  shows "stub_exit int80_pops (t_blocking_rsp t) mem (r0(RAX := retval)) = (r(RAX := retval), i)
    \<and> (let c = t_user_context (restore_ctx_from_blocking_frame mem retval t) in
         stub_exit timer_pops q (kmem (restore_user_frame q c u)) r1 = (r(RAX := retval), i)
         \<and> (case setup_user_frame_on_temp_stack c u of (q, u') \<Rightarrow>
              stub_exit user_entry_pops q (kmem u') r1 = (r(RAX := retval), i\<lparr>i_rflags := i_rflags i OR 0x200\<rparr>)))"
proof -
  have mem: "mem = write_words (t_blocking_rsp t) (frame_words int80_pops r i) m"
    using assms(1) unfolding entry_frames prod.inject by (elim conjE) (simp only:)
  have "stub_exit int80_pops (t_blocking_rsp t) mem (r0(RAX := retval)) = (r(RAX := retval), i)"
    unfolding mem exit_frames(2) by (auto simp: fun_eq_iff)
  then show ?thesis unfolding Let_def by (intro conjI returns_to_frames restore_ctx_reads[OF mem assms(2-4)])
qed

theorem blocked_syscall_resume_agree_witness:
  "stub_exit int80_pops 0x10ff68 (kmem (demo_entered int80_pushes)) ((\<lambda>_. 0)(RAX := 42)) = ((\<lambda>_. 7)(RAX := 42), demo_iret)"
proof -
  let ?t = "(new_thread 1 1 0 0x100000 User 0)\<lparr>t_blocking_rsp := 0x10ff68\<rparr>"
  have "fst (stub_entry int80_pushes demo_iret (\<lambda>_. 7) 0x110000 (\<lambda>_. 0)) = t_blocking_rsp ?t"
    unfolding entry_frames by (simp add: int80_pushes_def slot_def)
  then have "stub_entry int80_pushes demo_iret (\<lambda>_. 7) 0x110000 (\<lambda>_. 0) = (t_blocking_rsp ?t, kmem (demo_entered int80_pushes))"
    using demo_entry[of int80_pushes] by (simp only:)
  from blocked_syscall_resume_agree[OF this, where ?r0.0 = "\<lambda>_. 0" and retval = 42 and q = 0 and u = "demo_entered []" and ?r1.0 = "\<lambda>_. 0"]
  show ?thesis by (simp add: demo_iret_def)
qed

text \<open>C24: A thread that is neither blocked nor preempted inside the kernel is entered in user mode from its
  context: the registers, instruction pointer and stack pointer are those of the context, the segments are
  the user's, interrupts are on, and the processor uses the context's address space.\<close>

theorem user_entry_from_context:
  assumes "find_thread tid s = Some t" and "t_blocking_rsp t = 0" and "\<not> t_kernel_preempted t"
    and "u_cr3 (t_user_context t) \<noteq> 0"
  shows "case enter_thread tid s of (e, s') \<Rightarrow>
    \<exists>q. e = Enter_User q \<and> cr3_reg (vm (mach s')) = u_cr3 (t_user_context t) AND ADDR_MASK
      \<and> stub_exit user_entry_pops q (kmem s') r0
        = (ctx_reg (t_user_context t), ctx_iret (t_user_context t) (u_rflags (t_user_context t) OR 0x200))"
proof -
  let ?c = "t_user_context t"
  have r: "thread_take_blocking_rsp tid s = (None, s)" "\<not> thread_is_kernel_preempted tid s" "thread_user_context tid s = Some ?c"
    using assms(1-3) by (simp_all add: thread_take_blocking_rsp_def thread_is_kernel_preempted_def thread_user_context_def)
  let ?pid = "case thread_pid tid s of Some p \<Rightarrow> p | None \<Rightarrow> 0"
  let ?s2 = "process_set_running ?pid (load_stack_top tid (set_current_user_tid (Some tid) (load_cr3 (u_cr3 ?c) s)))"
  have e: "enter_thread tid s = (Enter_User (user_return_stack_top ?s2 - 160),
      poke_words (user_return_stack_top ?s2 - 160) (frame_words user_entry_pops (ctx_reg ?c) (ctx_iret ?c (u_rflags ?c OR 0x200))) ?s2)"
    by (simp add: enter_thread_def Let_def r frames_of_context(3))
  have "cr3_reg (vm (mach ?s2)) = u_cr3 ?c AND ADDR_MASK"
    using assms(4) by (simp add: process_set_running_def thread_set_running_def upd_thread_def upd_process_def load_stack_top_def set_kernel_stack_top_def
        set_current_user_tid_def load_cr3_def set_vm_def switch_cr3_def Let_def split: option.split)
  then have "cr3_reg (vm (mach (poke_words q vs ?s2))) = u_cr3 ?c AND ADDR_MASK" for q vs
    by (simp add: poke_words_def set_vm_def)
  then show ?thesis unfolding e by (simp add: exit_frames)
qed

theorem user_entry_from_context_witness:
  "case enter_thread 1 ((demo_entered [])\<lparr>THREADS := [(new_thread 1 1 0 0x100000 User 0)\<lparr>t_user_context :=
      EMPTY_USER_CONTEXT\<lparr>u_rip := 0x400000, u_cr3 := 0x5000\<rparr>\<rparr>]\<rparr>) of (e, s') \<Rightarrow> cr3_reg (vm (mach s')) = 0x5000"
  using user_entry_from_context[of 1 "(demo_entered [])\<lparr>THREADS := [(new_thread 1 1 0 0x100000 User 0)\<lparr>t_user_context :=
      EMPTY_USER_CONTEXT\<lparr>u_rip := 0x400000, u_cr3 := 0x5000\<rparr>\<rparr>]\<rparr>"
      "(new_thread 1 1 0 0x100000 User 0)\<lparr>t_user_context := EMPTY_USER_CONTEXT\<lparr>u_rip := 0x400000, u_cr3 := 0x5000\<rparr>\<rparr>"
      "\<lambda>_. 0"]
  by (simp add: find_thread_def new_thread_def ADDR_MASK_def split_beta) blast

end
