(* ===== verification/Vfs.thy ===== *)
theory Vfs
  imports Kazu_Prelude
begin

text \<open>
  The file system of \<open>fs/vfs.rs\<close>, a flat table of slots in memory that is unpacked at boot from an
  image and then changed by path and by handle, and the device registry of \<open>fs/devfs.rs\<close> that
  \<open>lookup\<close> consults. Paths and contents are byte strings. A \<open>&'static DeviceOps\<close> is a value of the type
  variable \<open>'ops\<close>.
\<close>

section \<open>Strings\<close>

text \<open>What the code uses of \<open>str\<close>: UTF-8 validity, \<open>contains\<close>, \<open>rfind\<close> of a character, \<open>strip_prefix\<close>.\<close>

definition utf8_cont :: "u8 \<Rightarrow> bool" where
  "utf8_cont b \<longleftrightarrow> 0x80 \<le> b \<and> b \<le> 0xBF"

function utf8_valid :: "u8 list \<Rightarrow> bool" where
  "utf8_valid [] = True"
| "utf8_valid (b # bs) =
     (if b < 0x80 then utf8_valid bs
      else if 0xC2 \<le> b \<and> b \<le> 0xDF
      then 1 \<le> length bs \<and> utf8_cont (bs ! 0) \<and> utf8_valid (drop 1 bs)
      else if 0xE0 \<le> b \<and> b \<le> 0xEF
      then 2 \<le> length bs \<and> utf8_cont (bs ! 0) \<and> (b = 0xE0 \<longrightarrow> 0xA0 \<le> bs ! 0) \<and> (b = 0xED \<longrightarrow> bs ! 0 \<le> 0x9F)
             \<and> utf8_cont (bs ! 1) \<and> utf8_valid (drop 2 bs)
      else if 0xF0 \<le> b \<and> b \<le> 0xF4
      then 3 \<le> length bs \<and> utf8_cont (bs ! 0) \<and> (b = 0xF0 \<longrightarrow> 0x90 \<le> bs ! 0) \<and> (b = 0xF4 \<longrightarrow> bs ! 0 \<le> 0x8F)
             \<and> utf8_cont (bs ! 1) \<and> utf8_cont (bs ! 2) \<and> utf8_valid (drop 3 bs)
      else False)"
  by pat_completeness auto
termination by (relation "measure length") auto

definition contains :: "'a list \<Rightarrow> 'a list \<Rightarrow> bool" where
  "contains xs pat = list_ex (\<lambda>i. take (length pat) (drop i xs) = pat) [0 ..< Suc (length xs)]"

definition rfind :: "'a \<Rightarrow> 'a list \<Rightarrow> nat option" where
  "rfind c xs = map_option (\<lambda>k. length xs - 1 - k) (position (\<lambda>x. x = c) (rev xs))"

definition strip_prefix :: "'a list \<Rightarrow> 'a list \<Rightarrow> 'a list option" where
  "strip_prefix pre xs = (if take (length pre) xs = pre then Some (drop (length pre) xs) else None)"

abbreviation SLASH :: u8 where "SLASH \<equiv> 47"
abbreviation DOT :: u8 where "DOT \<equiv> 46"

section \<open>The device registry\<close>

record 'ops dev_entry =
  d_name :: "u8 list"
  d_name_len :: nat
  d_ops :: 'ops

definition MAX_DEV :: nat where "MAX_DEV = 16"

definition devfs_register :: "u8 list \<Rightarrow> 'ops \<Rightarrow> 'ops dev_entry option list \<Rightarrow> 'ops dev_entry option list" where
  "devfs_register name ops reg =
     (if length name > 32 then reg
      else case position (\<lambda>slot. slot = None) reg of
        Some i \<Rightarrow> reg[i := Some \<lparr>d_name = splice (replicate 32 0) 0 name, d_name_len = length name, d_ops = ops\<rparr>]
      | None \<Rightarrow> reg)"

definition devfs_for_each :: "'ops dev_entry option list \<Rightarrow> u8 list list" where
  "devfs_for_each reg =
     filter utf8_valid (List.map_filter (map_option (\<lambda>e. take (d_name_len e) (d_name e))) reg)"

definition dev_matches :: "u8 list \<Rightarrow> 'ops dev_entry option \<Rightarrow> bool" where
  "dev_matches name slot =
     (case slot of Some e \<Rightarrow> d_name_len e = length name \<and> take (d_name_len e) (d_name e) = name | None \<Rightarrow> False)"

definition devfs_lookup :: "u8 list \<Rightarrow> 'ops dev_entry option list \<Rightarrow> 'ops option" where
  "devfs_lookup name reg = Option.bind (List.find (dev_matches name) reg) (map_option d_ops)"

section \<open>The table\<close>

definition HEADER_SIZE :: nat where "HEADER_SIZE = 28"
definition ENTRY_SIZE :: nat where "ENTRY_SIZE = 32"
definition FLAG_DIR :: u32 where "FLAG_DIR = 1"
definition FLAG_FILE :: u32 where "FLAG_FILE = 2"
definition PATH_CAP :: nat where "PATH_CAP = 96"
definition KFS_MAGIC :: "u8 list" where "KFS_MAGIC = [75, 70, 83, 0]"
definition KFS_VERSION :: nat where "KFS_VERSION = 1"

record node =
  n_path :: "u8 list"
  is_dir :: bool
  n_data :: "u8 list"

record fs_slot =
  generation :: u32
  s_node :: "node option"

datatype 'ops vfs_node = File_Node u32 u32 nat | Dir_Node | Device_Node 'ops

datatype file_type = File_Type | Directory_Type

record metadata =
  md_len :: nat
  md_kind :: file_type

record dir_entry =
  de_path :: "u8 list"
  de_path_len :: nat
  de_kind :: file_type
  de_len :: nat

datatype fs_error =
    NotInitialized | InvalidImage | InvalidPath | NotFound | NotAFile | NotADirectory
  | BufferTooSmall | AlreadyExists | NotEmpty

definition has_path :: "u8 list \<Rightarrow> fs_slot \<Rightarrow> bool" where
  "has_path path s = (case s_node s of Some n \<Rightarrow> n_path n = path | None \<Rightarrow> False)"

definition find_node :: "fs_slot list \<Rightarrow> u8 list \<Rightarrow> nat option" where
  "find_node nodes path = position (has_path path) nodes"

definition parent_of :: "u8 list \<Rightarrow> u8 list" where
  "parent_of path =
     (case rfind SLASH path of
        None \<Rightarrow> [SLASH]
      | Some i \<Rightarrow> if i = 0 then [SLASH] else take i path)"

definition validate_path :: "u8 list \<Rightarrow> fs_error + unit" where
  "validate_path path =
     (if \<not> (path \<noteq> [] \<and> hd path = SLASH)
         \<or> (length path > 1 \<and> last path = SLASH)
         \<or> contains path [SLASH, SLASH]
         \<or> contains path [SLASH, DOT, SLASH]
         \<or> contains path [SLASH, DOT, DOT, SLASH]
      then Inl InvalidPath else Inr ())"

definition is_child :: "u8 list \<Rightarrow> u8 list \<Rightarrow> bool" where
  "is_child parent child =
     (if child = parent then False
      else let rest = (if parent = [SLASH] then strip_prefix [SLASH] child
                       else Option.bind (strip_prefix parent child) (strip_prefix [SLASH]))
           in case rest of Some v \<Rightarrow> v \<noteq> [] \<and> SLASH \<notin> set v | None \<Rightarrow> False)"

section \<open>Unpacking the image\<close>

definition fs_read_u16 :: "u8 list \<Rightarrow> nat \<Rightarrow> nat option" where
  "fs_read_u16 data offset = map_option from_le (get_range data offset (offset + 2))"

definition fs_read_u32 :: "u8 list \<Rightarrow> nat \<Rightarrow> nat option" where
  "fs_read_u32 data offset = map_option from_le (get_range data offset (offset + 4))"

definition fs_read_u64 :: "u8 list \<Rightarrow> nat \<Rightarrow> nat option" where
  "fs_read_u64 data offset = map_option from_le (get_range data offset (offset + 8))"

definition new_node :: "u8 list \<Rightarrow> bool \<Rightarrow> u8 list \<Rightarrow> fs_slot" where
  "new_node path dir data = \<lparr>generation = 0, s_node = Some \<lparr>n_path = path, is_dir = dir, n_data = data\<rparr>\<rparr>"

lemma position_less: "position P xs = Some i \<Longrightarrow> i < length xs"
  by (rule position_SomeD(1))

lemma parent_shorter: "parent_of path \<noteq> [SLASH] \<Longrightarrow> length (parent_of path) < length path"
  by (auto simp: parent_of_def rfind_def dest!: position_less split: option.splits if_splits)

function ensure_parents :: "u8 list \<Rightarrow> fs_slot list \<Rightarrow> fs_slot list" where
  "ensure_parents path nodes =
     (let parent = parent_of path
      in if parent = [SLASH] then nodes
         else let nodes = ensure_parents parent nodes
              in if find_node nodes parent = None then nodes @ [new_node parent True []] else nodes)"
  by pat_completeness auto
termination by (relation "measure (\<lambda>(path, _). length path)") (auto intro: parent_shorter)

declare ensure_parents.simps [simp del]

text \<open>
  One entry of the image. An error leaves the table as it is at that point, as the early return does.
  Offsets and sizes are 64-bit; only the end of the data can overflow.
\<close>

definition add_entry :: "u8 list \<Rightarrow> u8 list \<Rightarrow> nat \<Rightarrow> nat \<Rightarrow> u32 \<Rightarrow> fs_slot list \<Rightarrow> (fs_error + unit) \<times> fs_slot list" where
  "add_entry img path data_off fsize flags nodes =
     (let nodes = ensure_parents path nodes
      in if find_node nodes path \<noteq> None then (Inr (), nodes)
         else if flags AND FLAG_FILE \<noteq> 0
         then (if data_off + fsize \<ge> 2 ^ 64 then (Inl InvalidImage, nodes)
               else case get_range img data_off (data_off + fsize) of
                 None \<Rightarrow> (Inl InvalidImage, nodes)
               | Some data \<Rightarrow> (Inr (), nodes @ [new_node path False data]))
         else if flags AND FLAG_DIR \<noteq> 0 then (Inr (), nodes @ [new_node path True []])
         else (Inl InvalidImage, nodes))"

definition init_entry :: "u8 list \<Rightarrow> nat \<Rightarrow> nat \<Rightarrow> fs_slot list \<Rightarrow> (fs_error + unit) \<times> fs_slot list" where
  "init_entry img paths_start index nodes =
     (let base = HEADER_SIZE + index * ENTRY_SIZE
      in case (fs_read_u16 img base, fs_read_u16 img (base + 2), fs_read_u64 img (base + 4),
               fs_read_u64 img (base + 12), fs_read_u32 img (base + 20)) of
           (Some path_len, Some path_off, Some data_off, Some fsize, Some flags) \<Rightarrow>
             (let pstart = paths_start + path_off
              in case get_range img pstart (pstart + path_len) of
                   None \<Rightarrow> (Inl InvalidImage, nodes)
                 | Some path \<Rightarrow>
                     if \<not> utf8_valid path then (Inl InvalidImage, nodes)
                     else (case validate_path path of
                             Inl e \<Rightarrow> (Inl e, nodes)
                           | Inr _ \<Rightarrow> add_entry img path data_off fsize (word_of_nat flags) nodes))
         | _ \<Rightarrow> (Inl InvalidImage, nodes))"

primrec init_entries :: "nat \<Rightarrow> u8 list \<Rightarrow> nat \<Rightarrow> nat \<Rightarrow> fs_slot list \<Rightarrow> (fs_error + unit) \<times> fs_slot list" where
  "init_entries 0 img paths_start index nodes = (Inr (), nodes)"
| "init_entries (Suc n) img paths_start index nodes =
     (case init_entry img paths_start index nodes of
        (Inl e, nodes) \<Rightarrow> (Inl e, nodes)
      | (Inr _, nodes) \<Rightarrow> init_entries n img paths_start (index + 1) nodes)"

definition vfs_init :: "u8 list \<Rightarrow> fs_slot list \<Rightarrow> (fs_error + unit) \<times> fs_slot list" where
  "vfs_init img nodes =
     (if length img < HEADER_SIZE \<or> take 4 img \<noteq> KFS_MAGIC then (Inl InvalidImage, nodes)
      else case fs_read_u32 img 4 of
        None \<Rightarrow> (Inl InvalidImage, nodes)
      | Some version \<Rightarrow>
          if version \<noteq> KFS_VERSION then (Inl InvalidImage, nodes)
          else case fs_read_u32 img 8 of
            None \<Rightarrow> (Inl InvalidImage, nodes)
          | Some file_count \<Rightarrow>
              (let paths_start = HEADER_SIZE + file_count * ENTRY_SIZE
               in if paths_start > length img then (Inl InvalidImage, nodes)
                  else init_entries file_count img paths_start 0 [new_node [SLASH] True []]))"

section \<open>Lookups\<close>

definition node_at :: "fs_slot list \<Rightarrow> nat \<Rightarrow> node" where
  "node_at nodes i = the (s_node (nodes ! i))"

definition vfs_lookup :: "'ops dev_entry option list \<Rightarrow> u8 list \<Rightarrow> fs_slot list \<Rightarrow> fs_error + 'ops vfs_node" where
  "vfs_lookup reg path nodes =
     (case validate_path path of
        Inl e \<Rightarrow> Inl e
      | Inr _ \<Rightarrow>
          (case (if take 5 path = [SLASH, 100, 101, 118, SLASH] then devfs_lookup path reg else None) of
             Some ops \<Rightarrow> Inr (Device_Node ops)
           | None \<Rightarrow>
               (case find_node nodes path of
                  None \<Rightarrow> Inl NotFound
                | Some i \<Rightarrow>
                    Inr (if is_dir (node_at nodes i) then Dir_Node
                         else File_Node (word_of_nat i) (generation (nodes ! i)) (length (n_data (node_at nodes i)))))))"

definition node_kind :: "node \<Rightarrow> file_type" where
  "node_kind n = (if is_dir n then Directory_Type else File_Type)"

definition vfs_metadata :: "u8 list \<Rightarrow> fs_slot list \<Rightarrow> fs_error + metadata" where
  "vfs_metadata path nodes =
     (case validate_path path of
        Inl e \<Rightarrow> Inl e
      | Inr _ \<Rightarrow>
          (case find_node nodes path of
             None \<Rightarrow> Inl NotFound
           | Some i \<Rightarrow> Inr \<lparr>md_len = length (n_data (node_at nodes i)), md_kind = node_kind (node_at nodes i)\<rparr>))"

definition vfs_read_file :: "u8 list \<Rightarrow> fs_slot list \<Rightarrow> fs_error + u8 list" where
  "vfs_read_file path nodes =
     (case validate_path path of
        Inl e \<Rightarrow> Inl e
      | Inr _ \<Rightarrow>
          (case find_node nodes path of
             None \<Rightarrow> Inl NotFound
           | Some i \<Rightarrow> if is_dir (node_at nodes i) then Inl NotAFile else Inr (n_data (node_at nodes i))))"

definition dir_entry_of :: "node \<Rightarrow> dir_entry" where
  "dir_entry_of n =
     (let n_taken = min (length (n_path n)) PATH_CAP
      in \<lparr>de_path = splice (replicate PATH_CAP 0) 0 (take n_taken (n_path n)), de_path_len = n_taken,
          de_kind = node_kind n, de_len = length (n_data n)\<rparr>)"

text \<open>The loop of \<open>read_dir\<close> over the slots, with the entries written so far and the size of \<open>out\<close>.\<close>

primrec read_dir_loop :: "u8 list \<Rightarrow> nat \<Rightarrow> dir_entry list \<Rightarrow> fs_slot list \<Rightarrow> fs_error + dir_entry list" where
  "read_dir_loop path cap acc [] = Inr acc"
| "read_dir_loop path cap acc (s # ss) =
     (case s_node s of
        None \<Rightarrow> read_dir_loop path cap acc ss
      | Some n \<Rightarrow>
          if \<not> is_child path (n_path n) then read_dir_loop path cap acc ss
          else if length acc \<ge> cap then Inl BufferTooSmall
          else read_dir_loop path cap (acc @ [dir_entry_of n]) ss)"

definition vfs_read_dir :: "u8 list \<Rightarrow> nat \<Rightarrow> fs_slot list \<Rightarrow> fs_error + dir_entry list" where
  "vfs_read_dir path cap nodes =
     (case validate_path path of
        Inl e \<Rightarrow> Inl e
      | Inr _ \<Rightarrow>
          (case find_node nodes path of
             None \<Rightarrow> Inl NotFound
           | Some i \<Rightarrow> if \<not> is_dir (node_at nodes i) then Inl NotADirectory else read_dir_loop path cap [] nodes))"

section \<open>Reading and writing by handle\<close>

definition live_node :: "fs_slot list \<Rightarrow> u32 \<Rightarrow> u32 \<Rightarrow> node option" where
  "live_node nodes node gen =
     (if unat node < length nodes
      then let s = nodes ! unat node in if generation s \<noteq> gen then None else s_node s
      else None)"

definition set_data :: "fs_slot list \<Rightarrow> u32 \<Rightarrow> u8 list \<Rightarrow> fs_slot list" where
  "set_data nodes node data =
     nodes[unat node := (nodes ! unat node)\<lparr>s_node := map_option (\<lambda>n. n\<lparr>n_data := data\<rparr>) (s_node (nodes ! unat node))\<rparr>]"

definition vfs_read_at :: "u32 \<Rightarrow> u32 \<Rightarrow> nat \<Rightarrow> nat \<Rightarrow> fs_slot list \<Rightarrow> u8 list" where
  "vfs_read_at node gen offset buf_len nodes =
     (case live_node nodes node gen of
        None \<Rightarrow> []
      | Some n \<Rightarrow>
          if is_dir n \<or> offset \<ge> length (n_data n) then []
          else take (min buf_len (length (n_data n) - offset)) (drop offset (n_data n)))"

definition vfs_truncate :: "u32 \<Rightarrow> u32 \<Rightarrow> fs_slot list \<Rightarrow> fs_slot list" where
  "vfs_truncate node gen nodes =
     (case live_node nodes node gen of
        Some n \<Rightarrow> if \<not> is_dir n then set_data nodes node [] else nodes
      | None \<Rightarrow> nodes)"

definition vfs_write_at :: "u32 \<Rightarrow> u32 \<Rightarrow> nat \<Rightarrow> u8 list \<Rightarrow> fs_slot list \<Rightarrow> nat \<times> fs_slot list" where
  "vfs_write_at node gen offset src nodes =
     (case live_node nodes node gen of
        None \<Rightarrow> (0, nodes)
      | Some n \<Rightarrow>
          if is_dir n then (0, nodes)
          else let end = offset + length src;
                   data = (if end > length (n_data n) then resize (n_data n) end 0 else n_data n)
               in (length src, set_data nodes node (splice data offset src)))"

section \<open>Creating and removing\<close>

definition vfs_make :: "u8 list \<Rightarrow> bool \<Rightarrow> fs_slot list \<Rightarrow> (fs_error + u32 \<times> u32) \<times> fs_slot list" where
  "vfs_make path dir nodes =
     (case validate_path path of
        Inl e \<Rightarrow> (Inl e, nodes)
      | Inr _ \<Rightarrow>
          if path = [SLASH] then (Inl AlreadyExists, nodes)
          else if find_node nodes path \<noteq> None then (Inl AlreadyExists, nodes)
          else case find_node nodes (parent_of path) of
            None \<Rightarrow> (Inl NotFound, nodes)
          | Some p \<Rightarrow>
              if \<not> is_dir (node_at nodes p) then (Inl NotADirectory, nodes)
              else let n = \<lparr>n_path = path, is_dir = dir, n_data = []\<rparr>
                   in case position (\<lambda>s. s_node s = None) nodes of
                        Some i \<Rightarrow>
                          (let gen = generation (nodes ! i) + 1
                           in (Inr (word_of_nat i, gen), nodes[i := \<lparr>generation = gen, s_node = Some n\<rparr>]))
                      | None \<Rightarrow>
                          (Inr (word_of_nat (length nodes), 0), nodes @ [\<lparr>generation = 0, s_node = Some n\<rparr>]))"

definition vfs_create :: "u8 list \<Rightarrow> fs_slot list \<Rightarrow> (fs_error + u32 \<times> u32) \<times> fs_slot list" where
  "vfs_create path = vfs_make path False"

definition vfs_mkdir :: "u8 list \<Rightarrow> fs_slot list \<Rightarrow> (fs_error + unit) \<times> fs_slot list" where
  "vfs_mkdir path nodes = (case vfs_make path True nodes of (r, nodes') \<Rightarrow> (map_sum id (\<lambda>_. ()) r, nodes'))"

definition free_node :: "fs_slot list \<Rightarrow> nat \<Rightarrow> fs_slot list" where
  "free_node nodes i = nodes[i := (nodes ! i)\<lparr>s_node := None\<rparr>]"

definition vfs_unlink :: "u8 list \<Rightarrow> fs_slot list \<Rightarrow> (fs_error + unit) \<times> fs_slot list" where
  "vfs_unlink path nodes =
     (case validate_path path of
        Inl e \<Rightarrow> (Inl e, nodes)
      | Inr _ \<Rightarrow>
          (case find_node nodes path of
             None \<Rightarrow> (Inl NotFound, nodes)
           | Some i \<Rightarrow> if is_dir (node_at nodes i) then (Inl NotAFile, nodes) else (Inr (), free_node nodes i)))"

definition vfs_rmdir :: "u8 list \<Rightarrow> fs_slot list \<Rightarrow> (fs_error + unit) \<times> fs_slot list" where
  "vfs_rmdir path nodes =
     (case validate_path path of
        Inl e \<Rightarrow> (Inl e, nodes)
      | Inr _ \<Rightarrow>
          if path = [SLASH] then (Inl NotEmpty, nodes)
          else case find_node nodes path of
            None \<Rightarrow> (Inl NotFound, nodes)
          | Some i \<Rightarrow>
              if \<not> is_dir (node_at nodes i) then (Inl NotADirectory, nodes)
              else if list_ex (\<lambda>s. case s_node s of Some n \<Rightarrow> is_child path (n_path n) | None \<Rightarrow> False) nodes
              then (Inl NotEmpty, nodes)
              else (Inr (), free_node nodes i))"

end
