(* ===== verification/Vfs_Properties.thy ===== *)
theory Vfs_Properties
  imports Vfs
begin

text \<open>
  The slot table as a file system. Its abstraction is the map from paths to nodes; the operations by path
  are the map operations they should be, with their errors, and keep it a tree: every node but the root has
  a parent, which is a directory. Handles stay safe across removal and reuse of a slot, and reading and
  writing by handle are those of a byte string that grows with zeros.
\<close>

section \<open>The map of paths\<close>

abbreviation live_nodes :: "fs_slot list \<Rightarrow> node list" where
  "live_nodes nodes \<equiv> List.map_filter s_node nodes"

definition file_at :: "fs_slot list \<Rightarrow> u8 list \<Rightarrow> node option" where
  "file_at nodes p = List.find (\<lambda>n. n_path n = p) (live_nodes nodes)"

definition paths_distinct :: "fs_slot list \<Rightarrow> bool" where
  "paths_distinct nodes \<longleftrightarrow> distinct (map n_path (live_nodes nodes))"

lemma map_filter_append: "List.map_filter f (xs @ ys) = List.map_filter f xs @ List.map_filter f ys"
  by (induction xs) (simp_all split: option.split)

lemma find_append: "List.find P (xs @ ys) = (case List.find P xs of Some x \<Rightarrow> Some x | None \<Rightarrow> List.find P ys)"
  by (induction xs) simp_all

lemma find_node_file_at: "file_at nodes p = map_option (node_at nodes) (find_node nodes p)"
proof (induction nodes)
  case (Cons s nodes)
  have *: "node_at (s # nodes) (Suc i) = node_at nodes i" for i by (simp add: node_at_def)
  show ?case
  proof (cases "s_node s")
    case None
    with Cons show ?thesis by (simp add: file_at_def find_node_def has_path_def option.map_comp comp_def *)
  next
    case (Some n)
    with Cons show ?thesis by (simp add: file_at_def find_node_def has_path_def option.map_comp comp_def *) (simp add: node_at_def)
  qed
qed (simp add: file_at_def find_node_def)

lemma find_node_None: "find_node nodes p = None \<longleftrightarrow> file_at nodes p = None"
  by (simp add: find_node_file_at)

lemma find_node_Some:
  assumes "find_node nodes p = Some i"
  shows "i < length nodes" and "s_node (nodes ! i) = Some (node_at nodes i)" and "n_path (node_at nodes i) = p"
    and "file_at nodes p = Some (node_at nodes i)"
proof -
  note i = position_SomeD[OF assms[unfolded find_node_def]]
  show "i < length nodes" by (rule i(1))
  obtain n where n: "s_node (nodes ! i) = Some n" "n_path n = p"
    using i(2) by (auto simp: has_path_def split: option.splits)
  then show "s_node (nodes ! i) = Some (node_at nodes i)" "n_path (node_at nodes i) = p" by (simp_all add: node_at_def)
  show "file_at nodes p = Some (node_at nodes i)" using assms by (simp add: find_node_file_at)
qed

text \<open>A table split at one slot.\<close>

definition opt_list :: "'a option \<Rightarrow> 'a list" where
  "opt_list x = (case x of Some y \<Rightarrow> [y] | None \<Rightarrow> [])"

lemma live_split:
  assumes "i < length nodes"
  shows "live_nodes nodes = live_nodes (take i nodes) @ opt_list (s_node (nodes ! i)) @ live_nodes (drop (Suc i) nodes)"
    and "live_nodes (nodes[i := s]) = live_nodes (take i nodes) @ opt_list (s_node s) @ live_nodes (drop (Suc i) nodes)"
proof -
  have *: "live_nodes (xs @ [s] @ ys) = live_nodes xs @ opt_list (s_node s) @ live_nodes ys" for xs s ys
    by (simp add: map_filter_append opt_list_def split: option.split)
  show "live_nodes nodes = live_nodes (take i nodes) @ opt_list (s_node (nodes ! i)) @ live_nodes (drop (Suc i) nodes)"
    using *[of "take i nodes" "nodes ! i" "drop (Suc i) nodes"] id_take_nth_drop[OF assms] by simp
  show "live_nodes (nodes[i := s]) = live_nodes (take i nodes) @ opt_list (s_node s) @ live_nodes (drop (Suc i) nodes)"
    using *[of "take i nodes" s "drop (Suc i) nodes"] upd_conv_take_nth_drop[OF assms] by simp
qed

lemma find_path_None: "List.find (\<lambda>m. n_path m = p) xs = None \<longleftrightarrow> p \<notin> n_path ` set xs"
  unfolding find_None_iff by blast

lemma find_insert:
  assumes "n_path n \<notin> n_path ` set (xs @ ys)"
  shows "List.find (\<lambda>m. n_path m = p) (xs @ [n] @ ys) = (if p = n_path n then Some n else List.find (\<lambda>m. n_path m = p) (xs @ ys))"
proof (cases "p = n_path n")
  case True
  then have "List.find (\<lambda>m. n_path m = p) xs = None" using assms unfolding find_path_None by auto
  with True show ?thesis by (simp add: find_append)
next
  case False
  then show ?thesis by (simp add: find_append split: option.split)
qed

text \<open>The three ways a table changes: a node appears, disappears, or gets new data.\<close>

lemma file_at_added:
  assumes "live_nodes nodes = xs @ ys" and "live_nodes nodes' = xs @ [n] @ ys" and "file_at nodes (n_path n) = None" and "paths_distinct nodes"
  shows "file_at nodes' = (file_at nodes)(n_path n \<mapsto> n)" and "paths_distinct nodes'"
proof -
  have new: "n_path n \<notin> n_path ` set (xs @ ys)"
    using assms(3) unfolding file_at_def assms(1) find_path_None .
  show "file_at nodes' = (file_at nodes)(n_path n \<mapsto> n)"
    unfolding file_at_def assms(1,2) find_insert[OF new] by (rule ext) simp
  show "paths_distinct nodes'" using assms(4) new unfolding paths_distinct_def assms(1,2) by auto
qed

lemma file_at_removed:
  assumes "live_nodes nodes = xs @ [n] @ ys" and "live_nodes nodes' = xs @ ys" and "paths_distinct nodes"
  shows "file_at nodes' = (file_at nodes)(n_path n := None)" and "paths_distinct nodes'"
proof -
  have new: "n_path n \<notin> n_path ` set (xs @ ys)" using assms(3) unfolding paths_distinct_def assms(1) by auto
  then have "List.find (\<lambda>m. n_path m = n_path n) (xs @ ys) = None" unfolding find_path_None .
  then have "file_at nodes' p = ((file_at nodes)(n_path n := None)) p" for p
    using find_insert[OF new, of p] unfolding file_at_def assms(1,2) by simp
  then show "file_at nodes' = (file_at nodes)(n_path n := None)" by (rule ext)
  show "paths_distinct nodes'" using assms(3) unfolding paths_distinct_def assms(1,2) by auto
qed

lemma file_at_data:
  assumes "live_nodes nodes = xs @ [n] @ ys" and "live_nodes nodes' = xs @ [n\<lparr>n_data := d\<rparr>] @ ys" and "paths_distinct nodes"
  shows "file_at nodes' = (file_at nodes)(n_path n \<mapsto> n\<lparr>n_data := d\<rparr>)" and "paths_distinct nodes'"
proof -
  have new: "n_path n \<notin> n_path ` set (xs @ ys)" "n_path (n\<lparr>n_data := d\<rparr>) \<notin> n_path ` set (xs @ ys)"
    using assms(3) unfolding paths_distinct_def assms(1) by auto
  have "file_at nodes' p = ((file_at nodes)(n_path n \<mapsto> n\<lparr>n_data := d\<rparr>)) p" for p
    unfolding file_at_def assms(1,2) find_insert[OF new(1)] find_insert[OF new(2)] by simp
  then show "file_at nodes' = (file_at nodes)(n_path n \<mapsto> n\<lparr>n_data := d\<rparr>)" by (rule ext)
  show "paths_distinct nodes'" using assms(3) unfolding paths_distinct_def assms(1,2) by auto
qed

section \<open>Paths\<close>

lemma rfind_Some:
  assumes "rfind c xs = Some i"
  shows "i < length xs" and "xs ! i = c" and "c \<notin> set (drop (Suc i) xs)"
proof -
  obtain k where k: "position (\<lambda>x. x = c) (rev xs) = Some k" and i: "i = length xs - 1 - k"
    using assms by (auto simp: rfind_def)
  note p = position_SomeD[OF k]
  show "i < length xs" using p(1) i by simp
  show "xs ! i = c" using p(1,2) i by (simp add: rev_nth)
  have "c \<noteq> drop (Suc i) xs ! j" if "j < length xs - Suc i" for j
  proof -
    have "length xs - Suc (Suc i + j) < k" using i p(1) that by simp
    then have "rev xs ! (length xs - Suc (Suc i + j)) \<noteq> c" by (rule p(3))
    then show ?thesis using that by (simp add: rev_nth)
  qed
  then show "c \<notin> set (drop (Suc i) xs)" by (auto simp: in_set_conv_nth)
qed

lemma rfind_None: "rfind c xs = None \<longleftrightarrow> c \<notin> set xs"
  by (auto simp: rfind_def position_None_iff)

definition valid_path :: "u8 list \<Rightarrow> bool" where
  "valid_path p \<longleftrightarrow> validate_path p = Inr ()"

lemma validate_path_iff: "validate_path p = (if valid_path p then Inr () else Inl InvalidPath)"
  by (simp add: valid_path_def validate_path_def)

lemma valid_pathD:
  assumes "valid_path p"
  shows "p \<noteq> []" and "hd p = SLASH" and "p \<noteq> [SLASH] \<Longrightarrow> last p \<noteq> SLASH" and "\<not> contains p [SLASH, SLASH]"
  using assms by (auto simp: valid_path_def validate_path_def split: if_splits) (cases p; auto)+

lemma valid_root: "valid_path [SLASH]"
  by (simp add: valid_path_def validate_path_def contains_def upt_rec)

lemma contains_at:
  assumes "take (length pat) (drop i xs) = pat" and "i < length xs"
  shows "contains xs pat"
  using assms by (auto simp: contains_def list_ex_iff intro!: bexI[of _ i])

text \<open>The two notions of parent agree: a node whose path has the parent \<open>p\<close> is a child of \<open>p\<close>.\<close>

lemma parent_child:
  assumes "valid_path q" and "q \<noteq> [SLASH]"
  shows "is_child (parent_of q) q" and "parent_of q \<noteq> q"
proof -
  note v = valid_pathD[OF assms(1)]
  have "SLASH \<in> set q" using v(1,2) by (cases q) auto
  then obtain i where i: "rfind SLASH q = Some i" using rfind_None[of SLASH q] by auto
  note r = rfind_Some[OF i]
  let ?v = "drop (Suc i) q"
  have q: "q = take i q @ SLASH # ?v" using id_take_nth_drop[OF r(1)] r(2) by simp
  have ne: "?v \<noteq> []"
  proof
    assume "?v = []"
    then have "last q = SLASH" using q by (metis last_snoc)
    with v(3)[OF assms(2)] show False by simp
  qed
  show "is_child (parent_of q) q"
  proof (cases "i = 0")
    case True
    then have "parent_of q = [SLASH]" "q = SLASH # ?v" using i q by (simp_all add: parent_of_def)
    moreover have "take (Suc 0) q = [SLASH]" using calculation(2) by (cases q) auto
    ultimately show ?thesis using r(3) ne assms(2) True by (auto simp: is_child_def strip_prefix_def)
  next
    case False
    have par: "parent_of q = take i q" using i False by (simp add: parent_of_def)
    have "take i q \<noteq> [SLASH]"
    proof
      assume "take i q = [SLASH]"
      then obtain w where w: "q = SLASH # SLASH # w" using q by auto
      then have "take (length [SLASH, SLASH]) (drop 0 q) = [SLASH, SLASH]" by (simp add: w)
      then have "contains q [SLASH, SLASH]" by (rule contains_at) (use v(1) in simp)
      with v(4) show False by simp
    qed
    moreover have "strip_prefix (take i q) q = Some (SLASH # ?v)"
      using r(1) q by (simp add: strip_prefix_def min_def) (metis Cons_nth_drop_Suc r(1,2))
    moreover have "q \<noteq> take i q" using r(1) by (metis length_take min.absorb4 less_irrefl)
    ultimately show ?thesis unfolding par is_child_def using r(3) ne by (simp add: strip_prefix_def)
  qed
  then show "parent_of q \<noteq> q" by (auto simp: is_child_def)
qed

section \<open>The tree\<close>

definition fs_tree :: "fs_slot list \<Rightarrow> bool" where
  "fs_tree nodes \<longleftrightarrow> paths_distinct nodes
     \<and> (\<exists>n. file_at nodes [SLASH] = Some n \<and> is_dir n)
     \<and> (\<forall>p n. file_at nodes p = Some n \<longrightarrow> valid_path p
          \<and> (p \<noteq> [SLASH] \<longrightarrow> (\<exists>d. file_at nodes (parent_of p) = Some d \<and> is_dir d)))"

lemma fs_treeD:
  assumes "fs_tree nodes"
  shows "paths_distinct nodes" and "\<exists>n. file_at nodes [SLASH] = Some n \<and> is_dir n"
    and "file_at nodes p = Some n \<Longrightarrow> valid_path p"
    and "file_at nodes p = Some n \<Longrightarrow> p \<noteq> [SLASH] \<Longrightarrow> \<exists>d. file_at nodes (parent_of p) = Some d \<and> is_dir d"
  using assms unfolding fs_tree_def by blast+

lemma fs_tree_added:
  assumes "fs_tree nodes" and "paths_distinct nodes'" and "file_at nodes' = (file_at nodes)(p \<mapsto> n)" and "file_at nodes p = None"
    and "valid_path p" and "file_at nodes (parent_of p) = Some d" and "is_dir d"
  shows "fs_tree nodes'"
  unfolding fs_tree_def
proof (intro conjI allI impI)
  note t = fs_treeD[OF assms(1)]
  have keep: "file_at nodes' q = Some m" if "file_at nodes q = Some m" for q m using that assms(3,4) by auto
  show "paths_distinct nodes'" by (rule assms(2))
  show "\<exists>n. file_at nodes' [SLASH] = Some n \<and> is_dir n" using t(2) keep by blast
  fix q m assume q: "file_at nodes' q = Some m"
  then show "valid_path q" using t(3)[of q] assms(3,5) by (cases "q = p") auto
  assume "q \<noteq> [SLASH]"
  then show "\<exists>d. file_at nodes' (parent_of q) = Some d \<and> is_dir d"
    using q t(4)[of q] assms(3,6,7) keep by (cases "q = p") (metis, metis fun_upd_other)
qed

lemma fs_tree_removed:
  assumes "fs_tree nodes" and "paths_distinct nodes'" and "file_at nodes' = (file_at nodes)(p := None)"
    and "p \<noteq> [SLASH]" and "\<And>q m. file_at nodes q = Some m \<Longrightarrow> q \<noteq> [SLASH] \<Longrightarrow> parent_of q \<noteq> p"
  shows "fs_tree nodes'"
  unfolding fs_tree_def
proof (intro conjI allI impI)
  note t = fs_treeD[OF assms(1)]
  show "paths_distinct nodes'" by (rule assms(2))
  show "\<exists>n. file_at nodes' [SLASH] = Some n \<and> is_dir n" using t(2) assms(3,4) by auto
  fix q m assume q: "file_at nodes' q = Some m"
  then have q0: "file_at nodes q = Some m" using assms(3) by (auto split: if_splits)
  then show "valid_path q" by (rule t(3))
  assume "q \<noteq> [SLASH]"
  then show "\<exists>d. file_at nodes' (parent_of q) = Some d \<and> is_dir d"
    using t(4)[OF q0] assms(3) assms(5)[OF q0] by simp
qed

lemma fs_tree_data:
  assumes "fs_tree nodes" and "paths_distinct nodes'" and "file_at nodes p = Some n" and "file_at nodes' = (file_at nodes)(p \<mapsto> n\<lparr>n_data := x\<rparr>)"
  shows "fs_tree nodes'"
  unfolding fs_tree_def
proof (intro conjI allI impI)
  note t = fs_treeD[OF assms(1)]
  have keep: "\<exists>d'. file_at nodes' q = Some d' \<and> is_dir d'" if "file_at nodes q = Some d" "is_dir d" for q d
    using that assms(3,4) by (cases "q = p") auto
  have old: "\<exists>m'. file_at nodes q = Some m'" if "file_at nodes' q = Some m" for q m
    using that assms(3,4) by (cases "q = p") auto
  show "paths_distinct nodes'" by (rule assms(2))
  show "\<exists>n. file_at nodes' [SLASH] = Some n \<and> is_dir n" using t(2) keep by blast
  fix q m assume q: "file_at nodes' q = Some m"
  then show "valid_path q" using old t(3) by blast
  assume "q \<noteq> [SLASH]"
  then show "\<exists>d. file_at nodes' (parent_of q) = Some d \<and> is_dir d" using old[OF q] t(4) keep by blast
qed

section \<open>Operations on the table\<close>

lemma live_append: "live_nodes (nodes @ [s]) = live_nodes nodes @ opt_list (s_node s)"
  by (simp add: map_filter_append opt_list_def split: option.split)

text \<open>A node placed in the first free slot or at the end.\<close>

lemma place_node:
  assumes "paths_distinct nodes" and "file_at nodes (n_path n) = None"
  shows "position (\<lambda>s. s_node s = None) nodes = Some i \<Longrightarrow> nodes' = nodes[i := \<lparr>generation = g, s_node = Some n\<rparr>] \<Longrightarrow>
      file_at nodes' = (file_at nodes)(n_path n \<mapsto> n) \<and> paths_distinct nodes'"
    and "nodes' = nodes @ [\<lparr>generation = g, s_node = Some n\<rparr>] \<Longrightarrow>
      file_at nodes' = (file_at nodes)(n_path n \<mapsto> n) \<and> paths_distinct nodes'"
proof -
  show "file_at nodes' = (file_at nodes)(n_path n \<mapsto> n) \<and> paths_distinct nodes'"
    if p: "position (\<lambda>s. s_node s = None) nodes = Some i" and n': "nodes' = nodes[i := \<lparr>generation = g, s_node = Some n\<rparr>]"
  proof -
    note i = position_SomeD[OF p]
    have "live_nodes nodes = live_nodes (take i nodes) @ live_nodes (drop (Suc i) nodes)"
      "live_nodes nodes' = live_nodes (take i nodes) @ [n] @ live_nodes (drop (Suc i) nodes)"
      unfolding n' using live_split[OF i(1)] i(2) by (simp_all add: opt_list_def)
    from file_at_added[OF this assms(2,1)] show ?thesis by blast
  qed
  show "file_at nodes' = (file_at nodes)(n_path n \<mapsto> n) \<and> paths_distinct nodes'"
    if n': "nodes' = nodes @ [\<lparr>generation = g, s_node = Some n\<rparr>]"
  proof -
    have "live_nodes nodes = live_nodes nodes @ []" "live_nodes nodes' = live_nodes nodes @ [n] @ []"
      unfolding n' live_append by (simp_all add: opt_list_def)
    from file_at_added[OF this assms(2,1)] show ?thesis by blast
  qed
qed

lemma free_node_spec:
  assumes "paths_distinct nodes" and "find_node nodes p = Some i"
  shows "file_at (free_node nodes i) = (file_at nodes)(p := None) \<and> paths_distinct (free_node nodes i)"
proof -
  note f = find_node_Some[OF assms(2)]
  have "live_nodes nodes = live_nodes (take i nodes) @ [node_at nodes i] @ live_nodes (drop (Suc i) nodes)"
    "live_nodes (free_node nodes i) = live_nodes (take i nodes) @ live_nodes (drop (Suc i) nodes)"
    unfolding free_node_def using live_split[OF f(1)] f(2) by (simp_all add: opt_list_def)
  from file_at_removed[OF this assms(1)] f(3) show ?thesis by simp
qed

lemma file_at_member: "paths_distinct nodes \<Longrightarrow> n \<in> set (live_nodes nodes) \<Longrightarrow> file_at nodes (n_path n) = Some n"
  unfolding file_at_def paths_distinct_def by (rule find_key)

lemma live_node_file:
  assumes "paths_distinct nodes" and "live_node nodes h g = Some n"
  shows "file_at nodes (n_path n) = Some n" and "unat h < length nodes" and "s_node (nodes ! unat h) = Some n"
    and "generation (nodes ! unat h) = g"
proof -
  show h: "unat h < length nodes" "s_node (nodes ! unat h) = Some n" "generation (nodes ! unat h) = g"
    using assms(2) by (simp_all add: live_node_def Let_def split: if_splits)
  have "n \<in> set (live_nodes nodes)" unfolding live_split(1)[OF h(1)] using h(2) by (simp add: opt_list_def)
  then show "file_at nodes (n_path n) = Some n" by (rule file_at_member[OF assms(1)])
qed

lemma set_data_spec:
  assumes "paths_distinct nodes" and "live_node nodes h g = Some n"
  shows "file_at (set_data nodes h x) = (file_at nodes)(n_path n \<mapsto> n\<lparr>n_data := x\<rparr>)" and "paths_distinct (set_data nodes h x)"
    and "live_node (set_data nodes h x) h' g' = (if h' = h \<and> g' = g then Some (n\<lparr>n_data := x\<rparr>) else live_node nodes h' g')"
proof -
  note f = live_node_file[OF assms]
  have "live_nodes nodes = live_nodes (take (unat h) nodes) @ [n] @ live_nodes (drop (Suc (unat h)) nodes)"
    "live_nodes (set_data nodes h x) = live_nodes (take (unat h) nodes) @ [n\<lparr>n_data := x\<rparr>] @ live_nodes (drop (Suc (unat h)) nodes)"
    unfolding set_data_def using live_split[OF f(2)] f(3) by (simp_all add: opt_list_def)
  from file_at_data[OF this assms(1)]
  show "file_at (set_data nodes h x) = (file_at nodes)(n_path n \<mapsto> n\<lparr>n_data := x\<rparr>)" "paths_distinct (set_data nodes h x)" by blast+
  show "live_node (set_data nodes h x) h' g' = (if h' = h \<and> g' = g then Some (n\<lparr>n_data := x\<rparr>) else live_node nodes h' g')"
  proof (cases "h' = h")
    case True
    then show ?thesis using f by (simp add: live_node_def set_data_def Let_def)
  next
    case False
    then have "unat h' \<noteq> unat h" unfolding word_unat_eq_iff .
    with False show ?thesis by (simp add: live_node_def set_data_def Let_def)
  qed
qed

lemma children_listed:
  assumes "list_ex (\<lambda>s. case s_node s of Some n \<Rightarrow> is_child p (n_path n) | None \<Rightarrow> False) nodes = False"
    and "file_at nodes q = Some m"
  shows "\<not> is_child p q"
proof -
  have "m \<in> set (live_nodes nodes)" "n_path m = q"
    using assms(2) find_SomeD unfolding file_at_def by fast+
  then obtain s where "s \<in> set nodes" "s_node s = Some m" by (auto simp: List.map_filter_def)
  then show ?thesis using assms(1) \<open>n_path m = q\<close> by (auto simp: list_ex_iff split: option.splits)
qed

lemma child_listed:
  assumes "list_ex (\<lambda>s. case s_node s of Some n \<Rightarrow> is_child p (n_path n) | None \<Rightarrow> False) nodes" and "paths_distinct nodes"
  shows "\<exists>q. file_at nodes q \<noteq> None \<and> is_child p q"
proof -
  obtain s where s: "s \<in> set nodes" "case s_node s of Some n \<Rightarrow> is_child p (n_path n) | None \<Rightarrow> False"
    using assms(1) unfolding list_ex_iff by blast
  obtain n where n: "s_node s = Some n" "is_child p (n_path n)" using s(2) by (cases "s_node s") simp_all
  have "n \<in> set (live_nodes nodes)" using s(1) n(1) by (force simp: List.map_filter_def)
  then have "file_at nodes (n_path n) = Some n" by (rule file_at_member[OF assms(2)])
  then show ?thesis using n(2) by auto
qed

section \<open>Properties\<close>

text \<open>A table with the root, the directory \<open>/a\<close> and the file \<open>/a/f\<close> holding three bytes.\<close>

definition demo_fs :: "fs_slot list" where
  "demo_fs = [new_node [SLASH] True [], new_node [SLASH, 97] True [], new_node [SLASH, 97, SLASH, 102] False [1, 2, 3]]"

lemma demo_fs_file_at:
  "file_at demo_fs p = (if p = [SLASH] then Some \<lparr>n_path = [SLASH], is_dir = True, n_data = []\<rparr>
    else if p = [SLASH, 97] then Some \<lparr>n_path = [SLASH, 97], is_dir = True, n_data = []\<rparr>
    else if p = [SLASH, 97, SLASH, 102] then Some \<lparr>n_path = [SLASH, 97, SLASH, 102], is_dir = False, n_data = [1, 2, 3]\<rparr> else None)"
  by (auto simp: file_at_def demo_fs_def new_node_def)

lemma demo_fs_tree: "fs_tree demo_fs"
proof -
  have "valid_path [SLASH]" "valid_path [SLASH, 97]" "valid_path [SLASH, 97, SLASH, 102]"
    "parent_of [SLASH, 97] = [SLASH]" "parent_of [SLASH, 97, SLASH, 102] = [SLASH, 97]"
    by (simp_all add: valid_path_def, code_simp+)
  moreover have "paths_distinct demo_fs" by (simp add: paths_distinct_def demo_fs_def new_node_def)
  ultimately show ?thesis unfolding fs_tree_def demo_fs_file_at by auto
qed

text \<open>C30: Creating a file or directory fails exactly when it must, with the error the case calls for, and then
  changes nothing: an invalid path, a path that exists, a missing parent, a parent that is a file. Otherwise
  the map of paths gains exactly the new, empty node and the handle returned resolves to it.\<close>

theorem vfs_make_errors:
  assumes "paths_distinct nodes" and "length nodes < 2 ^ 32"
  shows "case vfs_make path dir nodes of (r, nodes') \<Rightarrow>
    if \<not> valid_path path then r = Inl InvalidPath \<and> nodes' = nodes
    else if path = [SLASH] \<or> file_at nodes path \<noteq> None then r = Inl AlreadyExists \<and> nodes' = nodes
    else case file_at nodes (parent_of path) of
      None \<Rightarrow> r = Inl NotFound \<and> nodes' = nodes
    | Some d \<Rightarrow>
        if \<not> is_dir d then r = Inl NotADirectory \<and> nodes' = nodes
        else \<exists>h g. r = Inr (h, g)
          \<and> live_node nodes' h g = Some \<lparr>n_path = path, is_dir = dir, n_data = []\<rparr>
          \<and> file_at nodes' = (file_at nodes)(path \<mapsto> \<lparr>n_path = path, is_dir = dir, n_data = []\<rparr>)
          \<and> paths_distinct nodes'"
proof (cases "valid_path path \<and> path \<noteq> [SLASH] \<and> find_node nodes path = None")
  case False
  then show ?thesis by (auto simp: vfs_make_def validate_path_iff find_node_None)
next
  case True
  then have no: "file_at nodes path = None" by (simp add: find_node_None)
  let ?n = "\<lparr>n_path = path, is_dir = dir, n_data = []\<rparr>"
  show ?thesis
  proof (cases "find_node nodes (parent_of path)")
    case None
    then have "file_at nodes (parent_of path) = None" by (simp add: find_node_None)
    then show ?thesis using True None no by (simp add: vfs_make_def validate_path_iff)
  next
    case (Some p)
    note f = find_node_Some(4)[OF Some]
    show ?thesis
    proof (cases "is_dir (node_at nodes p)")
      case False
      then show ?thesis using True Some no f by (simp add: vfs_make_def validate_path_iff)
    next
      case dir: True
      show ?thesis
      proof (cases "position (\<lambda>s. s_node s = None) nodes")
        case None
        let ?nodes = "nodes @ [\<lparr>generation = 0, s_node = Some ?n\<rparr>]"
        have r: "vfs_make path dir nodes = (Inr (word_of_nat (length nodes), 0), ?nodes)"
          using True Some dir None by (simp add: vfs_make_def validate_path_iff)
        have "live_node ?nodes (word_of_nat (length nodes)) 0 = Some ?n"
          using assms(2) by (simp add: live_node_def unat_of_nat Let_def)
        with place_node(2)[OF assms(1), of ?n ?nodes 0] True no f dir show ?thesis unfolding r by simp
      next
        case (Some i)
        let ?g = "generation (nodes ! i) + 1"
        let ?nodes = "nodes[i := \<lparr>generation = ?g, s_node = Some ?n\<rparr>]"
        note i = position_SomeD(1)[OF Some]
        have r: "vfs_make path dir nodes = (Inr (word_of_nat i, ?g), ?nodes)"
          using True \<open>find_node nodes (parent_of path) = _\<close> dir Some by (simp add: vfs_make_def validate_path_iff Let_def)
        have "live_node ?nodes (word_of_nat i) ?g = Some ?n"
          using assms(2) i by (simp add: live_node_def unat_of_nat Let_def)
        with place_node(1)[OF assms(1) _ Some, of ?n ?nodes ?g] True no f dir show ?thesis unfolding r by simp
      qed
    qed
  qed
qed

theorem vfs_make_errors_witness:
  "fst (vfs_make [SLASH, 97, SLASH, 102, SLASH, 103] False demo_fs) = Inl NotADirectory
   \<and> (\<exists>h. fst (vfs_make [SLASH, 98] False demo_fs) = Inr h)"
proof -
  have v: "valid_path [SLASH, 97, SLASH, 102, SLASH, 103]" "valid_path [SLASH, 98]"
    "parent_of [SLASH, 97, SLASH, 102, SLASH, 103] = [SLASH, 97, SLASH, 102]" "parent_of [SLASH, 98] = [SLASH]"
    by (simp_all add: valid_path_def, code_simp+)
  have len: "length demo_fs < 2 ^ 32" by (simp add: demo_fs_def)
  note m = vfs_make_errors[OF fs_treeD(1)[OF demo_fs_tree] len, where dir = False]
  have "fst (vfs_make [SLASH, 97, SLASH, 102, SLASH, 103] False demo_fs) = Inl NotADirectory"
    using m[of "[SLASH, 97, SLASH, 102, SLASH, 103]"] v by (simp add: demo_fs_file_at split_beta)
  moreover have "\<exists>h. fst (vfs_make [SLASH, 98] False demo_fs) = Inr h"
    using m[of "[SLASH, 98]"] v by (auto simp: demo_fs_file_at split_beta)
  ultimately show ?thesis by blast
qed

text \<open>The operations that change the table.\<close>

inductive vfs_step :: "fs_slot list \<Rightarrow> fs_slot list \<Rightarrow> bool" where
  vs_make: "vfs_step nodes (snd (vfs_make path dir nodes))"
| vs_unlink: "vfs_step nodes (snd (vfs_unlink path nodes))"
| vs_rmdir: "vfs_step nodes (snd (vfs_rmdir path nodes))"
| vs_write: "vfs_step nodes (snd (vfs_write_at h g offset src nodes))"
| vs_truncate: "vfs_step nodes (vfs_truncate h g nodes)"

text \<open>\<open>vfs_make\<close> without the bound on the number of slots, for the invariants.\<close>

lemma vfs_make_cases:
  assumes "paths_distinct nodes"
  obtains "snd (vfs_make path dir nodes) = nodes"
  | d where "valid_path path" and "path \<noteq> [SLASH]" and "file_at nodes path = None" and "file_at nodes (parent_of path) = Some d"
      and "is_dir d" and "paths_distinct (snd (vfs_make path dir nodes))"
      and "file_at (snd (vfs_make path dir nodes)) = (file_at nodes)(path \<mapsto> \<lparr>n_path = path, is_dir = dir, n_data = []\<rparr>)"
proof (cases "valid_path path \<and> path \<noteq> [SLASH] \<and> find_node nodes path = None \<and>
    (\<exists>p. find_node nodes (parent_of path) = Some p \<and> is_dir (node_at nodes p))")
  case False
  then show thesis by (intro that(1)) (auto simp: vfs_make_def validate_path_iff split: option.split)
next
  case True
  then obtain p where p: "find_node nodes (parent_of path) = Some p" "is_dir (node_at nodes p)" by blast
  have no: "file_at nodes path = None" using True by (simp add: find_node_None)
  let ?n = "\<lparr>n_path = path, is_dir = dir, n_data = []\<rparr>"
  have "file_at (snd (vfs_make path dir nodes)) = (file_at nodes)(path \<mapsto> ?n) \<and> paths_distinct (snd (vfs_make path dir nodes))"
    using place_node(1)[OF assms, of ?n] place_node(2)[OF assms, of ?n] True p no
    by (simp add: vfs_make_def validate_path_iff Let_def split: option.split)
  then show thesis using that(2)[OF _ _ no find_node_Some(4)[OF p(1)] p(2)] True by blast
qed

lemma vfs_step_tree:
  assumes "vfs_step nodes nodes'" and "fs_tree nodes"
  shows "fs_tree nodes'"
  using assms(1)
proof cases
  note d = fs_treeD(1)[OF assms(2)]
  case (vs_make path dir)
  show ?thesis
  proof (cases rule: vfs_make_cases[OF d, of path dir])
    case 1
    then show ?thesis using vs_make assms(2) by simp
  next
    case (2 n)
    then show ?thesis using fs_tree_added[OF assms(2) 2(6,7,3,1,4,5)] vs_make by simp
  qed
next
  note d = fs_treeD(1)[OF assms(2)]
  case (vs_unlink path)
  have "fs_tree (free_node nodes i)" if i: "find_node nodes path = Some i" and f: "\<not> is_dir (node_at nodes i)" for i
  proof -
    note p = find_node_Some(4)[OF i]
    have "path \<noteq> [SLASH]" using fs_treeD(2)[OF assms(2)] p f by auto
    moreover have "parent_of q \<noteq> path" if "file_at nodes q = Some m" "q \<noteq> [SLASH]" for q m
      using fs_treeD(4)[OF assms(2) that] p f by auto
    ultimately show ?thesis using fs_tree_removed[OF assms(2)] free_node_spec[OF d i] by blast
  qed
  then show ?thesis using vs_unlink assms(2) by (auto simp: vfs_unlink_def validate_path_iff split: option.split)
next
  note d = fs_treeD(1)[OF assms(2)]
  case (vs_rmdir path)
  have "fs_tree (free_node nodes i)" if i: "find_node nodes path = Some i" and r: "path \<noteq> [SLASH]"
    and c: "\<not> list_ex (\<lambda>s. case s_node s of Some n \<Rightarrow> is_child path (n_path n) | None \<Rightarrow> False) nodes" for i
  proof -
    have "parent_of q \<noteq> path" if q: "file_at nodes q = Some m" "q \<noteq> [SLASH]" for q m
      using parent_child(1)[OF fs_treeD(3)[OF assms(2) q(1)] q(2)] children_listed[OF _ q(1), of path] c by auto
    then show ?thesis using fs_tree_removed[OF assms(2) _ _ r] free_node_spec[OF d i] by blast
  qed
  then show ?thesis using vs_rmdir assms(2) by (auto simp: vfs_rmdir_def validate_path_iff split: option.split)
next
  note d = fs_treeD(1)[OF assms(2)]
  case (vs_write h g offset src)
  have "fs_tree (set_data nodes h x)" if l: "live_node nodes h g = Some n" for n x
    using fs_tree_data[OF assms(2) set_data_spec(2)[OF d l] live_node_file(1)[OF d l] set_data_spec(1)[OF d l]] .
  then show ?thesis using vs_write assms(2) by (auto simp: vfs_write_at_def Let_def split: option.split)
next
  note d = fs_treeD(1)[OF assms(2)]
  case (vs_truncate h g)
  have "fs_tree (set_data nodes h x)" if l: "live_node nodes h g = Some n" for n x
    using fs_tree_data[OF assms(2) set_data_spec(2)[OF d l] live_node_file(1)[OF d l] set_data_spec(1)[OF d l]] .
  then show ?thesis using vs_truncate assms(2) by (auto simp: vfs_truncate_def split: option.split)
qed

text \<open>C20: Whatever files and directories are created, written and removed in whatever order, the table stays a
  tree: paths are valid and unique, the root is there and is a directory, and the parent of every other node
  exists and is a directory.\<close>

theorem vfs_tree_reachable:
  assumes "vfs_step\<^sup>*\<^sup>* [new_node [SLASH] True []] nodes"
  shows "fs_tree nodes"
proof -
  have "fs_tree [new_node [SLASH] True []]"
    using valid_root by (auto simp: fs_tree_def paths_distinct_def file_at_def new_node_def)
  with assms show ?thesis by (induction rule: rtranclp_induct) (auto intro: vfs_step_tree)
qed

theorem vfs_tree_reachable_witness:
  "fs_tree (snd (vfs_unlink [SLASH, 97] (snd (vfs_make [SLASH, 97] False [new_node [SLASH] True []]))))"
  by (rule vfs_tree_reachable,
      rule rtranclp.rtrancl_into_rtrancl[OF r_into_rtranclp[where r = vfs_step, OF vs_make] vs_unlink])

section \<open>Handles\<close>

text \<open>Runs that create at most \<open>n\<close> nodes.\<close>

inductive vfs_run :: "nat \<Rightarrow> fs_slot list \<Rightarrow> fs_slot list \<Rightarrow> bool" where
  vr_nil: "vfs_run n nodes nodes"
| vr_make: "vfs_run n nodes nodes' \<Longrightarrow> vfs_run (Suc n) nodes (snd (vfs_make path dir nodes'))"
| vr_unlink: "vfs_run n nodes nodes' \<Longrightarrow> vfs_run n nodes (snd (vfs_unlink path nodes'))"
| vr_rmdir: "vfs_run n nodes nodes' \<Longrightarrow> vfs_run n nodes (snd (vfs_rmdir path nodes'))"
| vr_write: "vfs_run n nodes nodes' \<Longrightarrow> vfs_run n nodes (snd (vfs_write_at h g offset src nodes'))"
| vr_truncate: "vfs_run n nodes nodes' \<Longrightarrow> vfs_run n nodes (vfs_truncate h g nodes')"

text \<open>A slot freed at generation \<open>g\<close> is still free, or has been reused with a later generation.\<close>

definition dead_slot :: "nat \<Rightarrow> u32 \<Rightarrow> nat \<Rightarrow> fs_slot list \<Rightarrow> bool" where
  "dead_slot j g n nodes \<longleftrightarrow> j < length nodes
     \<and> (\<exists>k \<le> n. generation (nodes ! j) = g + word_of_nat k \<and> (k = 0 \<longrightarrow> s_node (nodes ! j) = None))"

lemma dead_slot_keep:
  assumes "dead_slot j g n nodes" and "length nodes \<le> length nodes'" and "generation (nodes' ! j) = generation (nodes ! j)"
    and "s_node (nodes ! j) = None \<Longrightarrow> s_node (nodes' ! j) = None" and "n \<le> n'"
  shows "dead_slot j g n' nodes'"
proof -
  obtain k where "k \<le> n" "generation (nodes ! j) = g + word_of_nat k" "k = 0 \<longrightarrow> s_node (nodes ! j) = None"
    using assms(1) unfolding dead_slot_def by blast
  moreover have "j < length nodes'" using assms(1,2) by (simp add: dead_slot_def)
  ultimately show ?thesis unfolding dead_slot_def using assms(3-5) by (intro conjI exI[of _ k]) simp_all
qed

lemma free_node_slot:
  "length (free_node nodes i) = length nodes" "j < length nodes \<Longrightarrow> generation (free_node nodes i ! j) = generation (nodes ! j)"
  "j < length nodes \<Longrightarrow> s_node (nodes ! j) = None \<Longrightarrow> s_node (free_node nodes i ! j) = None"
  by (cases "i = j"; simp add: free_node_def)+

lemma set_data_slot:
  "length (set_data nodes h x) = length nodes" "j < length nodes \<Longrightarrow> generation (set_data nodes h x ! j) = generation (nodes ! j)"
  "j < length nodes \<Longrightarrow> s_node (nodes ! j) = None \<Longrightarrow> s_node (set_data nodes h x ! j) = None"
  by (cases "unat h = j"; simp add: set_data_def)+

lemma dead_slot_make:
  assumes "dead_slot j g n nodes"
  shows "dead_slot j g (Suc n) (snd (vfs_make path dir nodes))"
proof -
  have j: "j < length nodes" using assms by (simp add: dead_slot_def)
  have keep: "dead_slot j g (Suc n) (nodes @ [x])" "dead_slot j g (Suc n) nodes" for x
    using dead_slot_keep[OF assms, of _ "Suc n"] j by (simp_all add: nth_append)
  have reuse: "dead_slot j g (Suc n) (nodes[i := \<lparr>generation = generation (nodes ! i) + 1, s_node = x\<rparr>])" for i x
  proof (cases "i = j")
    case True
    obtain k where "k \<le> n" "generation (nodes ! j) = g + word_of_nat k" using assms unfolding dead_slot_def by blast
    then show ?thesis unfolding dead_slot_def using True j by (intro conjI exI[of _ "Suc k"]) (simp_all add: algebra_simps)
  next
    case False
    then show ?thesis using dead_slot_keep[OF assms, of _ "Suc n"] by simp
  qed
  show ?thesis using keep reuse by (auto simp: vfs_make_def validate_path_iff Let_def split: option.split)
qed

lemma dead_slot_run: "vfs_run n nodes nodes' \<Longrightarrow> dead_slot j g 0 nodes \<Longrightarrow> dead_slot j g n nodes'"
proof (induction rule: vfs_run.induct)
  case (vr_nil n nodes)
  then show ?case by (rule dead_slot_keep) simp_all
next
  case (vr_make n nodes nodes' path dir)
  then show ?case by (intro dead_slot_make) blast
next
  case (vr_unlink n nodes nodes' path)
  then have d: "dead_slot j g n nodes'" by blast
  then have "dead_slot j g n (free_node nodes' i)" for i
    by (rule dead_slot_keep) (use d in \<open>simp_all add: free_node_slot dead_slot_def\<close>)
  with d show ?case by (auto simp: vfs_unlink_def validate_path_iff split: option.split)
next
  case (vr_rmdir n nodes nodes' path)
  then have d: "dead_slot j g n nodes'" by blast
  then have "dead_slot j g n (free_node nodes' i)" for i
    by (rule dead_slot_keep) (use d in \<open>simp_all add: free_node_slot dead_slot_def\<close>)
  with d show ?case by (auto simp: vfs_rmdir_def validate_path_iff split: option.split)
next
  case (vr_write n nodes nodes' h g' offset src)
  then have d: "dead_slot j g n nodes'" by blast
  then have "dead_slot j g n (set_data nodes' h x)" for x
    by (rule dead_slot_keep) (use d in \<open>simp_all add: set_data_slot dead_slot_def\<close>)
  with d show ?case by (auto simp: vfs_write_at_def Let_def split: option.split)
next
  case (vr_truncate n nodes nodes' h g')
  then have d: "dead_slot j g n nodes'" by blast
  then have "dead_slot j g n (set_data nodes' h x)" for x
    by (rule dead_slot_keep) (use d in \<open>simp_all add: set_data_slot dead_slot_def\<close>)
  with d show ?case by (auto simp: vfs_truncate_def split: option.split)
qed

lemma dead_slot_live:
  assumes "dead_slot (unat h) g n nodes" and "n < 2 ^ 32"
  shows "live_node nodes h g = None"
proof -
  obtain k where k: "k \<le> n" "generation (nodes ! unat h) = g + word_of_nat k" "k = 0 \<longrightarrow> s_node (nodes ! unat h) = None"
    using assms(1) unfolding dead_slot_def by blast
  show ?thesis
  proof (cases "k = 0")
    case True
    then show ?thesis using k by (simp add: live_node_def Let_def)
  next
    case False
    have "unat (word_of_nat k :: u32) = k" using k(1) assms(2) by (simp add: unat_of_nat)
    then have "(word_of_nat k :: u32) \<noteq> 0" using False by (metis unat_0)
    then show ?thesis using k(2) by (simp add: live_node_def Let_def)
  qed
qed

text \<open>C22: A file descriptor that outlives its file is harmless. Once the file has been removed, the handle reads
  nothing and writes nothing, also when its slot has been given to other files, as long as fewer than \<open>2^32\<close>
  nodes have been created since.\<close>

theorem stale_handle_inert:
  assumes "find_node nodes path = Some (unat h)" and "generation (nodes ! unat h) = g"
    and "vfs_unlink path nodes = (Inr (), nodes1)" and "vfs_run n nodes1 nodes2" and "n < 2 ^ 32"
  shows "vfs_read_at h g offset len nodes2 = [] \<and> vfs_write_at h g offset src nodes2 = (0, nodes2)"
proof -
  have n1: "nodes1 = free_node nodes (unat h)"
    using assms(1,3) by (auto simp: vfs_unlink_def validate_path_iff split: if_splits)
  have "dead_slot (unat h) g 0 nodes1"
    unfolding n1 dead_slot_def using find_node_Some(1)[OF assms(1)] assms(2) by (simp add: free_node_def)
  from dead_slot_live[OF dead_slot_run[OF assms(4) this] assms(5)]
  show ?thesis by (simp add: vfs_read_at_def vfs_write_at_def)
qed

theorem stale_handle_inert_witness:
  "vfs_read_at 2 0 0 3 (snd (vfs_make [SLASH, 98] False (snd (vfs_unlink [SLASH, 97, SLASH, 102] demo_fs)))) = []"
proof -
  have f: "find_node demo_fs [SLASH, 97, SLASH, 102] = Some (unat (2 :: u32))" "generation (demo_fs ! unat (2 :: u32)) = 0"
    by (simp_all add: demo_fs_def find_node_def has_path_def new_node_def)
  have v: "validate_path [SLASH, 97, SLASH, 102] = Inr ()" by code_simp
  then have "vfs_unlink [SLASH, 97, SLASH, 102] demo_fs = (Inr (), snd (vfs_unlink [SLASH, 97, SLASH, 102] demo_fs))"
    using f(1) by (simp add: vfs_unlink_def) (simp add: demo_fs_def node_at_def new_node_def)
  from stale_handle_inert[OF f this vr_make[OF vr_nil[of 0]]] show ?thesis by simp
qed

text \<open>C34: Writing by handle and reading back gives the bytes written. The file keeps its bytes before and after
  the range written, a gap beyond its old end is filled with zeros, and no other handle sees a change.\<close>

theorem vfs_write_read:
  assumes "live_node nodes h g = Some n" and "\<not> is_dir n" and "paths_distinct nodes"
  shows "case vfs_write_at h g offset src nodes of (written, nodes') \<Rightarrow>
    written = length src \<and> (src \<noteq> [] \<longrightarrow> vfs_read_at h g offset (length src) nodes' = src)
    \<and> live_node nodes' h g = Some (n\<lparr>n_data := take offset (n_data n @ replicate (offset - length (n_data n)) 0)
        @ src @ drop (offset + length src) (n_data n)\<rparr>)
    \<and> ((h', g') \<noteq> (h, g) \<longrightarrow> vfs_read_at h' g' o' l' nodes' = vfs_read_at h' g' o' l' nodes)"
proof -
  let ?d = "if offset + length src > length (n_data n) then resize (n_data n) (offset + length src) 0 else n_data n"
  let ?x = "splice ?d offset src"
  let ?y = "take offset (n_data n @ replicate (offset - length (n_data n)) 0) @ src @ drop (offset + length src) (n_data n)"
  have xy: "?x = ?y" by (auto simp: splice_def resize_def min_def)
  obtain y P where y: "y = ?y" and P: "y = P @ src @ drop (offset + length src) (n_data n)" "length P = offset"
    by (rule that[OF refl refl]) simp
  have w: "vfs_write_at h g offset src nodes = (length src, set_data nodes h y)"
    using assms(1,2) xy unfolding y by (simp add: vfs_write_at_def Let_def)
  note s = set_data_spec(3)[OF assms(3,1), of y]
  have "vfs_read_at h g offset (length src) (set_data nodes h y) = src" if "src \<noteq> []"
    unfolding vfs_read_at_def s using that assms(2) P(2) by (simp add: P(1))
  moreover have "vfs_read_at h' g' o' l' (set_data nodes h y) = vfs_read_at h' g' o' l' nodes" if "(h', g') \<noteq> (h, g)"
    using that by (auto simp: vfs_read_at_def s)
  moreover have "live_node (set_data nodes h y) h g = Some (n\<lparr>n_data := y\<rparr>)" by (simp add: s)
  ultimately show ?thesis unfolding w y[symmetric] by simp
qed

theorem vfs_write_read_witness:
  "vfs_read_at 2 0 5 2 (snd (vfs_write_at 2 0 5 [8, 9] demo_fs)) = [8, 9]"
proof -
  have "live_node demo_fs 2 0 = Some \<lparr>n_path = [SLASH, 97, SLASH, 102], is_dir = False, n_data = [1, 2, 3]\<rparr>"
    by (simp add: live_node_def demo_fs_def new_node_def)
  from vfs_write_read[OF this _ fs_treeD(1)[OF demo_fs_tree], where offset = 5 and src = "[8, 9]"]
  show ?thesis by (simp add: split_beta numeral_2_eq_2)
qed

end
