(* ===== verification/Boot_Image.thy ===== *)
theory Boot_Image
  imports Vfs_Properties
begin

text \<open>
  The boot image: how the build script packs programs into executables and a file-system image
  (\<open>build_kxe\<close> and \<open>build_kfs\<close> of \<open>crates/kernel/build.rs\<close>), and how the kernel takes them apart
  (\<open>vfs::init\<close> and \<open>parse_kxe\<close> of \<open>task/exec.rs\<close>). The theorem is the round trip: every file that was
  packed is found under its path with its bytes, and every program comes back with its code and entry.
\<close>

section \<open>Executables\<close>

definition KXE_MAGIC :: "u8 list" where "KXE_MAGIC = [75, 88, 69, 0]"
definition USER_BASE :: u64 where "USER_BASE = 0x8000000000"
definition USER_STACK_TOP :: u64 where "USER_STACK_TOP = 0x8080000000"
definition USER_STACK_SIZE :: u64 where "USER_STACK_SIZE = 0x10000"
definition KXE_FLAG_DRIVER :: u32 where "KXE_FLAG_DRIVER = 1"

definition build_kxe :: "u8 list \<Rightarrow> u64 \<Rightarrow> u32 \<Rightarrow> u8 list" where
  "build_kxe code entry flags =
     KXE_MAGIC @ to_le 8 (unat entry) @ to_le 8 36 @ to_le 8 (length code) @ to_le 4 (unat flags) @ to_le 4 0 @ code"

text \<open>The packed header: magic, entry, offset and size of the code, flags, reserved; 36 bytes.\<close>

record kxe_header =
  h_magic :: "u8 list"
  h_entry :: u64
  h_code_offset :: nat
  h_code_size :: nat
  h_flags :: u32
  h_reserved :: u32

definition KXE_HEADER_SIZE :: nat where "KXE_HEADER_SIZE = 36"

definition read_kxe_header :: "u8 list \<Rightarrow> kxe_header" where
  "read_kxe_header img =
     \<lparr>h_magic = take 4 img, h_entry = word_of_nat (from_le (take 8 (drop 4 img))),
      h_code_offset = from_le (take 8 (drop 12 img)), h_code_size = from_le (take 8 (drop 20 img)),
      h_flags = word_of_nat (from_le (take 4 (drop 28 img))),
      h_reserved = word_of_nat (from_le (take 4 (drop 32 img)))\<rparr>"

record kxe_image =
  k_entry :: u64
  k_code :: "u8 list"
  k_flags :: u32

definition parse_kxe :: "u8 list \<Rightarrow> kxe_image option" where
  "parse_kxe img =
     (if length img < KXE_HEADER_SIZE then None
      else let header = read_kxe_header img
           in if h_magic header \<noteq> KXE_MAGIC then None
              else if h_code_offset header + h_code_size header \<ge> 2 ^ 64 then None
              else let end = h_code_offset header + h_code_size header
                   in if h_code_offset header < KXE_HEADER_SIZE \<or> end > length img then None
                      else Some \<lparr>k_entry = USER_BASE + h_entry header,
                                 k_code = take (end - h_code_offset header) (drop (h_code_offset header) img),
                                 k_flags = h_flags header\<rparr>)"

section \<open>The file-system image\<close>

record kfs_entry =
  e_path :: "u8 list"
  e_data :: "u8 list"
  e_flags :: u32

abbreviation bin_dir :: "u8 list" where "bin_dir \<equiv> [98, 105, 110]"
abbreviation drivers_dir :: "u8 list" where "drivers_dir \<equiv> [100, 114, 105, 118, 101, 114, 115]"
abbreviation dot_kxe :: "u8 list" where "dot_kxe \<equiv> [DOT, 107, 120, 101]"
abbreviation dot_kdm :: "u8 list" where "dot_kdm \<equiv> [DOT, 107, 100, 109]"
abbreviation dot_list :: "u8 list" where "dot_list \<equiv> [DOT, 108, 105, 115, 116]"

definition dir_source :: "u8 list \<Rightarrow> kfs_entry" where
  "dir_source path = \<lparr>e_path = path, e_data = [], e_flags = FLAG_DIR\<rparr>"

definition file_source :: "u8 list \<Rightarrow> u8 list \<Rightarrow> kfs_entry" where
  "file_source path data = \<lparr>e_path = path, e_data = data, e_flags = FLAG_FILE\<rparr>"

definition kxe_path :: "u8 list \<Rightarrow> u8 list" where
  "kxe_path stem = SLASH # bin_dir @ SLASH # stem @ dot_kxe"

definition kdm_path :: "u8 list \<Rightarrow> u8 list" where
  "kdm_path stem = SLASH # drivers_dir @ SLASH # stem @ dot_kdm"

definition list_path :: "u8 list" where
  "list_path = SLASH # drivers_dir @ SLASH # drivers_dir @ dot_list"

definition kfs_sources :: "(u8 list \<times> u8 list) list \<Rightarrow> (u8 list \<times> u8 list) list \<Rightarrow> u8 list \<Rightarrow> kfs_entry list" where
  "kfs_sources kxe_files kdm_files drivers_list =
     [dir_source [SLASH], dir_source (SLASH # bin_dir)]
     @ map (\<lambda>(stem, kxe). file_source (kxe_path stem) kxe) kxe_files
     @ [dir_source (SLASH # drivers_dir)]
     @ map (\<lambda>(stem, kdm). file_source (kdm_path stem) kdm) kdm_files
     @ (if drivers_list \<noteq> [] then [file_source list_path drivers_list] else [])"

text \<open>One record of the table, and the table with the running path and data offsets.\<close>

definition entry_bytes :: "kfs_entry \<Rightarrow> nat \<Rightarrow> nat \<Rightarrow> u8 list" where
  "entry_bytes e path_offset data_offset =
     to_le 2 (length (e_path e)) @ to_le 2 path_offset
     @ (if e_flags e AND FLAG_FILE \<noteq> 0 then to_le 8 data_offset @ to_le 8 (length (e_data e)) else to_le 8 0 @ to_le 8 0)
     @ to_le 4 (unat (e_flags e)) @ to_le 4 0 @ to_le 4 0"

definition packed_data :: "kfs_entry \<Rightarrow> u8 list" where
  "packed_data e = (if e_flags e AND FLAG_FILE \<noteq> 0 then e_data e else [])"

primrec table_bytes :: "kfs_entry list \<Rightarrow> nat \<Rightarrow> nat \<Rightarrow> u8 list" where
  "table_bytes [] path_offset data_offset = []"
| "table_bytes (e # es) path_offset data_offset =
     entry_bytes e path_offset data_offset
     @ table_bytes es (path_offset + length (e_path e)) (data_offset + length (packed_data e))"

definition pack_sources :: "kfs_entry list \<Rightarrow> u8 list" where
  "pack_sources sources =
     KFS_MAGIC @ to_le 4 KFS_VERSION @ to_le 4 (length sources) @ replicate 16 0
     @ table_bytes sources 0 (HEADER_SIZE + ENTRY_SIZE * length sources + length (concat (map e_path sources)))
     @ concat (map e_path sources) @ concat (map packed_data sources)"

definition build_kfs :: "(u8 list \<times> u8 list) list \<Rightarrow> (u8 list \<times> u8 list) list \<Rightarrow> u8 list \<Rightarrow> u8 list" where
  "build_kfs kxe_files kdm_files drivers_list = pack_sources (kfs_sources kxe_files kdm_files drivers_list)"

section \<open>Reading back\<close>

lemma get_range_mid: "a = length A \<Longrightarrow> b = a + length B \<Longrightarrow> get_range (A @ B @ C) a b = Some B"
  by (simp add: get_range_def)

lemma parse_build_kxe:
  assumes "length code + 36 < 2 ^ 64"
  shows "parse_kxe (build_kxe code entry flags) = Some \<lparr>k_entry = USER_BASE + entry, k_code = code, k_flags = flags\<rparr>"
proof -
  let ?img = "build_kxe code entry flags"
  have split: "take (length B) (drop (length A) (A @ B @ C)) = B" for A B C :: "u8 list" by simp
  let ?e = "to_le 8 (unat entry)" and ?o = "to_le 8 36" and ?n = "to_le 8 (length code)" and ?f = "to_le 4 (unat flags)"
  have "take 4 ?img = KXE_MAGIC" by (simp add: build_kxe_def KXE_MAGIC_def)
  moreover have "take 8 (drop 4 ?img) = ?e" using split[of ?e KXE_MAGIC] by (simp add: build_kxe_def KXE_MAGIC_def)
  moreover have "take 8 (drop 12 ?img) = ?o" using split[of ?o "KXE_MAGIC @ ?e"] by (simp add: build_kxe_def KXE_MAGIC_def)
  moreover have "take 8 (drop 20 ?img) = ?n" using split[of ?n "KXE_MAGIC @ ?e @ ?o"] by (simp add: build_kxe_def KXE_MAGIC_def)
  moreover have "take 4 (drop 28 ?img) = ?f" using split[of ?f "KXE_MAGIC @ ?e @ ?o @ ?n"] by (simp add: build_kxe_def KXE_MAGIC_def)
  moreover have "drop 36 ?img = code" by (simp add: build_kxe_def KXE_MAGIC_def)
  moreover have "length ?img = length code + 36" by (simp add: build_kxe_def KXE_MAGIC_def)
  moreover have "unat entry < 2 ^ 64" "unat flags < 2 ^ 32" using unsigned_less[of entry] unsigned_less[of flags] by simp_all
  ultimately show ?thesis using assms by (simp add: parse_kxe_def read_kxe_header_def KXE_HEADER_SIZE_def Let_def)
qed

text \<open>The fields of a table record, read at its place in any image that contains it.\<close>

definition recorded :: "u8 list \<Rightarrow> nat \<Rightarrow> kfs_entry \<Rightarrow> nat \<Rightarrow> nat \<Rightarrow> bool" where
  "recorded img i e path_offset data_offset \<longleftrightarrow>
     (\<exists>P Q. img = P @ entry_bytes e path_offset data_offset @ Q \<and> length P = HEADER_SIZE + i * ENTRY_SIZE)"

definition data_field :: "kfs_entry \<Rightarrow> nat \<Rightarrow> nat" where
  "data_field e d = (if e_flags e AND FLAG_FILE \<noteq> 0 then d else 0)"

lemma length_entry_bytes: "length (entry_bytes e po d) = ENTRY_SIZE"
  by (simp add: entry_bytes_def ENTRY_SIZE_def)

lemma entry_bytes_fields:
  "entry_bytes e po d =
     to_le 2 (length (e_path e)) @ to_le 2 po @ to_le 8 (data_field e d) @ to_le 8 (length (packed_data e))
     @ to_le 4 (unat (e_flags e)) @ to_le 4 0 @ to_le 4 0"
  by (simp add: entry_bytes_def data_field_def packed_data_def)

lemma recorded_fields:
  assumes "recorded img i e po d" and base: "base = HEADER_SIZE + i * ENTRY_SIZE"
  shows "fs_read_u16 img base = Some (length (e_path e) mod 2 ^ 16)"
    and "fs_read_u16 img (base + 2) = Some (po mod 2 ^ 16)"
    and "fs_read_u64 img (base + 4) = Some (data_field e d mod 2 ^ 64)"
    and "fs_read_u64 img (base + 12) = Some (length (packed_data e) mod 2 ^ 64)"
    and "fs_read_u32 img (base + 20) = Some (unat (e_flags e))"
proof -
  obtain P Q where img: "img = P @ entry_bytes e po d @ Q" and P: "length P = base"
    using assms unfolding recorded_def by auto
  note rd = img entry_bytes_fields fs_read_u16_def fs_read_u32_def fs_read_u64_def
  let ?a = "to_le 2 (length (e_path e))" and ?b = "to_le 2 po" and ?c = "to_le 8 (data_field e d)"
    and ?d = "to_le 8 (length (packed_data e))" and ?f = "to_le 4 (unat (e_flags e))" and ?z = "to_le 4 0 @ to_le 4 0 @ Q"
  show "fs_read_u16 img base = Some (length (e_path e) mod 2 ^ 16)"
    using get_range_mid[of base P "base + 2" ?a "?b @ ?c @ ?d @ ?f @ ?z"] P by (simp add: rd)
  show "fs_read_u16 img (base + 2) = Some (po mod 2 ^ 16)"
    using get_range_mid[of "base + 2" "P @ ?a" "base + 2 + 2" ?b "?c @ ?d @ ?f @ ?z"] P by (simp add: rd)
  show "fs_read_u64 img (base + 4) = Some (data_field e d mod 2 ^ 64)"
    using get_range_mid[of "base + 4" "P @ ?a @ ?b" "base + 4 + 8" ?c "?d @ ?f @ ?z"] P by (simp add: rd)
  show "fs_read_u64 img (base + 12) = Some (length (packed_data e) mod 2 ^ 64)"
    using get_range_mid[of "base + 12" "P @ ?a @ ?b @ ?c" "base + 12 + 8" ?d "?f @ ?z"] P by (simp add: rd)
  have "unat (e_flags e) < 2 ^ 32" using unsigned_less[of "e_flags e"] by simp
  then show "fs_read_u32 img (base + 20) = Some (unat (e_flags e))"
    using get_range_mid[of "base + 20" "P @ ?a @ ?b @ ?c @ ?d" "base + 20 + 4" ?f ?z] P by (simp add: rd)
qed

lemma init_entry_recorded:
  assumes "recorded img i e po d" "get_range img (ps + po) (ps + po + length (e_path e)) = Some (e_path e)"
    and "length (e_path e) < 2 ^ 16" "po < 2 ^ 16" "data_field e d < 2 ^ 64" "length (packed_data e) < 2 ^ 64"
    and "utf8_valid (e_path e)" "valid_path (e_path e)"
  shows "init_entry img ps i nodes = add_entry img (e_path e) (data_field e d) (length (packed_data e)) (e_flags e) nodes"
  using recorded_fields[OF assms(1) refl] assms(2-)
  by (simp add: init_entry_def Let_def validate_path_iff)

section \<open>The layout of a packed image\<close>

definition path_area :: "kfs_entry list \<Rightarrow> u8 list" where
  "path_area sources = concat (map e_path sources)"

definition data_area :: "kfs_entry list \<Rightarrow> u8 list" where
  "data_area sources = concat (map packed_data sources)"

lemma area_simps [simp]:
  "path_area [] = []" "path_area (e # es) = e_path e @ path_area es" "path_area (ds @ es) = path_area ds @ path_area es"
  "data_area [] = []" "data_area (e # es) = packed_data e @ data_area es" "data_area (ds @ es) = data_area ds @ data_area es"
  by (simp_all add: path_area_def data_area_def)

lemma length_table: "length (table_bytes es po d) = ENTRY_SIZE * length es"
  by (induction es arbitrary: po d) (simp_all add: length_entry_bytes)

lemma table_append:
  "table_bytes (ds @ es) po d = table_bytes ds po d @ table_bytes es (po + length (path_area ds)) (d + length (data_area ds))"
  by (induction ds arbitrary: po d) (simp_all add: add.assoc)

definition kfs_head :: "nat \<Rightarrow> u8 list" where
  "kfs_head n = KFS_MAGIC @ to_le 4 KFS_VERSION @ to_le 4 n @ replicate 16 0"

definition data_start :: "kfs_entry list \<Rightarrow> nat" where
  "data_start sources = HEADER_SIZE + ENTRY_SIZE * length sources + length (path_area sources)"

lemma length_kfs_head: "length (kfs_head n) = HEADER_SIZE"
  by (simp add: kfs_head_def KFS_MAGIC_def HEADER_SIZE_def)

lemma pack_layout:
  "pack_sources sources =
     kfs_head (length sources) @ table_bytes sources 0 (data_start sources) @ path_area sources @ data_area sources"
  by (simp add: pack_sources_def kfs_head_def data_start_def path_area_def data_area_def)

lemma pack_recorded:
  "recorded (pack_sources (ds @ e # es)) (length ds) e (length (path_area ds))
     (data_start (ds @ e # es) + length (data_area ds))"
  unfolding recorded_def pack_layout table_append
  by (rule exI[of _ "kfs_head (length (ds @ e # es)) @ table_bytes ds 0 (data_start (ds @ e # es))"])
    (simp add: length_kfs_head length_table)

lemma pack_path:
  assumes "ps = HEADER_SIZE + length (ds @ e # es) * ENTRY_SIZE"
  shows "get_range (pack_sources (ds @ e # es)) (ps + length (path_area ds)) (ps + length (path_area ds) + length (e_path e))
           = Some (e_path e)"
proof -
  let ?s = "ds @ e # es"
  have "pack_sources ?s = (kfs_head (length ?s) @ table_bytes ?s 0 (data_start ?s) @ path_area ds)
          @ e_path e @ path_area es @ data_area ?s" by (simp add: pack_layout)
  then show ?thesis using assms by (simp only:) (rule get_range_mid, simp_all add: length_kfs_head length_table)
qed

lemma pack_data:
  assumes "d = data_start (ds @ e # es) + length (data_area ds)"
  shows "get_range (pack_sources (ds @ e # es)) d (d + length (packed_data e)) = Some (packed_data e)"
proof -
  let ?s = "ds @ e # es"
  have "pack_sources ?s = (kfs_head (length ?s) @ table_bytes ?s 0 (data_start ?s) @ path_area ?s @ data_area ds)
          @ packed_data e @ data_area es" by (simp add: pack_layout)
  then show ?thesis
    using assms by (simp only:) (rule get_range_mid, simp_all add: length_kfs_head length_table data_start_def)
qed

section \<open>Unpacking a packed image\<close>

definition node_of :: "kfs_entry \<Rightarrow> node" where
  "node_of e = \<lparr>n_path = e_path e, is_dir = (e_flags e = FLAG_DIR), n_data = packed_data e\<rparr>"

definition unpacked :: "kfs_entry \<Rightarrow> fs_slot" where
  "unpacked e = \<lparr>generation = 0, s_node = Some (node_of e)\<rparr>"

definition placed :: "(u8 list \<rightharpoonup> node) \<Rightarrow> kfs_entry list \<Rightarrow> (u8 list \<rightharpoonup> node)" where
  "placed m es = foldl (\<lambda>m e. m(e_path e \<mapsto> node_of e)) m es"

text \<open>The list can be unpacked over a map of paths: each path is valid and fresh, its parent a directory.\<close>

primrec unpackable :: "(u8 list \<rightharpoonup> node) \<Rightarrow> kfs_entry list \<Rightarrow> bool" where
  "unpackable m [] = True"
| "unpackable m (e # es) =
     (utf8_valid (e_path e) \<and> valid_path (e_path e) \<and> m (e_path e) = None
      \<and> (\<exists>d. m (parent_of (e_path e)) = Some d \<and> is_dir d) \<and> (e_flags e = FLAG_FILE \<or> e_flags e = FLAG_DIR)
      \<and> unpackable (m(e_path e \<mapsto> node_of e)) es)"

lemma placed_simps [simp]:
  "placed m [] = m" "placed m (e # es) = placed (m(e_path e \<mapsto> node_of e)) es" "placed m (ds @ es) = placed (placed m ds) es"
  by (simp_all add: placed_def)

lemma unpackable_append: "unpackable m (ds @ es) \<longleftrightarrow> unpackable m ds \<and> unpackable (placed m ds) es"
  by (induction ds arbitrary: m) auto

lemma placed_other: "p \<notin> e_path ` set es \<Longrightarrow> placed m es p = m p"
  by (induction es arbitrary: m) auto

lemma unpackable_keep: "unpackable m es \<Longrightarrow> m p = Some n \<Longrightarrow> placed m es p = Some n"
proof (induction es arbitrary: m)
  case (Cons e es)
  then have "(m(e_path e \<mapsto> node_of e)) p = Some n" by auto
  with Cons show ?case by (simp del: fun_upd_apply)
qed simp

lemma unpackable_placed: "unpackable m es \<Longrightarrow> e \<in> set es \<Longrightarrow> placed m es (e_path e) = Some (node_of e)"
  by (induction es arbitrary: m) (auto intro: unpackable_keep)

lemma ensure_parents_tree:
  assumes "fs_tree nodes"
  shows "file_at nodes (parent_of p) = Some d \<Longrightarrow> ensure_parents p nodes = nodes"
  using assms
proof (induction p nodes arbitrary: d rule: ensure_parents.induct)
  case (1 p nodes)
  show ?case
  proof (cases "parent_of p = [SLASH]")
    case True
    then show ?thesis by (simp add: ensure_parents.simps)
  next
    case False
    obtain d' where "file_at nodes (parent_of (parent_of p)) = Some d'" using fs_treeD(4)[OF 1(3,2) False] by blast
    from 1(1)[OF refl False this 1(3)] show ?thesis
      using 1(2) False find_node_None[of nodes "parent_of p"] by (simp add: ensure_parents.simps[of p] Let_def)
  qed
qed

lemma unpacked_tree:
  assumes "fs_tree nodes" "file_at nodes (e_path e) = None" "valid_path (e_path e)"
    "file_at nodes (parent_of (e_path e)) = Some d" "is_dir d"
  shows "file_at (nodes @ [unpacked e]) = (file_at nodes)(e_path e \<mapsto> node_of e)" "fs_tree (nodes @ [unpacked e])"
proof -
  have n: "n_path (node_of e) = e_path e" by (simp add: node_of_def)
  note pl = place_node(2)[OF fs_treeD(1)[OF assms(1)], of "node_of e", unfolded n, OF assms(2) refl, of 0, folded unpacked_def]
  show "file_at (nodes @ [unpacked e]) = (file_at nodes)(e_path e \<mapsto> node_of e)" using pl by blast
  show "fs_tree (nodes @ [unpacked e])" using pl fs_tree_added[OF assms(1) _ _ assms(2-5)] by blast
qed

lemma unpackable_tree:
  "fs_tree nodes \<Longrightarrow> file_at nodes = m \<Longrightarrow> unpackable m es \<Longrightarrow>
     fs_tree (nodes @ map unpacked es) \<and> file_at (nodes @ map unpacked es) = placed m es"
proof (induction es arbitrary: nodes m)
  case (Cons e es)
  obtain d where d: "file_at nodes (parent_of (e_path e)) = Some d" "is_dir d" using Cons.prems(2,3) by auto
  have "file_at nodes (e_path e) = None" "valid_path (e_path e)" using Cons.prems(2,3) by simp_all
  note t = unpacked_tree[OF Cons.prems(1) this d, unfolded Cons.prems(2)]
  show ?case using Cons.IH[OF t(2) t(1)] Cons.prems(3) by (simp del: fun_upd_apply)
qed simp

text \<open>The image fits the widths of its fields.\<close>

definition fits :: "kfs_entry list \<Rightarrow> bool" where
  "fits sources \<longleftrightarrow> length sources < 2 ^ 32 \<and> length (path_area sources) < 2 ^ 16 \<and> length (pack_sources sources) < 2 ^ 64"

lemma fits_entry:
  assumes "fits (ds @ e # es)"
  shows "length (e_path e) < 2 ^ 16" "length (path_area ds) < 2 ^ 16"
    "data_start (ds @ e # es) + length (data_area ds) + length (packed_data e) < 2 ^ 64"
  using assms by (simp_all add: fits_def pack_layout length_kfs_head length_table data_start_def)

lemma init_entry_packed:
  assumes "fits (ds @ e # es)" "utf8_valid (e_path e)" "valid_path (e_path e)"
    and "ps = HEADER_SIZE + length (ds @ e # es) * ENTRY_SIZE"
    and "d = data_start (ds @ e # es) + length (data_area ds)"
  shows "init_entry (pack_sources (ds @ e # es)) ps (length ds) nodes =
     add_entry (pack_sources (ds @ e # es)) (e_path e) (data_field e d) (length (packed_data e)) (e_flags e) nodes"
  using fits_entry[OF assms(1)] assms(2,3,5) pack_path[OF assms(4)]
  by (intro init_entry_recorded[OF pack_recorded[of ds e es, folded assms(5)]]) (auto simp: data_field_def)

lemma add_entry_packed:
  assumes "fits (ds @ e # es)" "fs_tree nodes" "unpackable (file_at nodes) (e # es)"
    and d: "d = data_start (ds @ e # es) + length (data_area ds)"
  shows "add_entry (pack_sources (ds @ e # es)) (e_path e) (data_field e d) (length (packed_data e)) (e_flags e) nodes
           = (Inr (), nodes @ [unpacked e])"
proof -
  obtain q where "file_at nodes (parent_of (e_path e)) = Some q" using assms(3) by auto
  then have "ensure_parents (e_path e) nodes = nodes" by (rule ensure_parents_tree[OF assms(2)])
  moreover have "find_node nodes (e_path e) = None" using assms(3) by (simp add: find_node_None)
  ultimately show ?thesis
    using pack_data[OF d] fits_entry(3)[OF assms(1)] assms(3) d
    by (auto simp: add_entry_def data_field_def packed_data_def unpacked_def node_of_def new_node_def FLAG_FILE_def FLAG_DIR_def)
qed

lemma init_entries_packed:
  assumes "fits (ds @ es)" "fs_tree nodes" "file_at nodes = m" "unpackable m es" "ps = HEADER_SIZE + length (ds @ es) * ENTRY_SIZE"
  shows "init_entries (length es) (pack_sources (ds @ es)) ps (length ds) nodes = (Inr (), nodes @ map unpacked es)"
  using assms
proof (induction es arbitrary: ds nodes m)
  case (Cons e es)
  note u = Cons.prems(4)[folded Cons.prems(3)]
  have "init_entry (pack_sources (ds @ e # es)) ps (length ds) nodes = (Inr (), nodes @ [unpacked e])"
    using init_entry_packed[OF Cons.prems(1) _ _ Cons.prems(5) refl] add_entry_packed[OF Cons.prems(1,2) u refl] u by simp
  moreover have "unpackable m [e]" using Cons.prems(4) by simp
  note t = unpackable_tree[OF Cons.prems(2,3) this]
  have "init_entries (length es) (pack_sources ((ds @ [e]) @ es)) ps (length (ds @ [e])) (nodes @ map unpacked [e])
      = (Inr (), (nodes @ map unpacked [e]) @ map unpacked es)"
    using Cons.prems by (intro Cons.IH[OF _ conjunct1[OF t] conjunct2[OF t]]) (simp_all del: fun_upd_apply)
  ultimately show ?case by simp
qed simp

abbreviation root_table :: "fs_slot list" where
  "root_table \<equiv> [new_node [SLASH] True []]"

lemma root_tree: "fs_tree root_table"
  using valid_root by (auto simp: fs_tree_def paths_distinct_def file_at_def new_node_def)

lemma init_packed:
  assumes "fits (dir_source [SLASH] # es)" "unpackable (file_at root_table) es"
  shows "vfs_init (pack_sources (dir_source [SLASH] # es)) ns = (Inr (), root_table @ map unpacked es)"
proof -
  let ?r = "dir_source [SLASH]"
  let ?img = "pack_sources (?r # es)" and ?ps = "HEADER_SIZE + length (?r # es) * ENTRY_SIZE"
  have img: "?img = KFS_MAGIC @ to_le 4 KFS_VERSION @ to_le 4 (length (?r # es)) @ replicate 16 0
      @ table_bytes (?r # es) 0 (data_start (?r # es)) @ path_area (?r # es) @ data_area (?r # es)"
    unfolding pack_layout kfs_head_def by simp
  have n: "length (?r # es) < 2 ^ 32" using assms(1) unfolding fits_def by blast
  have "fs_read_u32 ?img 4 = Some KFS_VERSION"
    unfolding img fs_read_u32_def using get_range_mid[of 4 KFS_MAGIC 8 "to_le 4 KFS_VERSION"]
    by (simp add: KFS_MAGIC_def KFS_VERSION_def)
  moreover have "fs_read_u32 ?img 8 = Some (length (?r # es))"
    unfolding img fs_read_u32_def using get_range_mid[of 8 "KFS_MAGIC @ to_le 4 KFS_VERSION" 12 "to_le 4 (length (?r # es))"] n
    by (simp add: KFS_MAGIC_def)
  moreover have "take 4 ?img = KFS_MAGIC" unfolding img by (simp add: KFS_MAGIC_def)
  moreover have "HEADER_SIZE \<le> length ?img \<and> ?ps \<le> length ?img"
    by (simp add: pack_layout length_kfs_head length_table del: table_bytes.simps)
  ultimately have init: "vfs_init ?img ns = init_entries (Suc (length es)) ?img ?ps 0 root_table"
    by (simp add: vfs_init_def Let_def)
  have root: "e_path ?r = [SLASH]" "utf8_valid [SLASH]" by (simp_all add: dir_source_def)
  have "find_node root_table [SLASH] \<noteq> None" "ensure_parents [SLASH] root_table = root_table"
    by (simp_all add: find_node_def has_path_def new_node_def ensure_parents.simps parent_of_def rfind_def)
  then have "init_entry ?img ?ps 0 root_table = (Inr (), root_table)"
    using init_entry_packed[of "[]" ?r es ?ps, OF _ _ _ _ refl] assms(1) root valid_root
    by (simp add: add_entry_def)
  then show ?thesis using init init_entries_packed[of "[?r]" es root_table, OF _ root_tree refl] assms by simp
qed

section \<open>The image the build script makes\<close>

lemma utf8_valid_append: "utf8_valid xs \<Longrightarrow> utf8_valid ys \<Longrightarrow> utf8_valid (xs @ ys)"
  by (induction xs rule: utf8_valid.induct) (auto simp: nth_append split: if_splits)

lemma nth_two_slashes:
  assumes "SLASH \<notin> set a" "SLASH \<notin> set b" "i < length (SLASH # a @ SLASH # b)" "(SLASH # a @ SLASH # b) ! i = SLASH"
  shows "i = 0 \<or> i = Suc (length a)"
proof (rule ccontr)
  assume n: "\<not> ?thesis"
  then obtain j where j: "i = Suc j" by (cases i) auto
  consider "j < length a" | "j > length a" using n j by fastforce
  then show False
  proof cases
    case 1
    then show ?thesis using assms(1,4) j nth_mem[of j a] by (simp add: nth_append)
  next
    case 2
    then have "(a @ SLASH # b) ! j = b ! (j - Suc (length a))" by (simp add: nth_append nth_Cons')
    moreover have "j - Suc (length a) < length b" using assms(3) j 2 by simp
    ultimately show ?thesis using assms(2,4) j nth_mem[of "j - Suc (length a)" b] by simp
  qed
qed

lemma contains_nth:
  assumes "contains xs pat" "j < length pat"
  obtains i where "i + length pat \<le> length xs" "\<And>j. j < length pat \<Longrightarrow> xs ! (i + j) = pat ! j"
proof -
  obtain i where i: "take (length pat) (drop i xs) = pat" using assms(1) by (auto simp: contains_def list_ex_iff)
  then have "length pat \<le> length xs - i" by (metis length_drop length_take min.cobounded1)
  then have le: "i + length pat \<le> length xs" using assms(2) by simp
  moreover have "xs ! (i + j) = pat ! j" if "j < length pat" for j
  proof -
    have "pat ! j = take (length pat) (drop i xs) ! j" by (simp only: i)
    then show ?thesis using that le by simp
  qed
  ultimately show ?thesis by (rule that)
qed

lemma valid_two:
  assumes a: "SLASH \<notin> set a" "2 < length a" and b: "SLASH \<notin> set b" "b \<noteq> []"
  shows "valid_path (SLASH # a @ SLASH # b)"
proof -
  let ?p = "SLASH # a @ SLASH # b"
  have no: "\<not> contains ?p pat" if pat: "pat ! 0 = SLASH" "pat ! k = SLASH" "0 < k" "k < length pat" "k < 4" for pat k
  proof
    assume "contains ?p pat"
    then obtain i where i: "i + length pat \<le> length ?p" "\<And>j. j < length pat \<Longrightarrow> ?p ! (i + j) = pat ! j"
      using contains_nth[of ?p pat 0] pat(4) by (metis less_nat_zero_code not_gr_zero)
    have "0 < length pat" using pat(4) by (cases pat) simp_all
    then have "?p ! i = SLASH" "?p ! (i + k) = SLASH" using i(2)[of 0] i(2)[OF pat(4)] pat(1,2) by simp_all
    moreover have "i < length ?p" "i + k < length ?p" using i(1) pat(3,4) by simp_all
    ultimately have "i = 0 \<or> i = Suc (length a)" "i + k = 0 \<or> i + k = Suc (length a)"
      using nth_two_slashes[OF a(1) b(1)] by blast+
    then show False using pat(3,5) a(2) by auto
  qed
  have "\<not> contains ?p [SLASH, SLASH]" by (rule no[of _ 1]) simp_all
  moreover have "\<not> contains ?p [SLASH, DOT, SLASH]" by (rule no[of _ 2]) simp_all
  moreover have "\<not> contains ?p [SLASH, DOT, DOT, SLASH]" by (rule no[of _ 3]) (simp_all add: numeral_3_eq_3)
  moreover have "last ?p = last b" "last b \<in> set b" using b(2) by simp_all
  then have "last ?p \<noteq> SLASH" using b(1) by metis
  ultimately show ?thesis by (simp add: valid_path_def validate_path_def)
qed

lemma rfind_last: "c \<notin> set b \<Longrightarrow> rfind c (a @ c # b) = Some (length a)"
proof -
  assume c: "c \<notin> set b"
  obtain i where i: "rfind c (a @ c # b) = Some i" using rfind_None[of c "a @ c # b"] by auto
  note r = rfind_Some[OF i]
  have "\<not> i < length a" using r(3) by (auto simp: Suc_le_eq)
  moreover have "\<not> i > length a"
  proof
    assume "i > length a"
    then have "(a @ c # b) ! i = b ! (i - Suc (length a))" "i - Suc (length a) < length b"
      using r(1) by (auto simp: nth_append nth_Cons')
    then show False using r(2) c nth_mem by metis
  qed
  ultimately show ?thesis using i by simp
qed

lemma parent_two: "SLASH \<notin> set b \<Longrightarrow> parent_of (SLASH # a @ SLASH # b) = SLASH # a"
  using rfind_last[of SLASH b "SLASH # a"] by (simp add: parent_of_def)

text \<open>The names of one directory's files: UTF-8, without a slash, and different.\<close>

definition well_named :: "(u8 list \<times> 'a) list \<Rightarrow> bool" where
  "well_named files \<longleftrightarrow> distinct (map fst files) \<and> (\<forall>f \<in> set files. utf8_valid (fst f) \<and> SLASH \<notin> set (fst f))"

definition dir_file :: "u8 list \<Rightarrow> u8 list \<Rightarrow> u8 list \<times> u8 list \<Rightarrow> kfs_entry" where
  "dir_file d ext f = file_source (SLASH # d @ SLASH # fst f @ ext) (snd f)"

lemma e_path_dir_file [simp]: "e_path (dir_file d ext f) = SLASH # d @ SLASH # fst f @ ext"
  by (simp add: dir_file_def file_source_def)

lemma unpackable_dir_files:
  assumes "well_named files" and d: "SLASH \<notin> set d" "2 < length d" "utf8_valid d" and ext: "SLASH \<notin> set ext" "ext \<noteq> []" "utf8_valid ext"
  shows "m (SLASH # d) = Some n \<Longrightarrow> is_dir n \<Longrightarrow> \<forall>f \<in> set files. m (SLASH # d @ SLASH # fst f @ ext) = None \<Longrightarrow>
    unpackable m (map (dir_file d ext) files)"
  using assms(1)
proof (induction files arbitrary: m)
  case (Cons f files)
  have f: "utf8_valid (fst f)" "SLASH \<notin> set (fst f)" using Cons.prems(4) by (simp_all add: well_named_def)
  let ?p = "SLASH # d @ SLASH # fst f @ ext" and ?e = "dir_file d ext f"
  have "utf8_valid ?p" using utf8_valid_append[OF d(3), of "SLASH # fst f @ ext"] utf8_valid_append[OF f(1) ext(3)] by simp
  moreover have "valid_path ?p" by (rule valid_two) (use d f ext in simp_all)
  moreover have "parent_of ?p = SLASH # d" using parent_two[of "fst f @ ext" d] f ext by simp
  moreover have "unpackable (m(?p \<mapsto> node_of ?e)) (map (dir_file d ext) files)"
    using Cons.prems by (intro Cons.IH) (auto simp: well_named_def image_iff)
  moreover have "e_flags ?e = FLAG_FILE" by (simp add: dir_file_def file_source_def)
  ultimately show ?case using Cons.prems(1-3) by simp
qed simp

lemma kfs_sources_alt:
  "kfs_sources kxe_files kdm_files drivers_list =
     dir_source [SLASH] # [dir_source (SLASH # bin_dir)] @ map (dir_file bin_dir dot_kxe) kxe_files
     @ [dir_source (SLASH # drivers_dir)] @ map (dir_file drivers_dir dot_kdm) kdm_files
     @ (if drivers_list \<noteq> [] then map (dir_file drivers_dir dot_list) [(drivers_dir, drivers_list)] else [])"
  by (simp add: kfs_sources_def dir_file_def kxe_path_def kdm_path_def list_path_def case_prod_beta' fun_eq_iff)

lemma dir_source_simps [simp]:
  "e_path (dir_source p) = p" "e_flags (dir_source p) = FLAG_DIR"
  "node_of (dir_source p) = \<lparr>n_path = p, is_dir = True, n_data = []\<rparr>"
  by (simp_all add: dir_source_def node_of_def packed_data_def)

lemma root_file_at: "file_at root_table p = (if p = [SLASH] then Some \<lparr>n_path = [SLASH], is_dir = True, n_data = []\<rparr> else None)"
  by (auto simp: file_at_def new_node_def)

lemma top_dirs:
  assumes "d = bin_dir \<or> d = drivers_dir"
  shows "utf8_valid (SLASH # d)" "valid_path (SLASH # d)" "parent_of (SLASH # d) = [SLASH]"
proof -
  have "validate_path (SLASH # bin_dir) = Inr ()" "validate_path (SLASH # drivers_dir) = Inr ()" by code_simp+
  then show "valid_path (SLASH # d)" using assms by (auto simp: valid_path_def)
  show "utf8_valid (SLASH # d)" "parent_of (SLASH # d) = [SLASH]" using assms by (auto simp: parent_of_def rfind_def)
qed

lemma unpackable_kfs:
  assumes "well_named kxe_files" "well_named kdm_files"
  shows "unpackable (file_at root_table) (tl (kfs_sources kxe_files kdm_files drivers_list))"
proof -
  let ?bin = "dir_source (SLASH # bin_dir)" and ?drv = "dir_source (SLASH # drivers_dir)"
  let ?kxe = "map (dir_file bin_dir dot_kxe) kxe_files" and ?kdm = "map (dir_file drivers_dir dot_kdm) kdm_files"
  let ?lst = "map (dir_file drivers_dir dot_list) [(drivers_dir, drivers_list)]"
  define m1 where "m1 = placed (file_at root_table) [?bin]"
  define m2 where "m2 = placed m1 ?kxe"
  define m3 where "m3 = placed m2 [?drv]"
  define m4 where "m4 = placed m3 ?kdm"
  have "unpackable (file_at root_table) [?bin]" using top_dirs[of bin_dir] by (simp add: root_file_at)
  moreover have "unpackable m1 ?kxe"
    unfolding m1_def using assms(1) by (intro unpackable_dir_files[where n = "node_of ?bin"]) (simp_all add: root_file_at)
  moreover have m2: "m2 p = m1 p" if "\<forall>q. p \<noteq> SLASH # bin_dir @ SLASH # q" for p
    unfolding m2_def using that by (intro placed_other) auto
  have "unpackable m2 [?drv]"
    using top_dirs[of drivers_dir] m2[of "[SLASH]"] m2[of "SLASH # drivers_dir"] by (simp add: m1_def root_file_at)
  moreover have "unpackable m3 ?kdm"
    unfolding m3_def using assms(2) by (intro unpackable_dir_files[where n = "node_of ?drv"]) (simp_all add: m2 m1_def root_file_at)
  moreover have m4: "m4 p = m3 p" if "\<forall>f \<in> set kdm_files. p \<noteq> SLASH # drivers_dir @ SLASH # fst f @ dot_kdm" for p
    unfolding m4_def using that by (intro placed_other) auto
  have "unpackable m4 ?lst"
  proof (rule unpackable_dir_files)
    have ends: "xs @ dot_list \<noteq> ys @ dot_kdm" for xs ys :: "u8 list"
      by (auto dest: arg_cong[of _ _ last])
    show "m4 (SLASH # drivers_dir) = Some \<lparr>n_path = SLASH # drivers_dir, is_dir = True, n_data = []\<rparr>"
      by (subst m4) (simp_all add: m3_def)
    have "m4 (SLASH # drivers_dir @ SLASH # drivers_dir @ dot_list) = None"
      using ends[of drivers_dir] by (subst m4) (simp_all add: m3_def m2 m1_def root_file_at)
    then show "\<forall>f \<in> set [(drivers_dir, drivers_list)]. m4 (SLASH # drivers_dir @ SLASH # fst f @ dot_list) = None" by simp
  qed (simp_all add: well_named_def)
  ultimately show ?thesis
    by (simp only: kfs_sources_alt list.sel unpackable_append flip: m1_def m2_def m3_def m4_def) (simp add: m1_def m2_def m3_def m4_def)
qed

lemma build_kfs_unpacks:
  assumes "well_named kxe_files" "well_named kdm_files" "fits (kfs_sources kxe_files kdm_files drivers_list)"
  obtains nodes where "vfs_init (build_kfs kxe_files kdm_files drivers_list) ns = (Inr (), nodes)" "fs_tree nodes"
    "\<And>e. e \<in> set (kfs_sources kxe_files kdm_files drivers_list) \<Longrightarrow> file_at nodes (e_path e) = Some (node_of e)"
proof
  let ?src = "kfs_sources kxe_files kdm_files drivers_list"
  have src: "?src = dir_source [SLASH] # tl ?src" by (simp add: kfs_sources_def)
  note u = unpackable_kfs[OF assms(1,2), of drivers_list]
  show "vfs_init (build_kfs kxe_files kdm_files drivers_list) ns = (Inr (), root_table @ map unpacked (tl ?src))"
    using init_packed[OF _ u, of ns] assms(3) src unfolding build_kfs_def by metis
  note t = unpackable_tree[OF root_tree refl u]
  show "fs_tree (root_table @ map unpacked (tl ?src))" using t by blast
  fix e assume "e \<in> set ?src"
  then consider "e = dir_source [SLASH]" | "e \<in> set (tl ?src)" using src by (metis set_ConsD)
  then show "file_at (root_table @ map unpacked (tl ?src)) (e_path e) = Some (node_of e)"
  proof cases
    case 1
    have "placed (file_at root_table) (tl ?src) [SLASH] = Some (node_of e)"
      by (rule unpackable_keep[OF u]) (simp add: root_file_at 1)
    then show ?thesis using t 1 by simp
  next
    case 2
    then show ?thesis using unpackable_placed[OF u 2] t by simp
  qed
qed

lemma file_read:
  assumes "fs_tree nodes" "file_at nodes p = Some (node_of (file_source p data))"
  shows "vfs_read_file p nodes = Inr data"
proof -
  obtain i where i: "find_node nodes p = Some i" "node_at nodes i = node_of (file_source p data)"
    using assms(2) by (auto simp: find_node_file_at)
  have "valid_path p" by (rule fs_treeD(3)[OF assms])
  then show ?thesis using i
    by (simp add: vfs_read_file_def validate_path_iff node_of_def file_source_def packed_data_def FLAG_FILE_def FLAG_DIR_def)
qed

section \<open>The round trip\<close>

text \<open>A program as the build has it before packing: name, code, entry offset and flags.\<close>

type_synonym program = "u8 list \<times> u8 list \<times> u64 \<times> u32"

definition packed_kxe :: "program \<Rightarrow> u8 list \<times> u8 list" where
  "packed_kxe p = (case p of (stem, code, entry, flags) \<Rightarrow> (stem, build_kxe code entry flags))"

definition loads_as :: "u8 list \<Rightarrow> fs_slot list \<Rightarrow> program \<Rightarrow> bool" where
  "loads_as path nodes p = (case p of (stem, code, entry, flags) \<Rightarrow>
     (case vfs_read_file path nodes of
        Inl e \<Rightarrow> False
      | Inr img \<Rightarrow> parse_kxe img = Some \<lparr>k_entry = USER_BASE + entry, k_code = code, k_flags = flags\<rparr>))"

text \<open>C6: The kernel unpacks the image the build script writes, without an error, into a tree in which
  every program and every driver is found under its path and parses back to exactly its code, entry point and
  flags, and the driver list is found with its bytes. The names must be valid and distinct, and the image must
  fit its fields; the 16-bit path offset asks for a sum of all path lengths below 65536.\<close>

theorem boot_image_roundtrip:
  assumes "well_named programs" and "well_named drivers"
    and "sources = kfs_sources (map packed_kxe programs) (map packed_kxe drivers) drivers_list" and "fits sources"
    and "\<forall>p \<in> set (programs @ drivers). length (fst (snd p)) + 36 < 2 ^ 64"
  shows "\<exists>nodes. vfs_init (build_kfs (map packed_kxe programs) (map packed_kxe drivers) drivers_list) old = (Inr (), nodes)
     \<and> fs_tree nodes
     \<and> (\<forall>p \<in> set programs. loads_as (kxe_path (fst p)) nodes p)
     \<and> (\<forall>p \<in> set drivers. loads_as (kdm_path (fst p)) nodes p)
     \<and> (drivers_list \<noteq> [] \<longrightarrow> vfs_read_file list_path nodes = Inr drivers_list)"
proof -
  have named: "well_named (map packed_kxe ps)" if "well_named ps" for ps :: "program list"
  proof -
    have "fst \<circ> packed_kxe = fst" by (auto simp: packed_kxe_def)
    then show ?thesis using that by (auto simp: well_named_def packed_kxe_def)
  qed
  obtain nodes where n: "vfs_init (build_kfs (map packed_kxe programs) (map packed_kxe drivers) drivers_list) old = (Inr (), nodes)"
    "fs_tree nodes" "\<And>e. e \<in> set sources \<Longrightarrow> file_at nodes (e_path e) = Some (node_of e)"
    using build_kfs_unpacks[OF named[OF assms(1)] named[OF assms(2)], of drivers_list old] assms(3,4) by blast
  have rd: "vfs_read_file p nodes = Inr data" if "file_source p data \<in> set sources" for p data
    using file_read[OF n(2)] n(3)[OF that] by (simp add: file_source_def)
  have ld: "loads_as path nodes p" if p: "p \<in> set (programs @ drivers)" and s: "file_source path (snd (packed_kxe p)) \<in> set sources" for p path
    using rd[OF s] parse_build_kxe[of "fst (snd p)"] bspec[OF assms(5) p]
    by (cases p) (simp add: loads_as_def packed_kxe_def)
  have fp: "fst (packed_kxe p) = fst p" for p by (simp add: packed_kxe_def split: prod.split)
  have "loads_as (kxe_path (fst p)) nodes p" if "p \<in> set programs" for p
    by (rule ld) (use that in \<open>auto simp: assms(3) kfs_sources_def case_prod_beta' fp intro!: disjI2 image_eqI\<close>)
  moreover have "loads_as (kdm_path (fst p)) nodes p" if "p \<in> set drivers" for p
    by (rule ld) (use that in \<open>auto simp: assms(3) kfs_sources_def case_prod_beta' fp intro!: disjI2 image_eqI\<close>)
  moreover have "vfs_read_file list_path nodes = Inr drivers_list" if "drivers_list \<noteq> []"
    by (rule rd) (use that in \<open>simp add: assms(3) kfs_sources_def\<close>)
  ultimately show ?thesis using n(1,2) by blast
qed

text \<open>A program \<open>/bin/a.kxe\<close> of three bytes, a driver \<open>/drivers/d.kdm\<close> and a driver list.\<close>

theorem boot_image_roundtrip_witness:
  "\<exists>nodes. vfs_init (build_kfs [([97], build_kxe [1, 2, 3] 0 0)] [([100], build_kxe [4] 0 1)] [100]) [] = (Inr (), nodes)
     \<and> loads_as (kxe_path [97]) nodes ([97], [1, 2, 3], 0, 0) \<and> loads_as (kdm_path [100]) nodes ([100], [4], 0, 1)
     \<and> vfs_read_file list_path nodes = Inr [100]"
proof -
  let ?p = "([97], [1, 2, 3], 0, 0) :: program" and ?d = "([100], [4], 0, 1) :: program"
  have pk: "map packed_kxe [?p] = [([97], build_kxe [1, 2, 3] 0 0)]" "map packed_kxe [?d] = [([100], build_kxe [4] 0 1)]"
    by (simp_all add: packed_kxe_def)
  have "fits (kfs_sources (map packed_kxe [?p]) (map packed_kxe [?d]) [100])"
    unfolding pk by (simp add: fits_def kfs_sources_def pack_layout length_kfs_head length_table path_area_def data_area_def
      packed_data_def dir_source_def file_source_def FLAG_FILE_def FLAG_DIR_def build_kxe_def KXE_MAGIC_def
      kxe_path_def kdm_path_def list_path_def HEADER_SIZE_def ENTRY_SIZE_def del: table_bytes.simps)
  from boot_image_roundtrip[OF _ _ refl this, of "[]"] show ?thesis unfolding pk by (simp add: well_named_def) blast
qed

end
