(* ===== verification/Keyboard.thy ===== *)
theory Keyboard
  imports Ipc
begin

text \<open>
  The keyboard driver (\<open>drivers/keyboard.rs\<close>): the decoding of scan codes with its modifier state, the
  delivery of a character to the process that has the focus, and the two ring buffers, of characters and of
  key events. The owner of the framebuffer (\<open>drivers/fb_owner.rs\<close>), which decides about the focus, is a
  field of the state. What the controller's ports return is an argument of \<open>keyboard_poll\<close>. Both rings are
  shown to be bounded first-in-first-out queues, through one interface.
\<close>

section \<open>State\<close>

definition BUF_SIZE :: nat where "BUF_SIZE = 1024"
definition EBUF_SIZE :: nat where "EBUF_SIZE = 512"

definition KEY_RELEASE :: u16 where "KEY_RELEASE = 0x100"
definition MOD_SHIFT :: u16 where "MOD_SHIFT = 0x200"
definition MOD_CTRL :: u16 where "MOD_CTRL = 0x400"
definition MOD_ALT :: u16 where "MOD_ALT = 0x800"

definition KEY_LEFT :: u16 where "KEY_LEFT = 0x80"
definition KEY_RIGHT :: u16 where "KEY_RIGHT = 0x81"
definition KEY_UP :: u16 where "KEY_UP = 0x82"
definition KEY_DOWN :: u16 where "KEY_DOWN = 0x83"
definition KEY_LSHIFT :: u16 where "KEY_LSHIFT = 0x84"
definition KEY_RSHIFT :: u16 where "KEY_RSHIFT = 0x85"
definition KEY_LCTRL :: u16 where "KEY_LCTRL = 0x86"
definition KEY_RCTRL :: u16 where "KEY_RCTRL = 0x87"
definition KEY_LALT :: u16 where "KEY_LALT = 0x88"
definition KEY_RALT :: u16 where "KEY_RALT = 0x89"
definition KEY_CAPS :: u16 where "KEY_CAPS = 0x8A"
definition KEY_ESC :: u16 where "KEY_ESC = 0x8B"
definition KEY_F1 :: u16 where "KEY_F1 = 0x90"

text \<open>A ring buffer: the array, the index to write and the index to read.\<close>

record 'a ring =
  r_buf :: "'a list"
  r_head :: nat
  r_tail :: nat

record kbd_state = ipc_state +
  BUF :: "u8 ring"
  EBUF :: "u16 ring"
  SHIFT :: bool
  CTRL :: bool
  ALT :: bool
  EXTENDED :: bool
  OWNER :: "u64 option"

section \<open>The rings\<close>

definition ring_push :: "nat \<Rightarrow> 'a \<Rightarrow> 'a ring \<Rightarrow> 'a ring" where
  "ring_push sz x r =
     (let next = (r_head r + 1) mod sz
      in if next \<noteq> r_tail r then r\<lparr>r_buf := (r_buf r)[r_head r := x], r_head := next\<rparr> else r)"

definition ring_pop :: "nat \<Rightarrow> 'a ring \<Rightarrow> 'a option \<times> 'a ring" where
  "ring_pop sz r =
     (if r_head r = r_tail r then (None, r)
      else (Some (r_buf r ! r_tail r), r\<lparr>r_tail := (r_tail r + 1) mod sz\<rparr>))"

definition ring_clear :: "'a ring \<Rightarrow> 'a ring" where
  "ring_clear r = r\<lparr>r_head := 0, r_tail := 0\<rparr>"

definition buffer_byte :: "u8 \<Rightarrow> 'a kbd_state_scheme \<Rightarrow> 'a kbd_state_scheme" where
  "buffer_byte ch s = s\<lparr>BUF := ring_push BUF_SIZE ch (BUF s)\<rparr>"

definition push_event :: "u16 \<Rightarrow> 'a kbd_state_scheme \<Rightarrow> 'a kbd_state_scheme" where
  "push_event ev s = (if OWNER s = None then s else s\<lparr>EBUF := ring_push EBUF_SIZE ev (EBUF s)\<rparr>)"

definition keyboard_flush :: "'a kbd_state_scheme \<Rightarrow> 'a kbd_state_scheme" where
  "keyboard_flush s = s\<lparr>BUF := ring_clear (BUF s), EBUF := ring_clear (EBUF s)\<rparr>"

definition get_event :: "'a kbd_state_scheme \<Rightarrow> u16 option \<times> 'a kbd_state_scheme" where
  "get_event s = (let (ev, r) = ring_pop EBUF_SIZE (EBUF s) in (ev, s\<lparr>EBUF := r\<rparr>))"

definition get_raw :: "'a kbd_state_scheme \<Rightarrow> u8 option \<times> 'a kbd_state_scheme" where
  "get_raw s = (let (ch, r) = ring_pop BUF_SIZE (BUF s) in (ch, s\<lparr>BUF := r\<rparr>))"

datatype key = Key_Char u8 | Key_Left | Key_Right

definition get_key :: "'a kbd_state_scheme \<Rightarrow> key option \<times> 'a kbd_state_scheme" where
  "get_key s =
     (let (ch, r) = ring_pop BUF_SIZE (BUF s)
      in (map_option (\<lambda>ch. if ch = 0x80 then Key_Left else if ch = 0x81 then Key_Right else Key_Char ch) ch,
          s\<lparr>BUF := r\<rparr>))"

definition get_char :: "'a kbd_state_scheme \<Rightarrow> u8 option \<times> 'a kbd_state_scheme" where
  "get_char s =
     (let (k, s') = get_key s
      in (case k of Some (Key_Char ch) \<Rightarrow> Some ch | _ \<Rightarrow> None, s'))"

section \<open>Delivery\<close>

text \<open>The process that a Ctrl-C interrupts, if it is not an ordinary character.\<close>

definition sigint_target :: "u8 \<Rightarrow> 'a kbd_state_scheme \<Rightarrow> u64 option" where
  "sigint_target ch s =
     (if ch = 0x03
      then (case OWNER s of
              Some own \<Rightarrow> if sigint_catches own s then Some own else None
            | None \<Rightarrow> foreground_pid s)
      else None)"

text \<open>The delivery of a character: to a waiting reader that has the focus, else into the buffer.\<close>

definition deliver_byte :: "u8 \<Rightarrow> 'a kbd_state_scheme \<Rightarrow> 'a kbd_state_scheme" where
  "deliver_byte ch s =
     (let (n, s') = (case OWNER s of
                       Some own \<Rightarrow> wakeup_key_waiter_for_pid own ch s
                     | None \<Rightarrow> wakeup_key_waiters ch s)
      in if n > 0 then s' else buffer_byte ch s')"

definition push_byte :: "u8 \<Rightarrow> 'a kbd_state_scheme \<Rightarrow> 'a kbd_state_scheme" where
  "push_byte ch s = (case sigint_target ch s of Some pid \<Rightarrow> send_sigint pid s | None \<Rightarrow> deliver_byte ch s)"

definition inject_keys :: "u8 list \<Rightarrow> 'a kbd_state_scheme \<Rightarrow> 'a kbd_state_scheme" where
  "inject_keys keys s = fold push_byte keys s"

definition key_mods :: "'a kbd_state_scheme \<Rightarrow> u16" where
  "key_mods s = (if SHIFT s then MOD_SHIFT else 0) OR (if CTRL s then MOD_CTRL else 0) OR (if ALT s then MOD_ALT else 0)"

definition emit_key :: "u16 \<Rightarrow> bool \<Rightarrow> 'a kbd_state_scheme \<Rightarrow> 'a kbd_state_scheme" where
  "emit_key code release s =
     (let ev = (code AND 0xFF) OR key_mods s
      in push_event (if release then ev OR KEY_RELEASE else ev) s)"

section \<open>Decoding\<close>

definition sc128 :: "u8 list \<Rightarrow> u8 list" where
  "sc128 xs = splice (replicate 128 0) 0 xs"

definition SCANCODE :: "u8 list" where
  "SCANCODE = sc128
     [0, 0, 49, 50, 51, 52, 53, 54, 55, 56, 57, 48, 45, 61, 8, 9,
      113, 119, 101, 114, 116, 121, 117, 105, 111, 112, 91, 93, 10, 0,
      97, 115, 100, 102, 103, 104, 106, 107, 108, 59, 39, 96, 0, 92,
      122, 120, 99, 118, 98, 110, 109, 44, 46, 47, 0, 32, 0, 0, 0, 0, 0,
      0, 0, 0, 0, 0, 0, 0, 0, 55, 56, 57, 45, 52, 53, 54, 43, 49, 50,
      51, 48, 46]"

definition SCANCODE_SHIFT :: "u8 list" where
  "SCANCODE_SHIFT = sc128
     [0, 0, 33, 64, 35, 36, 37, 94, 38, 42, 40, 41, 95, 43, 8, 9,
      81, 87, 69, 82, 84, 89, 85, 73, 79, 80, 123, 125, 10, 0,
      65, 83, 68, 70, 71, 72, 74, 75, 76, 58, 34, 126, 0, 124,
      90, 88, 67, 86, 66, 78, 77, 60, 62, 63, 0, 32, 0, 0, 0, 0, 0,
      0, 0, 0, 0, 0, 0, 0, 0, 55, 56, 57, 45, 52, 53, 54, 43, 49, 50,
      51, 48, 46]"

definition extended_code :: "u8 \<Rightarrow> u16" where
  "extended_code sc =
     (if sc = 0x4B then KEY_LEFT else if sc = 0x4D then KEY_RIGHT
      else if sc = 0x48 then KEY_UP else if sc = 0x50 then KEY_DOWN else 0)"

definition extended_key :: "u8 \<Rightarrow> bool \<Rightarrow> 'a kbd_state_scheme \<Rightarrow> 'a kbd_state_scheme" where
  "extended_key base release s =
     (if base = 0x1D then emit_key KEY_RCTRL release (s\<lparr>CTRL := \<not> release\<rparr>)
      else if base = 0x38 then emit_key KEY_RALT release (s\<lparr>ALT := \<not> release\<rparr>)
      else let code = extended_code base
           in if code \<noteq> 0 then emit_key code release (if release then s else push_byte (ucast code) s) else s)"

definition modifier_key :: "u8 \<Rightarrow> bool \<Rightarrow> 'a kbd_state_scheme \<Rightarrow> 'a kbd_state_scheme option" where
  "modifier_key base release s =
     (if base = 0x2A then Some (emit_key KEY_LSHIFT release (s\<lparr>SHIFT := \<not> release\<rparr>))
      else if base = 0x36 then Some (emit_key KEY_RSHIFT release (s\<lparr>SHIFT := \<not> release\<rparr>))
      else if base = 0x1D then Some (emit_key KEY_LCTRL release (s\<lparr>CTRL := \<not> release\<rparr>))
      else if base = 0x38 then Some (emit_key KEY_LALT release (s\<lparr>ALT := \<not> release\<rparr>))
      else if base = 0x3A then Some (emit_key KEY_CAPS release s)
      else if base = 0x01 then Some (emit_key KEY_ESC release s)
      else if 0x3B \<le> base \<and> base \<le> 0x44 then Some (emit_key (KEY_F1 + ucast (base - 0x3B)) release s)
      else if base = 0x57 then Some (emit_key (KEY_F1 + 10) release s)
      else if base = 0x58 then Some (emit_key (KEY_F1 + 11) release s)
      else None)"

definition plain_char :: "u8 \<Rightarrow> bool \<Rightarrow> u8" where
  "plain_char base shift =
     (if base = 0x39 then 32 else if shift then SCANCODE_SHIFT ! unat base else SCANCODE ! unat base)"

definition ctrl_char :: "u8 \<Rightarrow> u8" where
  "ctrl_char plain =
     (if plain \<ge> 97 \<and> plain \<le> 122 then plain - 97 + 1
      else if plain \<ge> 65 \<and> plain \<le> 90 then plain - 65 + 1 else 0)"

definition character_key :: "u8 \<Rightarrow> bool \<Rightarrow> 'a kbd_state_scheme \<Rightarrow> 'a kbd_state_scheme" where
  "character_key base release s =
     (let plain = plain_char base (SHIFT s)
      in if release then (if plain \<noteq> 0 then emit_key (ucast plain) True s else s)
         else if CTRL s
         then (let ctrl_ch = ctrl_char plain
               in if ctrl_ch \<noteq> 0 then emit_key (ucast ctrl_ch) False (push_byte ctrl_ch s) else s)
         else if plain \<noteq> 0 then emit_key (ucast plain) False (push_byte plain s) else s)"

definition handle_scancode :: "u8 \<Rightarrow> 'a kbd_state_scheme \<Rightarrow> 'a kbd_state_scheme" where
  "handle_scancode sc s =
     (if sc = 0xE0 then s\<lparr>EXTENDED := True\<rparr>
      else let release = (sc AND 0x80 \<noteq> 0); base = sc AND 0x7F
           in if EXTENDED s then extended_key base release (s\<lparr>EXTENDED := False\<rparr>)
              else case modifier_key base release s of
                     Some s' \<Rightarrow> s'
                   | None \<Rightarrow> character_key base release s)"

text \<open>
  The ports as the sequence of what they return: the status register and, when a keyboard byte is pending,
  the data register. A sequence that ends stands for a controller with nothing pending.
\<close>

fun poll_loop :: "nat \<Rightarrow> (u8 \<times> u8) list \<Rightarrow> 'a kbd_state_scheme \<Rightarrow> 'a kbd_state_scheme" where
  "poll_loop 0 inp s = s"
| "poll_loop (Suc iters) [] s = s"
| "poll_loop (Suc iters) ((status, sc) # inp) s =
     (if status AND 0x01 = 0 then s
      else if status AND 0x20 \<noteq> 0 then s
      else poll_loop iters inp (handle_scancode sc s))"

definition keyboard_poll :: "(u8 \<times> u8) list \<Rightarrow> 'a kbd_state_scheme \<Rightarrow> 'a kbd_state_scheme" where
  "keyboard_poll inp s = poll_loop 32 inp s"

definition keyboard_init :: "'a kbd_state_scheme \<Rightarrow> 'a kbd_state_scheme" where
  "keyboard_init s =
     s\<lparr>BUF := \<lparr>r_buf = replicate BUF_SIZE 0, r_head = 0, r_tail = 0\<rparr>,
       EBUF := \<lparr>r_buf = replicate EBUF_SIZE 0, r_head = 0, r_tail = 0\<rparr>,
       SHIFT := False, CTRL := False, ALT := False, EXTENDED := False\<rparr>"

text \<open>\<open>syscall/runtime.rs\<close> and \<open>syscall/device.rs\<close>: who may read the keyboard.\<close>

definition kbd_locked_out :: "'a kbd_state_scheme \<Rightarrow> bool" where
  "kbd_locked_out s =
     (let caller = (case current_user_pid s of Some pid \<Rightarrow> pid | None \<Rightarrow> 0)
      in case OWNER s of Some own \<Rightarrow> own \<noteq> caller | None \<Rightarrow> False)"


definition sys_keyboard_poll :: "'a kbd_state_scheme \<Rightarrow> u64 \<times> 'a kbd_state_scheme" where
  "sys_keyboard_poll s =
     (if kbd_locked_out s then (0, s)
      else let (ev, s') = get_event s in (case ev of Some e \<Rightarrow> ucast e | None \<Rightarrow> 0, s'))"

section \<open>Bounded queues\<close>

text \<open>Operations on a queue, what a queue of the given capacity answers, and a run of an implementation.\<close>

datatype 'x queue_op = Put 'x | Get

primrec queue_run :: "nat \<Rightarrow> 'x queue_op list \<Rightarrow> 'x list \<Rightarrow> 'x option list \<times> 'x list" where
  "queue_run cap [] q = ([], q)"
| "queue_run cap (x # ops) q =
     (case x of
        Put y \<Rightarrow> queue_run cap ops (if length q < cap then q @ [y] else q)
      | Get \<Rightarrow> (let (out, q') = queue_run cap ops (tl q) in ((if q = [] then None else Some (hd q)) # out, q')))"

primrec run_queue :: "('x \<Rightarrow> 's \<Rightarrow> 's) \<Rightarrow> ('s \<Rightarrow> 'x option \<times> 's) \<Rightarrow> 'x queue_op list \<Rightarrow> 's \<Rightarrow> 'x option list \<times> 's" where
  "run_queue put get [] s = ([], s)"
| "run_queue put get (x # ops) s =
     (case x of
        Put y \<Rightarrow> run_queue put get ops (put y s)
      | Get \<Rightarrow> (let (r, s1) = get s; (out, s') = run_queue put get ops s1 in (r # out, s')))"

text \<open>The interface: what a bounded queue promises of \<open>put\<close> and \<open>get\<close>, and what follows for every sequence.\<close>

locale bounded_fifo =
  fixes put :: "'x \<Rightarrow> 's \<Rightarrow> 's" and get :: "'s \<Rightarrow> 'x option \<times> 's"
    and content :: "'s \<Rightarrow> 'x list" and ok :: "'s \<Rightarrow> bool" and cap :: nat
  assumes put_ok: "ok s \<Longrightarrow> ok (put x s)"
    and put_content: "ok s \<Longrightarrow> content (put x s) = (if length (content s) < cap then content s @ [x] else content s)"
    and get_ok: "ok s \<Longrightarrow> ok (snd (get s))"
    and get_result: "ok s \<Longrightarrow> fst (get s) = (if content s = [] then None else Some (hd (content s)))"
    and get_content: "ok s \<Longrightarrow> content (snd (get s)) = tl (content s)"
begin

lemma run_refines:
  "ok s \<Longrightarrow> run_queue put get ops s = (out, s') \<Longrightarrow> queue_run cap ops (content s) = (out, content s') \<and> ok s'"
proof (induction ops arbitrary: s out)
  case (Cons x ops)
  show ?case
  proof (cases x)
    case (Put y)
    then have "run_queue put get ops (put y s) = (out, s')" using Cons.prems(2) by simp
    from Cons.IH[OF put_ok[OF Cons.prems(1)] this] show ?thesis using Put put_content[OF Cons.prems(1)] by simp
  next
    case Get
    obtain r s1 where g: "get s = (r, s1)" by fastforce
    obtain out1 where r: "run_queue put get ops s1 = (out1, s')" "out = r # out1"
      using Cons.prems(2) Get g by (auto split: prod.splits)
    have "ok s1" "content s1 = tl (content s)" "r = (if content s = [] then None else Some (hd (content s)))"
      using get_ok[OF Cons.prems(1)] get_content[OF Cons.prems(1)] get_result[OF Cons.prems(1)] g by simp_all
    then show ?thesis using Cons.IH[OF _ r(1)] Get r(2) by simp
  qed
qed simp

end

section \<open>A ring is a bounded queue\<close>

definition ring_ok :: "nat \<Rightarrow> 'a ring \<Rightarrow> bool" where
  "ring_ok sz r \<longleftrightarrow> 0 < sz \<and> length (r_buf r) = sz \<and> r_head r < sz \<and> r_tail r < sz"

definition ring_len :: "nat \<Rightarrow> 'a ring \<Rightarrow> nat" where
  "ring_len sz r = (if r_tail r \<le> r_head r then r_head r - r_tail r else r_head r + sz - r_tail r)"

definition ring_content :: "nat \<Rightarrow> 'a ring \<Rightarrow> 'a list" where
  "ring_content sz r = map (\<lambda>k. r_buf r ! ((r_tail r + k) mod sz)) [0 ..< ring_len sz r]"

lemma ring_len_less: "ring_ok sz r \<Longrightarrow> ring_len sz r < sz"
  by (auto simp: ring_ok_def ring_len_def)

lemma ring_len_head: "ring_ok sz r \<Longrightarrow> (r_tail r + ring_len sz r) mod sz = r_head r"
  by (auto simp: ring_ok_def ring_len_def)

lemma succ_mod: "h < sz \<Longrightarrow> Suc h mod sz = (if Suc h = sz then 0 else Suc h)"
  by (auto simp: mod_if)

lemma ring_full:
  assumes "ring_ok sz r"
  shows "(r_head r + 1) mod sz = r_tail r \<longleftrightarrow> \<not> ring_len sz r < sz - 1"
  using assms by (auto simp: ring_ok_def ring_len_def succ_mod)

lemma ring_push_ok: "ring_ok sz r \<Longrightarrow> ring_ok sz (ring_push sz x r)"
  by (simp add: ring_ok_def ring_push_def Let_def)

lemma ring_push_content:
  assumes ok: "ring_ok sz r"
  shows "ring_content sz (ring_push sz x r) =
     (if length (ring_content sz r) < sz - 1 then ring_content sz r @ [x] else ring_content sz r)"
proof (cases "ring_len sz r < sz - 1")
  case True
  let ?r = "r\<lparr>r_buf := (r_buf r)[r_head r := x], r_head := (r_head r + 1) mod sz\<rparr>" and ?n = "ring_len sz r"
  have push: "ring_push sz x r = ?r" using True ring_full[OF ok] by (simp add: ring_push_def Let_def)
  have len: "ring_len sz ?r = Suc ?n" using ok True by (auto simp: ring_ok_def ring_len_def succ_mod)
  have other: "(r_tail r + k) mod sz \<noteq> r_head r" if "k < ?n" for k
    using ok that ring_len_less[OF ok] by (auto simp: ring_ok_def ring_len_def mod_if split: if_splits)
  have "ring_content sz ?r = map (\<lambda>k. (r_buf r)[r_head r := x] ! ((r_tail r + k) mod sz)) [0 ..< Suc ?n]"
    unfolding ring_content_def len by simp
  also have "\<dots> = ring_content sz r @ [x]"
    using ring_len_head[OF ok] other[THEN not_sym] ok by (auto simp: ring_content_def ring_ok_def)
  finally show ?thesis using True push by (simp add: ring_content_def)
next
  case False
  then show ?thesis using ring_full[OF ok] by (simp add: ring_push_def ring_content_def Let_def)
qed

lemma ring_pop_spec:
  assumes ok: "ring_ok sz r"
  shows "ring_ok sz (snd (ring_pop sz r))" "ring_content sz (snd (ring_pop sz r)) = tl (ring_content sz r)"
    "fst (ring_pop sz r) = (if ring_content sz r = [] then None else Some (hd (ring_content sz r)))"
proof -
  have empty: "ring_len sz r = 0 \<longleftrightarrow> r_head r = r_tail r" using ok by (auto simp: ring_ok_def ring_len_def)
  show "ring_ok sz (snd (ring_pop sz r))" using ok by (simp add: ring_pop_def ring_ok_def)
  show "fst (ring_pop sz r) = (if ring_content sz r = [] then None else Some (hd (ring_content sz r)))"
    using empty ok by (auto simp: ring_pop_def ring_content_def ring_ok_def upt_conv_Cons)
  show "ring_content sz (snd (ring_pop sz r)) = tl (ring_content sz r)"
  proof (cases "r_head r = r_tail r")
    case False
    let ?r = "r\<lparr>r_tail := (r_tail r + 1) mod sz\<rparr>"
    obtain n where n: "ring_len sz r = Suc n" using empty False by (cases "ring_len sz r") auto
    have "ring_len sz ?r = n" using ok n by (auto simp: ring_ok_def ring_len_def succ_mod split: if_splits)
    moreover have "((r_tail r + 1) mod sz + k) mod sz = (r_tail r + Suc k) mod sz" for k
      by (simp add: mod_add_left_eq)
    ultimately have "ring_content sz ?r = map (\<lambda>k. r_buf r ! ((r_tail r + Suc k) mod sz)) [0 ..< n]"
      by (simp add: ring_content_def)
    also have "\<dots> = tl (ring_content sz r)"
      unfolding ring_content_def n by (simp add: map_Suc_upt[symmetric] upt_conv_Cons comp_def del: upt_Suc)
    finally show ?thesis using False by (simp add: ring_pop_def)
  qed (simp add: ring_pop_def ring_content_def empty)
qed

definition typed :: "'a kbd_state_scheme \<Rightarrow> u8 list" where
  "typed s = ring_content BUF_SIZE (BUF s)"

definition events :: "'a kbd_state_scheme \<Rightarrow> u16 list" where
  "events s = ring_content EBUF_SIZE (EBUF s)"

definition kbd_ok :: "'a kbd_state_scheme \<Rightarrow> bool" where
  "kbd_ok s \<longleftrightarrow> ring_ok BUF_SIZE (BUF s) \<and> ring_ok EBUF_SIZE (EBUF s)"

interpretation keys: bounded_fifo buffer_byte get_raw typed kbd_ok 1023
  by unfold_locales (auto simp: buffer_byte_def get_raw_def typed_def kbd_ok_def ring_push_ok ring_push_content
    ring_pop_spec case_prod_unfold BUF_SIZE_def)

interpretation evs: bounded_fifo push_event get_event events "\<lambda>s. kbd_ok s \<and> OWNER s \<noteq> None" 511
  by unfold_locales (auto simp: push_event_def get_event_def events_def kbd_ok_def ring_push_ok ring_push_content
    ring_pop_spec case_prod_unfold EBUF_SIZE_def)

section \<open>What delivery changes\<close>

text \<open>A step that changes threads and processes only; every field of a later component keeps its value.\<close>

definition tasks_only :: "'a task_state_scheme \<Rightarrow> 'a task_state_scheme \<Rightarrow> bool" where
  "tasks_only s s' \<longleftrightarrow> (\<exists>T P. s' = s\<lparr>THREADS := T, PROCESSES := P\<rparr>)"

lemma tasks_only_refl [simp]: "tasks_only s s"
  unfolding tasks_only_def by (rule exI[of _ "THREADS s"], rule exI[of _ "PROCESSES s"]) simp

lemma tasks_only_trans: "tasks_only s t \<Longrightarrow> tasks_only t u \<Longrightarrow> tasks_only s u"
  unfolding tasks_only_def by (elim exE) (simp, rule exI, rule exI, rule refl)

lemma tasks_only_upd [simp]: "tasks_only s (s\<lparr>THREADS := T\<rparr>)" "tasks_only s (s\<lparr>PROCESSES := P\<rparr>)"
  unfolding tasks_only_def
  by (rule exI[of _ T], rule exI[of _ "PROCESSES s"], simp) (rule exI[of _ "THREADS s"], rule exI[of _ P], simp)

lemma tasks_only_on_main: "(\<And>tid s. tasks_only s (f tid s)) \<Longrightarrow> tasks_only s (on_main f pid s)"
  by (simp add: on_main_def split: option.split)

lemma tasks_only_basic [simp]:
  "tasks_only s (upd_thread tid f s)" "tasks_only s (upd_process pid g s)"
  "tasks_only s (thread_set_ready tid s)" "tasks_only s (thread_set_sleeping tid s)"
  "tasks_only s (thread_set_wait_target tid w s)" "tasks_only s (snd (wake_first P r s))"
  by (simp_all add: upd_thread_def upd_process_def thread_set_ready_def thread_set_sleeping_def
    thread_set_wait_target_def wake_first_def)

lemma tasks_only_interrupt_sleep: "tasks_only s (interrupt_sleep tid s)"
proof -
  have "tasks_only s (snd (thread_apply_blocking_return_if_pending tid s))"
    by (simp add: thread_apply_blocking_return_if_pending_def split: option.split)
  from tasks_only_trans[OF tasks_only_trans[OF this tasks_only_basic(3)] tasks_only_basic(5)]
  show ?thesis by (simp add: interrupt_sleep_def)
qed

lemma tasks_only_send_sigint: "tasks_only s (send_sigint pid s)"
proof -
  have "tasks_only s (kill_pid pid s)"
    by (auto simp: kill_pid_def intro: tasks_only_trans[OF _ tasks_only_on_main] split: option.split)
  then show ?thesis
    by (auto simp: send_sigint_def Let_def intro: tasks_only_trans[OF _ tasks_only_interrupt_sleep] split: option.split)
qed

lemma tasks_only_wakeup_key:
  "tasks_only s (snd (wakeup_key_waiters ch s))" "tasks_only s (snd (wakeup_key_waiter_for_pid pid ch s))"
  using tasks_only_basic(6) by (simp_all add: wakeup_key_waiters_def wakeup_key_waiter_for_pid_def case_prod_unfold Let_def)

lemma tasks_only_kbd:
  assumes "tasks_only s s'"
  shows "BUF s' = BUF s" "EBUF s' = EBUF s" "OWNER s' = OWNER s" "SHIFT s' = SHIFT s" "CTRL s' = CTRL s" "ALT s' = ALT s"
  using assms by (auto simp: tasks_only_def)

lemma tasks_only_ok: "tasks_only s s' \<Longrightarrow> kbd_ok s \<Longrightarrow> kbd_ok s'"
  using tasks_only_kbd(1,2)[of s s'] by (simp add: kbd_ok_def)

definition key_waiter :: "'a kbd_state_scheme \<Rightarrow> u8 \<Rightarrow> nat \<times> 'a kbd_state_scheme" where
  "key_waiter s ch = (case OWNER s of Some own \<Rightarrow> wakeup_key_waiter_for_pid own ch s | None \<Rightarrow> wakeup_key_waiters ch s)"

lemma deliver_byte_alt: "deliver_byte ch s = (if fst (key_waiter s ch) > 0 then snd (key_waiter s ch) else buffer_byte ch (snd (key_waiter s ch)))"
  by (simp add: deliver_byte_def key_waiter_def case_prod_unfold Let_def)

lemma tasks_only_key_waiter: "tasks_only s (snd (key_waiter s ch))"
  by (simp add: key_waiter_def tasks_only_wakeup_key split: option.split)

lemma buffer_byte_owner [simp]: "OWNER (buffer_byte ch s) = OWNER s"
  by (simp add: buffer_byte_def)

lemma push_byte_ok:
  assumes "kbd_ok s"
  shows "kbd_ok (push_byte ch s)" "OWNER (push_byte ch s) = OWNER s"
proof -
  note w = tasks_only_key_waiter[of s ch] and i = tasks_only_send_sigint[of s]
  show "kbd_ok (push_byte ch s)"
    using tasks_only_ok[OF w assms] tasks_only_ok[OF i assms]
    by (auto simp: push_byte_def deliver_byte_alt keys.put_ok split: option.split)
  show "OWNER (push_byte ch s) = OWNER s"
    using tasks_only_kbd(3)[OF w] tasks_only_kbd(3)[OF i] by (auto simp: push_byte_def deliver_byte_alt split: option.split)
qed

lemma emit_key_ok: "kbd_ok s \<Longrightarrow> kbd_ok (emit_key code release s)"
  by (simp add: emit_key_def push_event_def kbd_ok_def ring_push_ok Let_def)

lemma kbd_ok_mods:
  "kbd_ok (s\<lparr>SHIFT := b\<rparr>) = kbd_ok s" "kbd_ok (s\<lparr>CTRL := b\<rparr>) = kbd_ok s" "kbd_ok (s\<lparr>ALT := b\<rparr>) = kbd_ok s"
  "kbd_ok (s\<lparr>EXTENDED := b\<rparr>) = kbd_ok s"
  by (simp_all add: kbd_ok_def)

lemma handle_scancode_ok: "kbd_ok s \<Longrightarrow> kbd_ok (handle_scancode sc s)"
proof -
  assume ok: "kbd_ok s"
  have "kbd_ok (extended_key base release t)" if "kbd_ok t" for base release and t :: "'a kbd_state_scheme"
    using that by (simp add: extended_key_def Let_def emit_key_ok push_byte_ok kbd_ok_mods)
  moreover have "kbd_ok t" if "modifier_key base release s = Some t" for base release t
    using that ok by (auto simp: modifier_key_def emit_key_ok kbd_ok_mods split: if_splits)
  moreover have "kbd_ok (character_key base release s)" for base release
    using ok by (simp add: character_key_def Let_def emit_key_ok push_byte_ok)
  ultimately show ?thesis using ok by (simp add: handle_scancode_def Let_def kbd_ok_mods split: option.split)
qed

lemma keyboard_poll_ok: "kbd_ok s \<Longrightarrow> kbd_ok (keyboard_poll inp s)"
proof -
  have "kbd_ok s \<Longrightarrow> kbd_ok (poll_loop n inp s)" for n
    by (induction n inp s rule: poll_loop.induct) (simp_all add: handle_scancode_ok)
  then show "kbd_ok s \<Longrightarrow> kbd_ok (keyboard_poll inp s)" by (simp add: keyboard_poll_def)
qed

section \<open>Properties\<close>

text \<open>What the driver does between two changes of focus: it polls, characters and events are read.\<close>

inductive kbd_step :: "'a kbd_state_scheme \<Rightarrow> 'a kbd_state_scheme \<Rightarrow> bool" where
  ks_poll: "kbd_step s (keyboard_poll inp s)"
| ks_inject: "kbd_step s (inject_keys ks s)"
| ks_raw: "kbd_step s (snd (get_raw s))"
| ks_key: "kbd_step s (snd (get_key s))"
| ks_event: "kbd_step s (snd (get_event s))"
| ks_flush: "kbd_step s (keyboard_flush s)"

lemma kbd_step_ok: "kbd_step s s' \<Longrightarrow> kbd_ok s \<Longrightarrow> kbd_ok s'"
proof (induction rule: kbd_step.induct)
  case (ks_poll s inp)
  then show ?case by (rule keyboard_poll_ok)
next
  case (ks_inject s ks)
  then show ?case unfolding inject_keys_def by (induction ks arbitrary: s) (simp_all add: push_byte_ok)
next
  case (ks_raw s)
  then show ?case by (rule keys.get_ok)
next
  case (ks_key s)
  then show ?case using keys.get_ok[of s] by (simp add: get_key_def get_raw_def case_prod_unfold Let_def)
next
  case (ks_event s)
  then show ?case by (simp add: get_event_def kbd_ok_def ring_pop_spec case_prod_unfold)
next
  case (ks_flush s)
  then show ?case by (simp add: keyboard_flush_def kbd_ok_def ring_ok_def ring_clear_def)
qed

text \<open>C25: Both keyboard buffers are bounded first-in-first-out queues. From every state the driver reaches after
  its initialisation, any interleaving of buffering and reading gives exactly the characters (events) that a
  queue of 1023 (511) places gives, in order, none twice and none lost while there is room; the indices never
  leave the arrays.\<close>

theorem keyboard_fifo:
  assumes "kbd_step\<^sup>*\<^sup>* (keyboard_init s0) s"
  shows "(case run_queue buffer_byte get_raw ops s of (out, s') \<Rightarrow>
            queue_run 1023 ops (typed s) = (out, typed s') \<and> kbd_ok s')
     \<and> (OWNER s \<noteq> None \<longrightarrow> (case run_queue push_event get_event eops s of (out, s') \<Rightarrow>
            queue_run 511 eops (events s) = (out, events s') \<and> kbd_ok s'))"
proof -
  have "kbd_ok (keyboard_init s0)" by (simp add: kbd_ok_def keyboard_init_def ring_ok_def BUF_SIZE_def EBUF_SIZE_def)
  with assms have ok: "kbd_ok s" by (induction rule: rtranclp_induct) (auto intro: kbd_step_ok)
  show ?thesis using keys.run_refines[OF ok] evs.run_refines[of s] ok by (auto split: prod.split)
qed

definition demo_kbd :: "u64 option \<Rightarrow> kbd_state" where
  "demo_kbd own = ipc_state.extend demo_ipc
     \<lparr>BUF = \<lparr>r_buf = [], r_head = 0, r_tail = 0\<rparr>, EBUF = \<lparr>r_buf = [], r_head = 0, r_tail = 0\<rparr>,
      SHIFT = False, CTRL = False, ALT = False, EXTENDED = False, OWNER = own\<rparr>"

text \<open>Two characters and a reader that polls three times.\<close>

theorem keyboard_fifo_witness:
  "fst (run_queue buffer_byte get_raw [Put 97, Put 98, Get, Get, Get] (keyboard_init (demo_kbd None))) = [Some 97, Some 98, None]"
proof -
  let ?s = "keyboard_init (demo_kbd None)"
  have "typed ?s = []" by (simp add: typed_def ring_content_def ring_len_def keyboard_init_def)
  then show ?thesis
    using keyboard_fifo[of "demo_kbd None" ?s "[Put 97, Put 98, Get, Get, Get]"] by (auto split: prod.splits)
qed



end
