(* ===== verification/Descriptors.thy ===== *)
theory Descriptors
  imports Keyboard Vfs Scheduler
begin

text \<open>
  Pipes (\<open>fs/pipe.rs\<close>), the descriptor tables of the processes (\<open>fs/fd.rs\<close>), the wake-up of blocked readers
  (\<open>notify_pipe_readers\<close> of \<open>task/thread.rs\<close>), the audio device (\<open>drivers/audio.rs\<close>), the one device the kernel
  registers, and the system calls on files, pipes and devices (\<open>syscall/runtime.rs\<close>). A result \<open>None\<close> of the
  functions that copy to or from user memory is a page fault, as in theory \<open>Uaccess\<close>. What the console shows and
  what the serial line carries are the texts given to \<open>screen_print\<close> and \<open>serial_print\<close>.
\<close>

section \<open>State\<close>

record pipe_state =
  p_data :: "u8 list"
  write_refs :: u32
  read_refs :: u32

datatype device_ops = AUDIO_OPS

datatype fd_entry =
    Fd_Empty
  | Fd_File u32 u32 nat
  | Fd_Device device_ops u64
  | Fd_ConsoleOut
  | Fd_ConsoleIn
  | Fd_PipeRead u64
  | Fd_PipeWrite u64

definition MAX_FD :: nat where "MAX_FD = 1024"

record fd_state = kbd_state +
  PIPES :: "pipe_state option list"
  TABLES :: "fd_entry list option list"
  NODES :: "fs_slot list"
  DEVICES :: "device_ops dev_entry option list"
  AUDIO_CHANNEL :: u64
  AUDIO_ONLINE :: bool
  SCREEN :: "u8 list"
  SERIAL :: "u8 list"
  VERBOSE :: bool

abbreviation caller_pid :: "'a task_state_scheme \<Rightarrow> u64" where
  "caller_pid s \<equiv> (case current_user_pid s of Some pid \<Rightarrow> pid | None \<Rightarrow> 0)"

section \<open>Pipes\<close>

definition pipe_at :: "u64 \<Rightarrow> 'a fd_state_scheme \<Rightarrow> pipe_state option" where
  "pipe_at pipe s = (if unat pipe < length (PIPES s) then PIPES s ! unat pipe else None)"

definition put_pipe :: "u64 \<Rightarrow> pipe_state option \<Rightarrow> 'a fd_state_scheme \<Rightarrow> 'a fd_state_scheme" where
  "put_pipe pipe p s = s\<lparr>PIPES := (PIPES s)[unat pipe := p]\<rparr>"

definition new_pipe :: pipe_state where
  "new_pipe = \<lparr>p_data = [], write_refs = 0, read_refs = 0\<rparr>"

definition pipe_create :: "'a fd_state_scheme \<Rightarrow> u64 option \<times> 'a fd_state_scheme" where
  "pipe_create s =
     (case position (\<lambda>slot. slot = None) (PIPES s) of
        Some i \<Rightarrow> (Some (word_of_nat i), s\<lparr>PIPES := (PIPES s)[i := Some new_pipe]\<rparr>)
      | None \<Rightarrow> (Some (word_of_nat (length (PIPES s))), s\<lparr>PIPES := PIPES s @ [Some new_pipe]\<rparr>))"

definition clone_write :: "u64 \<Rightarrow> 'a fd_state_scheme \<Rightarrow> 'a fd_state_scheme" where
  "clone_write pipe s =
     (case pipe_at pipe s of Some p \<Rightarrow> put_pipe pipe (Some (p\<lparr>write_refs := write_refs p + 1\<rparr>)) s | None \<Rightarrow> s)"

definition clone_read :: "u64 \<Rightarrow> 'a fd_state_scheme \<Rightarrow> 'a fd_state_scheme" where
  "clone_read pipe s =
     (case pipe_at pipe s of Some p \<Rightarrow> put_pipe pipe (Some (p\<lparr>read_refs := read_refs p + 1\<rparr>)) s | None \<Rightarrow> s)"

definition pipe_write :: "u64 \<Rightarrow> u8 list \<Rightarrow> 'a fd_state_scheme \<Rightarrow> nat \<times> 'a fd_state_scheme" where
  "pipe_write pipe data s =
     (case pipe_at pipe s of
        Some p \<Rightarrow>
          if read_refs p = 0 then (0, s)
          else (length data, put_pipe pipe (Some (p\<lparr>p_data := p_data p @ data\<rparr>)) s)
      | None \<Rightarrow> (0, s))"

text \<open>The bytes that go to the front of the caller's buffer of \<open>n\<close> bytes.\<close>

definition pipe_read :: "u64 \<Rightarrow> nat \<Rightarrow> 'a fd_state_scheme \<Rightarrow> u8 list \<times> 'a fd_state_scheme" where
  "pipe_read pipe n s =
     (case pipe_at pipe s of
        Some p \<Rightarrow> (take n (p_data p), put_pipe pipe (Some (p\<lparr>p_data := drop n (p_data p)\<rparr>)) s)
      | None \<Rightarrow> ([], s))"

definition pipe_read_raw :: "u64 \<Rightarrow> u64 \<Rightarrow> nat \<Rightarrow> 'a fd_state_scheme \<Rightarrow> (nat \<times> 'a fd_state_scheme) option" where
  "pipe_read_raw pipe buf_ptr max_len s =
     (case pipe_at pipe s of
        Some p \<Rightarrow>
          (let n = min max_len (length (p_data p))
           in case store_bytes (take n (p_data p)) (active_cr3 (vm (mach s))) buf_ptr (mach s) of
                None \<Rightarrow> None
              | Some m \<Rightarrow> Some (n, put_pipe pipe (Some (p\<lparr>p_data := drop n (p_data p)\<rparr>)) (s\<lparr>mach := m\<rparr>)))
      | None \<Rightarrow> Some (0, s))"

definition pipe_is_empty :: "u64 \<Rightarrow> 'a fd_state_scheme \<Rightarrow> bool" where
  "pipe_is_empty pipe s = (case pipe_at pipe s of Some p \<Rightarrow> p_data p = [] | None \<Rightarrow> True)"

definition writer_closed :: "u64 \<Rightarrow> 'a fd_state_scheme \<Rightarrow> bool" where
  "writer_closed pipe s = (case pipe_at pipe s of Some p \<Rightarrow> write_refs p = 0 | None \<Rightarrow> True)"

definition close_write :: "u64 \<Rightarrow> 'a fd_state_scheme \<Rightarrow> 'a fd_state_scheme" where
  "close_write pipe s =
     (case pipe_at pipe s of
        Some p \<Rightarrow>
          (let p' = p\<lparr>write_refs := (if write_refs p = 0 then 0 else write_refs p - 1)\<rparr>
           in put_pipe pipe (if write_refs p' = 0 \<and> read_refs p' = 0 then None else Some p') s)
      | None \<Rightarrow> s)"

definition close_read :: "u64 \<Rightarrow> 'a fd_state_scheme \<Rightarrow> 'a fd_state_scheme" where
  "close_read pipe s =
     (case pipe_at pipe s of
        Some p \<Rightarrow>
          (let p' = p\<lparr>read_refs := (if read_refs p = 0 then 0 else read_refs p - 1)\<rparr>
           in put_pipe pipe (if write_refs p' = 0 \<and> read_refs p' = 0 then None else Some p') s)
      | None \<Rightarrow> s)"

section \<open>Waking blocked readers\<close>

definition pipe_reader :: "u64 \<Rightarrow> thread \<Rightarrow> (u64 \<times> u64) option" where
  "pipe_reader pipe_id t =
     (if t_state t = T_Sleeping
      then (case t_wait_target t of
              Wait_PipeRead pipe buf_ptr buf_len \<Rightarrow> if pipe = pipe_id then Some (buf_ptr, buf_len) else None
            | _ \<Rightarrow> None)
      else None)"

definition set_cr3 :: "u64 \<Rightarrow> 'a task_state_scheme \<Rightarrow> 'a task_state_scheme" where
  "set_cr3 cr3 s = set_vm (switch_cr3 cr3 (vm (mach s))) s"

definition notify_reader :: "u64 \<Rightarrow> thread \<Rightarrow> 'a fd_state_scheme \<Rightarrow> (thread \<times> 'a fd_state_scheme) option" where
  "notify_reader pipe_id t s =
     (case pipe_reader pipe_id t of
        None \<Rightarrow> Some (t, s)
      | Some (buf_ptr, buf_len) \<Rightarrow>
          (let reader_cr3 = u_cr3 (t_user_context t)
           in case validate_range_in reader_cr3 buf_ptr buf_len True (vm (mach s)) of
                None \<Rightarrow> None
              | Some False \<Rightarrow> Some (t, s)
              | Some True \<Rightarrow>
                  (let cur_cr3 = active_cr3 (vm (mach s));
                       switch = (reader_cr3 \<noteq> 0 \<and> reader_cr3 \<noteq> cur_cr3);
                       s1 = (if switch then set_cr3 reader_cr3 s else s)
                   in case pipe_read_raw pipe_id buf_ptr (unat buf_len) s1 of
                        None \<Rightarrow> None
                      | Some (n, s2) \<Rightarrow>
                          Some (wake_with (kmem s2) (word_of_nat n) (t\<lparr>t_blocking_retval := word_of_nat n\<rparr>),
                                if switch then set_cr3 cur_cr3 s2 else s2))))"

primrec notify_loop :: "u64 \<Rightarrow> thread list \<Rightarrow> 'a fd_state_scheme \<Rightarrow> (thread list \<times> 'a fd_state_scheme) option" where
  "notify_loop pipe_id [] s = Some ([], s)"
| "notify_loop pipe_id (t # ts) s =
     (case notify_reader pipe_id t s of
        None \<Rightarrow> None
      | Some (t', s1) \<Rightarrow> map_option (\<lambda>(ts', s2). (t' # ts', s2)) (notify_loop pipe_id ts s1))"

definition notify_pipe_readers :: "u64 \<Rightarrow> 'a fd_state_scheme \<Rightarrow> 'a fd_state_scheme option" where
  "notify_pipe_readers pipe_id s =
     map_option (\<lambda>(ts, s'). s'\<lparr>THREADS := ts\<rparr>) (notify_loop pipe_id (THREADS s) s)"

section \<open>The audio device\<close>

definition audio_channel_name :: "u8 list" where
  "audio_channel_name = [109, 111, 100, 117, 108, 101, 95, 97, 117, 100, 105, 111]"

definition audio_init :: "'a fd_state_scheme \<Rightarrow> 'a fd_state_scheme" where
  "audio_init s =
     (let (channel, s1) = ipc_open audio_channel_name s
      in s1\<lparr>AUDIO_CHANNEL := channel,
            DEVICES := devfs_register [SLASH, 100, 101, 118, SLASH, 97, 117, 100, 105, 111] AUDIO_OPS (DEVICES s1)\<rparr>)"

definition audio_driver_started :: "'a fd_state_scheme \<Rightarrow> 'a fd_state_scheme" where
  "audio_driver_started s = s\<lparr>AUDIO_ONLINE := True\<rparr>"

definition audio_driver_stopped :: "'a fd_state_scheme \<Rightarrow> 'a fd_state_scheme" where
  "audio_driver_stopped s = abort_senders (AUDIO_CHANNEL s) (s\<lparr>AUDIO_ONLINE := False\<rparr>)"

definition audio_send :: "u8 \<Rightarrow> u8 list \<Rightarrow> 'a fd_state_scheme \<Rightarrow> send_result \<times> 'a fd_state_scheme" where
  "audio_send command data s =
     (if \<not> AUDIO_ONLINE s then (Send_Error, s)
      else try_send_reliable (AUDIO_CHANNEL s) (caller_pid s) (command # data) s)"

definition audio_write :: "u64 \<Rightarrow> u8 list \<Rightarrow> 'a fd_state_scheme \<Rightarrow> nat \<times> 'a fd_state_scheme" where
  "audio_write handle buf s =
     (if buf = [] \<or> length buf > 8191 then (0, s)
      else case audio_send 2 buf s of
        (Send_Ok, s') \<Rightarrow> (length buf, s')
      | (_, s') \<Rightarrow> (0, s'))"

definition audio_simple :: "u8 \<Rightarrow> u8 list \<Rightarrow> 'a fd_state_scheme \<Rightarrow> u64 \<times> 'a fd_state_scheme" where
  "audio_simple command data s =
     (let (r, s') = audio_send command data s in (if r = Send_Ok then 0 else u64_max, s'))"

definition audio_ioctl :: "u64 \<Rightarrow> u64 \<Rightarrow> u64 \<Rightarrow> 'a fd_state_scheme \<Rightarrow> u64 \<times> 'a fd_state_scheme" where
  "audio_ioctl handle cmd arg s =
     (if cmd = 0 then audio_simple 0 [] s
      else if cmd = 1 then audio_simple 3 (to_le 4 (unat arg)) s
      else if cmd = 2 then audio_simple 1 [if arg = 1 then 1 else 2] s
      else if cmd = 3
      then (if \<not> AUDIO_ONLINE s then (u64_max, s)
            else let (blocked, s') = wait_send_space (AUDIO_CHANNEL s) (caller_pid s) s
                 in (if blocked then BLOCK_TO_SCHEDULER else 0, s'))
      else (u64_max, s))"

text \<open>The table of functions \<open>AUDIO_OPS\<close>.\<close>

primrec ops_open :: "device_ops \<Rightarrow> u64" where
  "ops_open AUDIO_OPS = 1"

primrec ops_close :: "device_ops \<Rightarrow> u64 \<Rightarrow> 'a fd_state_scheme \<Rightarrow> 'a fd_state_scheme" where
  "ops_close AUDIO_OPS handle s = s"

primrec ops_read :: "device_ops \<Rightarrow> u64 \<Rightarrow> nat \<Rightarrow> 'a fd_state_scheme \<Rightarrow> u8 list \<times> 'a fd_state_scheme" where
  "ops_read AUDIO_OPS handle n s = ([], s)"

primrec ops_write :: "device_ops \<Rightarrow> u64 \<Rightarrow> u8 list \<Rightarrow> 'a fd_state_scheme \<Rightarrow> nat \<times> 'a fd_state_scheme" where
  "ops_write AUDIO_OPS handle buf s = audio_write handle buf s"

primrec ops_ioctl :: "device_ops \<Rightarrow> u64 \<Rightarrow> u64 \<Rightarrow> u64 \<Rightarrow> 'a fd_state_scheme \<Rightarrow> u64 \<times> 'a fd_state_scheme" where
  "ops_ioctl AUDIO_OPS handle cmd arg s = audio_ioctl handle cmd arg s"

section \<open>Descriptor tables\<close>

definition pipe_clone :: "fd_entry \<Rightarrow> 'a fd_state_scheme \<Rightarrow> 'a fd_state_scheme" where
  "pipe_clone entry s =
     (case entry of Fd_PipeWrite pipe \<Rightarrow> clone_write pipe s | Fd_PipeRead pipe \<Rightarrow> clone_read pipe s | _ \<Rightarrow> s)"

definition close_entry :: "fd_entry \<Rightarrow> 'a fd_state_scheme \<Rightarrow> 'a fd_state_scheme option" where
  "close_entry entry s =
     (case entry of
        Fd_Device ops handle \<Rightarrow> Some (ops_close ops handle s)
      | Fd_PipeWrite pipe \<Rightarrow> notify_pipe_readers pipe (close_write pipe s)
      | Fd_PipeRead pipe \<Rightarrow> Some (close_read pipe s)
      | _ \<Rightarrow> Some s)"

definition fd_table :: "u64 \<Rightarrow> 'a fd_state_scheme \<Rightarrow> fd_entry list option" where
  "fd_table pid s = (if unat pid < length (TABLES s) then TABLES s ! unat pid else None)"

definition put_table :: "u64 \<Rightarrow> fd_entry list \<Rightarrow> 'a fd_state_scheme \<Rightarrow> 'a fd_state_scheme" where
  "put_table pid t s = s\<lparr>TABLES := (TABLES s)[unat pid := Some t]\<rparr>"

definition ensure_table :: "u64 \<Rightarrow> 'a fd_state_scheme \<Rightarrow> 'a fd_state_scheme" where
  "ensure_table pid s =
     (let tables = (if unat pid \<ge> length (TABLES s) then resize (TABLES s) (unat pid + 1) None else TABLES s)
      in s\<lparr>TABLES := (if tables ! unat pid = None then tables[unat pid := Some []] else tables)\<rparr>)"

definition alloc_fd_at :: "u64 \<Rightarrow> nat \<Rightarrow> fd_entry \<Rightarrow> 'a fd_state_scheme \<Rightarrow> bool \<times> 'a fd_state_scheme" where
  "alloc_fd_at pid fd entry s =
     (if fd \<ge> MAX_FD then (False, s)
      else let s1 = ensure_table pid s
           in case fd_table pid s1 of
                Some t \<Rightarrow>
                  (let t' = (if fd \<ge> length t then resize t (fd + 1) Fd_Empty else t)
                   in (True, put_table pid (t'[fd := entry]) (pipe_clone entry s1)))
              | None \<Rightarrow> (False, s1))"

definition alloc_fd :: "u64 \<Rightarrow> fd_entry \<Rightarrow> 'a fd_state_scheme \<Rightarrow> nat option \<times> 'a fd_state_scheme" where
  "alloc_fd pid entry s =
     (let s1 = ensure_table pid s
      in case fd_table pid s1 of
           None \<Rightarrow> (None, s1)
         | Some t \<Rightarrow>
             (case position (\<lambda>e. e = Fd_Empty) t of
                Some i \<Rightarrow> (Some i, put_table pid (t[i := entry]) (pipe_clone entry s1))
              | None \<Rightarrow>
                  if length t < MAX_FD then (Some (length t), put_table pid (t @ [entry]) (pipe_clone entry s1))
                  else (None, s1)))"

definition get_fd :: "u64 \<Rightarrow> nat \<Rightarrow> 'a fd_state_scheme \<Rightarrow> fd_entry option" where
  "get_fd pid fd s =
     (case fd_table pid s of Some t \<Rightarrow> if fd < length t then Some (t ! fd) else None | None \<Rightarrow> None)"

definition set_fd :: "u64 \<Rightarrow> nat \<Rightarrow> fd_entry \<Rightarrow> 'a fd_state_scheme \<Rightarrow> bool \<times> 'a fd_state_scheme" where
  "set_fd pid fd entry s =
     (case fd_table pid s of
        Some t \<Rightarrow> if fd < length t then (True, put_table pid (t[fd := entry]) s) else (False, s)
      | None \<Rightarrow> (False, s))"

definition free_fd :: "u64 \<Rightarrow> nat \<Rightarrow> 'a fd_state_scheme \<Rightarrow> (bool \<times> 'a fd_state_scheme) option" where
  "free_fd pid fd s =
     (case fd_table pid s of
        Some t \<Rightarrow>
          if fd < length t
          then map_option (\<lambda>s'. (True, put_table pid (t[fd := Fd_Empty]) s')) (close_entry (t ! fd) s)
          else Some (False, s)
      | None \<Rightarrow> Some (False, s))"

primrec close_entries :: "fd_entry list \<Rightarrow> 'a fd_state_scheme \<Rightarrow> 'a fd_state_scheme option" where
  "close_entries [] s = Some s"
| "close_entries (e # es) s = Option.bind (close_entry e s) (close_entries es)"

definition close_all :: "u64 \<Rightarrow> 'a fd_state_scheme \<Rightarrow> 'a fd_state_scheme option" where
  "close_all pid s =
     (case fd_table pid s of
        Some t \<Rightarrow> map_option (put_table pid []) (close_entries t s)
      | None \<Rightarrow> Some s)"

end
