(* ===== verification/File_Calls.thy ===== *)
theory File_Calls
  imports Descriptors
begin

text \<open>
  The system calls on descriptors (\<open>syscall/runtime.rs\<close>): opening, creating and removing files, pipes, reading
  and writing. The result is what the call returns to the program; \<open>None\<close> is a page fault in the kernel.
\<close>

section \<open>User memory\<close>

definition load_user :: "nat \<Rightarrow> u64 \<Rightarrow> 'a task_state_scheme \<Rightarrow> u8 list option" where
  "load_user n ptr s = load_bytes n (active_cr3 (vm (mach s))) ptr (mach s)"

definition store_user :: "u8 list \<Rightarrow> u64 \<Rightarrow> 'a task_state_scheme \<Rightarrow> 'a task_state_scheme option" where
  "store_user bs ptr s =
     map_option (\<lambda>m. s\<lparr>mach := m\<rparr>) (store_bytes bs (active_cr3 (vm (mach s))) ptr (mach s))"

definition read_str :: "u64 \<Rightarrow> u64 \<Rightarrow> machine \<Rightarrow> u8 list option option" where
  "read_str ptr len m =
     map_option (\<lambda>r. Option.bind r (\<lambda>bs. if utf8_valid bs then Some bs else None)) (read_bytes ptr len m)"

definition read_user_path :: "u64 \<Rightarrow> u64 \<Rightarrow> 'a task_state_scheme \<Rightarrow> u8 list option option" where
  "read_user_path ptr len s =
     (if ptr = 0 \<or> len = 0 \<or> len > 256 then Some None else read_str ptr len (mach s))"

text \<open>\<open>let Some(path) = read_user_path(ptr, len) else { return u64::MAX }\<close>.\<close>

definition with_path :: "u64 \<Rightarrow> u64 \<Rightarrow> (u8 list \<Rightarrow> 'a task_state_scheme \<Rightarrow> u64 \<times> 'a task_state_scheme)
    \<Rightarrow> 'a task_state_scheme \<Rightarrow> (u64 \<times> 'a task_state_scheme) option" where
  "with_path ptr len f s =
     (case read_user_path ptr len s of
        None \<Rightarrow> None
      | Some None \<Rightarrow> Some (u64_max, s)
      | Some (Some path) \<Rightarrow> Some (f path s))"

section \<open>Files\<close>

definition install_fd :: "fd_entry \<Rightarrow> 'a fd_state_scheme \<Rightarrow> u64 \<times> 'a fd_state_scheme" where
  "install_fd entry s =
     (case alloc_fd (caller_pid s) entry s of
        (Some fd, s') \<Rightarrow> (word_of_nat fd, s')
      | (None, s') \<Rightarrow> (u64_max, s'))"

definition create_file :: "u8 list \<Rightarrow> 'a fd_state_scheme \<Rightarrow> u64 \<times> 'a fd_state_scheme" where
  "create_file path s =
     (case vfs_create path (NODES s) of
        (Inr (node, gen), nodes) \<Rightarrow> install_fd (Fd_File node gen 0) (s\<lparr>NODES := nodes\<rparr>)
      | (Inl AlreadyExists, nodes) \<Rightarrow>
          (case vfs_lookup (DEVICES s) path nodes of
             Inr (File_Node node gen len) \<Rightarrow>
               install_fd (Fd_File node gen 0) (s\<lparr>NODES := vfs_truncate node gen nodes\<rparr>)
           | _ \<Rightarrow> (u64_max, s\<lparr>NODES := nodes\<rparr>))
      | (Inl e, nodes) \<Rightarrow> (u64_max, s\<lparr>NODES := nodes\<rparr>))"

definition sys_create :: "u64 \<Rightarrow> u64 \<Rightarrow> 'a fd_state_scheme \<Rightarrow> (u64 \<times> 'a fd_state_scheme) option" where
  "sys_create ptr len = with_path ptr len create_file"

text \<open>\<open>op(&path).map_or(u64::MAX, |_| 0)\<close>.\<close>

definition path_call :: "(u8 list \<Rightarrow> fs_slot list \<Rightarrow> (fs_error + unit) \<times> fs_slot list)
    \<Rightarrow> u8 list \<Rightarrow> 'a fd_state_scheme \<Rightarrow> u64 \<times> 'a fd_state_scheme" where
  "path_call op path s =
     (let (r, nodes) = op path (NODES s)
      in (case r of Inl _ \<Rightarrow> u64_max | Inr _ \<Rightarrow> 0, s\<lparr>NODES := nodes\<rparr>))"

definition sys_unlink :: "u64 \<Rightarrow> u64 \<Rightarrow> 'a fd_state_scheme \<Rightarrow> (u64 \<times> 'a fd_state_scheme) option" where
  "sys_unlink ptr len = with_path ptr len (path_call vfs_unlink)"

definition sys_mkdir :: "u64 \<Rightarrow> u64 \<Rightarrow> 'a fd_state_scheme \<Rightarrow> (u64 \<times> 'a fd_state_scheme) option" where
  "sys_mkdir ptr len = with_path ptr len (path_call vfs_mkdir)"

definition sys_rmdir :: "u64 \<Rightarrow> u64 \<Rightarrow> 'a fd_state_scheme \<Rightarrow> (u64 \<times> 'a fd_state_scheme) option" where
  "sys_rmdir ptr len = with_path ptr len (path_call vfs_rmdir)"

definition open_path :: "u8 list \<Rightarrow> 'a fd_state_scheme \<Rightarrow> u64 \<times> 'a fd_state_scheme" where
  "open_path path s =
     (case vfs_lookup (DEVICES s) path (NODES s) of
        Inr (Device_Node ops) \<Rightarrow>
          (let handle = ops_open ops
           in if handle = u64_max then (u64_max, s)
              else case alloc_fd (caller_pid s) (Fd_Device ops handle) s of
                     (Some fd, s') \<Rightarrow> (word_of_nat fd, s')
                   | (None, s') \<Rightarrow> (u64_max, ops_close ops handle s'))
      | Inr (File_Node node gen len) \<Rightarrow> install_fd (Fd_File node gen 0) s
      | Inr Dir_Node \<Rightarrow> (u64_max, s)
      | Inl e \<Rightarrow> (u64_max, s))"

definition sys_open :: "u64 \<Rightarrow> u64 \<Rightarrow> 'a fd_state_scheme \<Rightarrow> (u64 \<times> 'a fd_state_scheme) option" where
  "sys_open ptr len = with_path ptr len open_path"

definition sys_close :: "u64 \<Rightarrow> 'a fd_state_scheme \<Rightarrow> (u64 \<times> 'a fd_state_scheme) option" where
  "sys_close fd s =
     map_option (\<lambda>(ok, s'). (if ok then 0 else u64_max, s')) (free_fd (caller_pid s) (unat fd) s)"

section \<open>Pipes\<close>

text \<open>Freeing the descriptors that were obtained, in order.\<close>

definition free_opt :: "nat option \<Rightarrow> 'a fd_state_scheme \<Rightarrow> 'a fd_state_scheme option" where
  "free_opt fd s = (case fd of Some i \<Rightarrow> map_option snd (free_fd (caller_pid s) i s) | None \<Rightarrow> Some s)"

definition sys_pipe :: "u64 \<Rightarrow> 'a fd_state_scheme \<Rightarrow> (u64 \<times> 'a fd_state_scheme) option" where
  "sys_pipe out_ptr s =
     (case pipe_create s of
        (None, s1) \<Rightarrow> Some (u64_max, s1)
      | (Some pipe, s1) \<Rightarrow>
          (let (read_fd, s2) = alloc_fd (caller_pid s) (Fd_PipeRead pipe) s1;
               (write_fd, s3) = alloc_fd (caller_pid s) (Fd_PipeWrite pipe) s2;
               roll_back = (\<lambda>s. map_option (Pair u64_max) (Option.bind (free_opt read_fd s) (free_opt write_fd)))
           in case (read_fd, write_fd) of
                (Some r, Some w) \<Rightarrow>
                  if out_ptr = 0 then Some (0, s3)
                  else (case write_bytes out_ptr (to_le 8 r @ to_le 8 w) (mach s3) of
                          None \<Rightarrow> None
                        | Some (True, m) \<Rightarrow> Some (0, s3\<lparr>mach := m\<rparr>)
                        | Some (False, m) \<Rightarrow> roll_back (s3\<lparr>mach := m\<rparr>))
              | _ \<Rightarrow> roll_back s3))"

section \<open>The console\<close>

definition valid_up_to :: "u8 list \<Rightarrow> nat" where
  "valid_up_to bs = last (filter (\<lambda>k. utf8_valid (take k bs)) [0 ..< Suc (length bs)])"

definition CHUNK :: nat where "CHUNK = 256"

definition print_chunk :: "bool \<Rightarrow> u8 list \<Rightarrow> 'a fd_state_scheme \<Rightarrow> 'a fd_state_scheme" where
  "print_chunk do_fb text s =
     (let s1 = (if do_fb then s\<lparr>SCREEN := SCREEN s @ text\<rparr> else s)
      in if VERBOSE s1 then s1\<lparr>SERIAL := SERIAL s1 @ text\<rparr> else s1)"

text \<open>The text printed for one chunk and the number of bytes consumed.\<close>

definition chunk_text :: "u8 list \<Rightarrow> u8 list \<times> nat" where
  "chunk_text bs =
     (if utf8_valid bs then (bs, length bs)
      else let valid = valid_up_to bs in if valid = 0 then ([], length bs) else (take valid bs, valid))"

lemma valid_up_to_le: "valid_up_to bs \<le> length bs"
proof -
  let ?ks = "filter (\<lambda>k. utf8_valid (take k bs)) [0 ..< Suc (length bs)]"
  have "0 \<in> set ?ks" by simp
  then have "last ?ks \<in> set ?ks" by (metis last_in_set empty_iff list.set(1))
  then show ?thesis unfolding valid_up_to_def by auto
qed

lemma chunk_consumed: "bs \<noteq> [] \<Longrightarrow> 0 < snd (chunk_text bs) \<and> snd (chunk_text bs) \<le> length bs"
  using valid_up_to_le[of bs] by (auto simp: chunk_text_def Let_def)

lemma length_load_bytes: "load_bytes n cr3 v m = Some bs \<Longrightarrow> length bs = n"
  by (induction n arbitrary: v bs) (auto split: option.splits)

function print_loop :: "u64 \<Rightarrow> nat \<Rightarrow> nat \<Rightarrow> bool \<Rightarrow> 'a fd_state_scheme \<Rightarrow> 'a fd_state_scheme option" where
  "print_loop src len offset do_fb s =
     (if offset < len
      then (case load_user (min (len - offset) CHUNK) (src + word_of_nat offset) s of
              None \<Rightarrow> None
            | Some buf \<Rightarrow>
                print_loop src len (offset + snd (chunk_text buf)) do_fb (print_chunk do_fb (fst (chunk_text buf)) s))
      else Some s)"
  by pat_completeness auto
termination
proof (relation "measure (\<lambda>(src, len, offset, do_fb, s). len - offset)")
  fix src :: u64 and len offset do_fb and s :: "'a fd_state_scheme" and buf
  assume lt: "offset < len" and l: "load_user (min (len - offset) CHUNK) (src + word_of_nat offset) s = Some buf"
  have "buf \<noteq> []" using length_load_bytes[OF l[unfolded load_user_def]] lt by (auto simp: CHUNK_def)
  with chunk_consumed[of buf] lt
  show "((src, len, offset + snd (chunk_text buf), do_fb, print_chunk do_fb (fst (chunk_text buf)) s), src, len, offset, do_fb, s)
      \<in> measure (\<lambda>(src, len, offset, do_fb, s). len - offset)" by simp linarith
qed simp

declare print_loop.simps [simp del]

definition print_user_bytes :: "u64 \<Rightarrow> u64 \<Rightarrow> bool \<Rightarrow> 'a fd_state_scheme \<Rightarrow> 'a fd_state_scheme option" where
  "print_user_bytes ptr len do_fb s = print_loop ptr (unat len) 0 do_fb s"

section \<open>Reading and writing\<close>

text \<open>The bytes are copied to the buffer and their number returned.\<close>

definition return_bytes :: "u8 list \<Rightarrow> u64 \<Rightarrow> 'a task_state_scheme \<Rightarrow> (u64 \<times> 'a task_state_scheme) option" where
  "return_bytes bs ptr s = map_option (Pair (word_of_nat (length bs))) (store_user bs ptr s)"

definition try_read_entry :: "fd_entry option \<Rightarrow> u64 \<Rightarrow> u64 \<Rightarrow> 'a fd_state_scheme \<Rightarrow> (u64 \<times> 'a fd_state_scheme) option" where
  "try_read_entry entry buf_ptr buf_len s =
     (case entry of
        Some Fd_ConsoleIn \<Rightarrow>
          if kbd_locked_out s then Some (0, s)
          else (case get_raw s of
                  (Some ch, s') \<Rightarrow> return_bytes [ch] buf_ptr s'
                | (None, s') \<Rightarrow> Some (0, s'))
      | Some (Fd_PipeRead pipe) \<Rightarrow>
          if pipe_is_empty pipe s then Some (if writer_closed pipe s then u64_max else 0, s)
          else let (bs, s') = pipe_read pipe (unat buf_len) s in return_bytes bs buf_ptr s'
      | _ \<Rightarrow> Some (u64_max, s))"

definition sys_try_read :: "u64 \<Rightarrow> u64 \<Rightarrow> u64 \<Rightarrow> 'a fd_state_scheme \<Rightarrow> (u64 \<times> 'a fd_state_scheme) option" where
  "sys_try_read fd buf_ptr buf_len s =
     (if buf_ptr = 0 \<or> buf_len = 0 then Some (0, s)
      else case validate_range buf_ptr buf_len True (vm (mach s)) of
        None \<Rightarrow> None
      | Some False \<Rightarrow> Some (u64_max, s)
      | Some True \<Rightarrow> try_read_entry (get_fd (caller_pid s) (unat fd) s) buf_ptr buf_len s)"

definition sleep_on :: "wait_target \<Rightarrow> 'a task_state_scheme \<Rightarrow> u64 \<times> 'a task_state_scheme" where
  "sleep_on w s =
     (BLOCK_TO_SCHEDULER,
      case current_user_pid s of
        Some pid \<Rightarrow> process_set_sleeping pid (process_set_wait_target pid w s)
      | None \<Rightarrow> s)"

definition read_pipe_fd :: "u64 \<Rightarrow> u64 \<Rightarrow> u64 \<Rightarrow> 'a fd_state_scheme \<Rightarrow> (u64 \<times> 'a fd_state_scheme) option" where
  "read_pipe_fd pipe buf_ptr buf_len s =
     (if \<not> pipe_is_empty pipe s
      then let (bs, s') = pipe_read pipe (unat buf_len) s in return_bytes bs buf_ptr s'
      else if writer_closed pipe s then Some (0, s)
      else Some (sleep_on (Wait_PipeRead pipe buf_ptr buf_len) s))"

definition read_file_fd :: "u64 \<Rightarrow> u32 \<Rightarrow> u32 \<Rightarrow> nat \<Rightarrow> u64 \<Rightarrow> u64 \<Rightarrow> 'a fd_state_scheme \<Rightarrow> (u64 \<times> 'a fd_state_scheme) option" where
  "read_file_fd fd node gen offset buf_ptr buf_len s =
     (let bs = vfs_read_at node gen offset (unat buf_len) (NODES s)
      in if bs = [] then Some (0, s)
         else map_option (\<lambda>s'. (word_of_nat (length bs),
                                snd (set_fd (caller_pid s) (unat fd) (Fd_File node gen (offset + length bs)) s')))
                (store_user bs buf_ptr s))"

definition DEV_CHUNK :: nat where "DEV_CHUNK = 8192"

function read_device :: "device_ops \<Rightarrow> u64 \<Rightarrow> u64 \<Rightarrow> nat \<Rightarrow> nat \<Rightarrow> 'a fd_state_scheme \<Rightarrow> (nat \<times> 'a fd_state_scheme) option" where
  "read_device ops handle dst done remain s =
     (if remain > 0
      then let n = min remain DEV_CHUNK; (bs, s1) = ops_read ops handle n s
           in if bs = [] then Some (done, s1)
              else case store_user bs (dst + word_of_nat done) s1 of
                     None \<Rightarrow> None
                   | Some s2 \<Rightarrow>
                       if length bs < n then Some (done + length bs, s2)
                       else read_device ops handle dst (done + length bs) (remain - length bs) s2
      else Some (done, s))"
  by pat_completeness auto
termination by (relation "measure (\<lambda>(ops, handle, dst, done, remain, s). remain)") auto

declare read_device.simps [simp del]

definition read_entry_fd :: "u64 \<Rightarrow> fd_entry option \<Rightarrow> u64 \<Rightarrow> u64 \<Rightarrow> 'a fd_state_scheme \<Rightarrow> (u64 \<times> 'a fd_state_scheme) option" where
  "read_entry_fd fd entry buf_ptr buf_len s =
     (case entry of
        Some Fd_ConsoleIn \<Rightarrow>
          (case (if kbd_locked_out s then (None, s) else get_raw s) of
             (Some ch, s') \<Rightarrow> return_bytes [ch] buf_ptr s'
           | (None, s') \<Rightarrow> Some (sleep_on Wait_Keyboard s'))
      | Some (Fd_PipeRead pipe) \<Rightarrow> read_pipe_fd pipe buf_ptr buf_len s
      | Some (Fd_File node gen offset) \<Rightarrow> read_file_fd fd node gen offset buf_ptr buf_len s
      | Some (Fd_Device ops handle) \<Rightarrow>
          map_option (\<lambda>(n, s'). (word_of_nat n, s')) (read_device ops handle buf_ptr 0 (unat buf_len) s)
      | _ \<Rightarrow> Some (u64_max, s))"

definition sys_read :: "u64 \<Rightarrow> u64 \<Rightarrow> u64 \<Rightarrow> 'a fd_state_scheme \<Rightarrow> (u64 \<times> 'a fd_state_scheme) option" where
  "sys_read fd buf_ptr buf_len s =
     (if buf_ptr = 0 \<or> buf_len = 0 then Some (0, s)
      else case validate_range buf_ptr buf_len True (vm (mach s)) of
        None \<Rightarrow> None
      | Some False \<Rightarrow> Some (u64_max, s)
      | Some True \<Rightarrow> read_entry_fd fd (get_fd (caller_pid s) (unat fd) s) buf_ptr buf_len s)"

function write_device :: "device_ops \<Rightarrow> u64 \<Rightarrow> u64 \<Rightarrow> nat \<Rightarrow> nat \<Rightarrow> 'a fd_state_scheme \<Rightarrow> (nat \<times> 'a fd_state_scheme) option" where
  "write_device ops handle src done remain s =
     (if remain > 0
      then let n = min remain DEV_CHUNK
           in case load_user n (src + word_of_nat done) s of
                None \<Rightarrow> None
              | Some bs \<Rightarrow>
                  (let (written, s1) = ops_write ops handle bs s
                   in if written = 0 then Some (done, s1)
                      else if written < n then Some (done + written, s1)
                      else write_device ops handle src (done + written) (remain - written) s1)
      else Some (done, s))"
  by pat_completeness auto
termination by (relation "measure (\<lambda>(ops, handle, src, done, remain, s). remain)") auto

declare write_device.simps [simp del]

definition write_entry_fd :: "u64 \<Rightarrow> fd_entry option \<Rightarrow> u64 \<Rightarrow> u64 \<Rightarrow> 'a fd_state_scheme \<Rightarrow> (u64 \<times> 'a fd_state_scheme) option" where
  "write_entry_fd fd entry buf_ptr buf_len s =
     (case entry of
        Some Fd_ConsoleOut \<Rightarrow>
          map_option (Pair buf_len)
            (print_user_bytes buf_ptr buf_len (OWNER s = None \<or> OWNER s = Some (caller_pid s)) s)
      | Some (Fd_PipeWrite pipe) \<Rightarrow>
          (case load_user (unat buf_len) buf_ptr s of
             None \<Rightarrow> None
           | Some kbuf \<Rightarrow>
               (let (n, s1) = pipe_write pipe kbuf s
                in map_option (Pair (word_of_nat n)) (notify_pipe_readers pipe s1)))
      | Some (Fd_File node gen offset) \<Rightarrow>
          (case load_user (unat buf_len) buf_ptr s of
             None \<Rightarrow> None
           | Some kbuf \<Rightarrow>
               (let (n, nodes) = vfs_write_at node gen offset kbuf (NODES s)
                in Some (word_of_nat n, snd (set_fd (caller_pid s) (unat fd) (Fd_File node gen (offset + n)) (s\<lparr>NODES := nodes\<rparr>)))))
      | Some (Fd_Device ops handle) \<Rightarrow>
          map_option (\<lambda>(n, s'). (word_of_nat n, s')) (write_device ops handle buf_ptr 0 (unat buf_len) s)
      | _ \<Rightarrow> Some (u64_max, s))"

definition sys_write :: "u64 \<Rightarrow> u64 \<Rightarrow> u64 \<Rightarrow> 'a fd_state_scheme \<Rightarrow> (u64 \<times> 'a fd_state_scheme) option" where
  "sys_write fd buf_ptr buf_len s =
     (if buf_ptr = 0 \<or> buf_len = 0 then Some (0, s)
      else case validate_range buf_ptr buf_len False (vm (mach s)) of
        None \<Rightarrow> None
      | Some False \<Rightarrow> Some (u64_max, s)
      | Some True \<Rightarrow> write_entry_fd fd (get_fd (caller_pid s) (unat fd) s) buf_ptr buf_len s)"

definition sys_ioctl :: "u64 \<Rightarrow> u64 \<Rightarrow> u64 \<Rightarrow> 'a fd_state_scheme \<Rightarrow> u64 \<times> 'a fd_state_scheme" where
  "sys_ioctl fd cmd arg s =
     (case get_fd (caller_pid s) (unat fd) s of
        Some (Fd_Device ops handle) \<Rightarrow> ops_ioctl ops handle cmd arg s
      | _ \<Rightarrow> (u64_max, s))"

end
