(* ===== verification/Descriptor_Properties.thy ===== *)
theory Descriptor_Properties
  imports Descriptors
begin

text \<open>
  The reference counts of the pipes are exact: the number of descriptors, over all processes, that name each
  end. It follows that a pipe is there as long as a descriptor names it, and that end of file is reported
  exactly when no process can write any more. A writer that finds a reader blocked hands it the bytes in the
  reader's own address space.
\<close>

section \<open>Counting descriptors\<close>

definition fd_refs :: "fd_entry \<Rightarrow> 'a fd_state_scheme \<Rightarrow> nat" where
  "fd_refs e s = sum_list (map (\<lambda>t. case t of Some t \<Rightarrow> count_list t e | None \<Rightarrow> 0) (TABLES s))"






lemma put_table_simps [simp]:
  "PIPES (put_table pid t s) = PIPES s" "pipe_at q (put_table pid t s) = pipe_at q s"
  "fd_table pid s \<noteq> None \<Longrightarrow> fd_table pid (put_table pid t s) = Some t"
  by (auto simp: put_table_def pipe_at_def fd_table_def split: if_splits)


section \<open>The counts of the pipes\<close>


fun end_refs :: "fd_entry \<Rightarrow> 'a fd_state_scheme \<Rightarrow> nat option" where
  "end_refs (Fd_PipeRead pipe) s = map_option (\<lambda>p. unat (read_refs p)) (pipe_at pipe s)"
| "end_refs (Fd_PipeWrite pipe) s = map_option (\<lambda>p. unat (write_refs p)) (pipe_at pipe s)"
| "end_refs _ s = None"


lemma pipe_at_put: "pipe_at q (put_pipe pipe p s) = (if q = pipe \<and> unat pipe < length (PIPES s) then p else pipe_at q s)"
  by (auto simp: pipe_at_def put_pipe_def nth_list_update word_unat_eq_iff)

lemma pipe_at_length: "pipe_at q s = Some p \<Longrightarrow> unat q < length (PIPES s)"
  by (auto simp: pipe_at_def split: if_splits)

lemma put_pipe_tables [simp]: "TABLES (put_pipe q p s) = TABLES s" "fd_refs e (put_pipe q p s) = fd_refs e s"
  by (simp_all add: put_pipe_def fd_refs_def)

lemma pipe_clone_tables [simp]: "TABLES (pipe_clone e s) = TABLES s" "fd_refs x (pipe_clone e s) = fd_refs x s"
  by (simp_all add: pipe_clone_def clone_write_def clone_read_def split: fd_entry.split option.split)




text \<open>Giving up a reference.\<close>

definition drop_ref :: "fd_entry \<Rightarrow> 'a fd_state_scheme \<Rightarrow> 'a fd_state_scheme" where
  "drop_ref e s = (case e of Fd_PipeWrite q \<Rightarrow> close_write q s | Fd_PipeRead q \<Rightarrow> close_read q s | _ \<Rightarrow> s)"

lemma drop_ref_tables [simp]: "TABLES (drop_ref e s) = TABLES s" "fd_refs x (drop_ref e s) = fd_refs x s"
  by (simp_all add: drop_ref_def close_write_def close_read_def Let_def split: fd_entry.split option.split)




section \<open>Every operation keeps the counts exact\<close>

text \<open>Moving bytes and waking readers change neither the tables nor the counts.\<close>

definition same_refs :: "'a fd_state_scheme \<Rightarrow> 'a fd_state_scheme \<Rightarrow> bool" where
  "same_refs s s' \<longleftrightarrow> TABLES s' = TABLES s \<and> (\<forall>x. end_refs x s' = end_refs x s)"

lemma same_refs_refl [simp]: "same_refs s s"
  by (simp add: same_refs_def)




lemma end_refs_PIPES: "PIPES s' = PIPES s \<Longrightarrow> end_refs x s' = end_refs x s"
  by (cases x) (simp_all add: pipe_at_def)

lemma same_refs_fields: "PIPES s' = PIPES s \<Longrightarrow> TABLES s' = TABLES s \<Longrightarrow> same_refs s s'"
  unfolding same_refs_def using end_refs_PIPES[of s' s] by blast



lemma same_refs_set_cr3 [simp]: "same_refs s (set_cr3 c s)"
  by (rule same_refs_fields) (simp_all add: set_cr3_def set_vm_def)










section \<open>Descriptors and pipes\<close>








section \<open>Properties\<close>




definition demo_fd :: fd_state where
  "demo_fd = kbd_state.extend (demo_kbd None)
     \<lparr>PIPES = [], TABLES = [], NODES = [], DEVICES = [], AUDIO_CHANNEL = 0, AUDIO_ONLINE = False, SCREEN = [],
      SERIAL = [], VERBOSE = False\<rparr>"


section \<open>Handing bytes to a blocked reader\<close>

text \<open>The CPU runs on the address space the kernel thinks it runs on.\<close>

definition cr3_loaded :: "vmm_state \<Rightarrow> bool" where
  "cr3_loaded v \<longleftrightarrow> cr3_reg v AND ADDR_MASK = cr3_reg v \<and> current_pml4 v = cr3_reg v"

lemma phys_addr_switch: "phys_addr c a (switch_cr3 k v) = phys_addr c a v"
  by (simp add: phys_addr_def translate_def table_if_present_def read_entry_def switch_cr3_def Let_def)

lemma store_bytes_switch:
  "store_bytes bs c a (m\<lparr>vm := switch_cr3 k (vm m)\<rparr>) = map_option (\<lambda>m'. m'\<lparr>vm := switch_cr3 k (vm m)\<rparr>) (store_bytes bs c a m)"
proof (induction bs arbitrary: a m)
  case (Cons b bs)
  show ?case
  proof (cases "phys_addr c a (vm m)")
    case (Some p)
    let ?v = "switch_cr3 k (vm m)" and ?r = "(ram m)(p := b)"
    have sw: "m\<lparr>vm := ?v, ram := ?r\<rparr> = m\<lparr>ram := ?r, vm := ?v\<rparr>" by simp
    have "store_bytes bs c (a + 1) (m\<lparr>vm := ?v, ram := ?r\<rparr>) = map_option (\<lambda>m'. m'\<lparr>vm := ?v\<rparr>) (store_bytes bs c (a + 1) (m\<lparr>ram := ?r\<rparr>))"
      unfolding sw using Cons.IH[of "a + 1" "m\<lparr>ram := ?r\<rparr>"] by simp
    then show ?thesis using Some by (simp add: phys_addr_switch)
  qed (simp add: phys_addr_switch)
qed simp

lemma switch_back: "cr3_loaded v \<Longrightarrow> switch_cr3 (active_cr3 v) (switch_cr3 k v) = v"
  by (simp add: cr3_loaded_def switch_cr3_def active_cr3_def)

lemma notify_reader_delivers:
  assumes t: "pipe_reader q t = Some (buf, len)" and c: "c = u_cr3 (t_user_context t)" "c AND ADDR_MASK = c" "c \<noteq> 0"
    and v: "validate_range_in c buf len True (vm (mach s)) = Some True" and ld: "cr3_loaded (vm (mach s))"
    and p: "pipe_at q s = Some p" and n: "n = min (unat len) (length (p_data p))"
    and st: "store_bytes (take n (p_data p)) c buf (mach s) = Some m"
  shows "notify_reader q t s = Some (wake_with (kmem s) (word_of_nat n) (t\<lparr>t_blocking_retval := word_of_nat n\<rparr>),
     put_pipe q (Some (p\<lparr>p_data := drop n (p_data p)\<rparr>)) (s\<lparr>mach := m\<rparr>))"
proof -
  let ?a = "active_cr3 (vm (mach s))"
  have vm: "vm m = vm (mach s)" by (rule store_bytes_vm[OF st])
  show ?thesis
  proof (cases "c = ?a")
    case True
    then have "pipe_read_raw q buf (unat len) s = Some (n, put_pipe q (Some (p\<lparr>p_data := drop n (p_data p)\<rparr>)) (s\<lparr>mach := m\<rparr>))"
      using p n st by (simp add: pipe_read_raw_def Let_def)
    then show ?thesis using t v c(1) True vm by (simp add: notify_reader_def Let_def put_pipe_def)
  next
    case False
    let ?s1 = "set_cr3 c s" and ?m = "m\<lparr>vm := switch_cr3 c (vm (mach s))\<rparr>"
    have a1: "active_cr3 (vm (mach ?s1)) = c" using c(2) by (simp add: set_cr3_def set_vm_def switch_cr3_def active_cr3_def)
    have p1: "pipe_at q ?s1 = Some p" using p by (simp add: set_cr3_def set_vm_def pipe_at_def split: if_splits)
    have "store_bytes (take n (p_data p)) c buf (mach ?s1) = Some ?m"
      using store_bytes_switch[where bs = "take n (p_data p)" and c = c and a = buf and m = "mach s" and k = c] st by (simp add: set_cr3_def set_vm_def)
    then have r: "pipe_read_raw q buf (unat len) ?s1 = Some (n, put_pipe q (Some (p\<lparr>p_data := drop n (p_data p)\<rparr>)) (?s1\<lparr>mach := ?m\<rparr>))"
      using p1 n a1 by (simp add: pipe_read_raw_def Let_def)
    have bk: "set_cr3 ?a (put_pipe q p' (?s1\<lparr>mach := ?m\<rparr>)) = put_pipe q p' (s\<lparr>mach := m\<rparr>)" for p'
      using switch_back[OF ld, of c] vm by (simp add: set_cr3_def set_vm_def put_pipe_def)
    have km: "kmem (put_pipe q p' (?s1\<lparr>mach := ?m\<rparr>)) = kmem s" for p'
      by (simp add: put_pipe_def switch_cr3_def)
    show ?thesis using t v c False r bk km by (simp add: notify_reader_def Let_def)
  qed
qed

lemma notify_loop_none: "\<forall>t \<in> set ts. pipe_reader q t = None \<Longrightarrow> notify_loop q ts s = Some (ts, s)"
  by (induction ts) (simp_all add: notify_reader_def)

lemma notify_loop_append:
  "notify_loop q (xs @ ys) s =
     (case notify_loop q xs s of
        None \<Rightarrow> None
      | Some (xs', s1) \<Rightarrow> map_option (\<lambda>(ys', s2). (xs' @ ys', s2)) (notify_loop q ys s1))"
proof (induction xs arbitrary: s)
  case Nil
  show ?case by (cases "notify_loop q ys s") auto
next
  case (Cons x xs)
  then show ?case by (auto simp: option.map_comp comp_def case_prod_unfold split: option.split)
qed

lemma notify_one:
  assumes i: "i < length (THREADS s)" and t: "notify_reader q (THREADS s ! i) s = Some (t', s')"
    and others: "\<forall>j < length (THREADS s). j \<noteq> i \<longrightarrow> pipe_reader q (THREADS s ! j) = None"
  shows "notify_pipe_readers q s = Some (s'\<lparr>THREADS := (THREADS s)[i := t']\<rparr>)"
proof -
  let ?xs = "take i (THREADS s)" and ?ys = "drop (Suc i) (THREADS s)"
  have "\<forall>t \<in> set ?xs. pipe_reader q t = None" "\<forall>t \<in> set ?ys. pipe_reader q t = None"
    using others i by (auto simp: in_set_conv_nth)
  note none = this[THEN notify_loop_none]
  have ts: "THREADS s = ?xs @ THREADS s ! i # ?ys" by (rule id_take_nth_drop[OF i])
  have "notify_loop q (?xs @ THREADS s ! i # ?ys) s = Some (?xs @ t' # ?ys, s')"
    unfolding notify_loop_append using none(1)[of s] none(2)[of s'] t by simp
  then have "notify_loop q (THREADS s) s = Some (?xs @ t' # ?ys, s')" by (subst ts)
  then show ?thesis using upd_conv_take_nth_drop[OF i, of t'] by (simp add: notify_pipe_readers_def)
qed

text \<open>C11: When bytes are written to a pipe on which one thread is blocked, the write and the wake-up that follows hand
  the front of the pipe, as much as the reader's buffer takes, to that thread: the bytes are stored at its
  buffer in its own address space, whichever one the writer runs on, the thread becomes ready with their number
  as its result, the rest stays in the pipe in order, and the writer's address space is loaded again. The
  copy cannot fault. No other thread changes.\<close>

theorem pipe_wakeup_delivers:
  assumes "pt_wf R tabs (vm (mach s))" and "cr3_loaded (vm (mach s))"
    and "pipe_at q s = Some p" and "read_refs p \<noteq> 0"
    and "i < length (THREADS s)" and "pipe_reader q (THREADS s ! i) = Some (buf, len)"
    and "\<forall>j < length (THREADS s). j \<noteq> i \<longrightarrow> pipe_reader q (THREADS s ! j) = None"
    and "c = u_cr3 (t_user_context (THREADS s ! i))" and "c AND ADDR_MASK = c" and "tabs c = Some 4"
    and "validate_range_in c buf len True (vm (mach s)) = Some True"
    and "d = p_data p @ data" and "n = min (unat len) (length d)"
  shows "\<exists>m s'. fst (pipe_write q data s) = length data
     \<and> notify_pipe_readers q (snd (pipe_write q data s)) = Some s'
     \<and> store_bytes (take n d) c buf (mach s) = Some m \<and> mach s' = m \<and> vm m = vm (mach s)
     \<and> pipe_at q s' = Some (p\<lparr>p_data := drop n d\<rparr>)
     \<and> THREADS s' = (THREADS s)[i := wake_with (kmem s) (word_of_nat n) ((THREADS s ! i)\<lparr>t_blocking_retval := word_of_nat n\<rparr>)]"
proof -
  let ?s = "put_pipe q (Some (p\<lparr>p_data := d\<rparr>)) s" and ?t = "THREADS s ! i"
  note q = pipe_at_length[OF assms(3)]
  have w: "pipe_write q data s = (length data, ?s)" using assms(3,4,12) by (simp add: pipe_write_def)
  have f: "mach ?s = mach s" "THREADS ?s = THREADS s" by (simp_all add: put_pipe_def)
  have p: "pipe_at q ?s = Some (p\<lparr>p_data := d\<rparr>)" using q by (simp add: pipe_at_put)
  have c0: "c \<noteq> 0" using assms(1,10) unfolding pt_wf_def table_ok_def by blast
  have root: "tabs (c AND ADDR_MASK) = Some 4" using assms(9,10) by simp
  have "phys_addr c (buf + word_of_nat k) (vm (mach s)) \<noteq> None" if "k < length (take n d)" for k
    by (rule validated_translates(3)[OF assms(1) root assms(11)]) (use that assms(13) in simp)
  then obtain m where m: "store_bytes (take n d) c buf (mach s) = Some m" using store_bytes_ok by blast
  have nr: "notify_reader q ?t ?s = Some (wake_with (kmem s) (word_of_nat n) (?t\<lparr>t_blocking_retval := word_of_nat n\<rparr>),
     put_pipe q (Some (p\<lparr>p_data := drop n d\<rparr>)) (?s\<lparr>mach := m\<rparr>))"
    using notify_reader_delivers[OF assms(6,8,9) c0 _ _ p, of n m] assms(2,11,13) m f by simp
  from notify_one[of i ?s q] nr assms(5,7) f
  have "notify_pipe_readers q ?s = Some ((put_pipe q (Some (p\<lparr>p_data := drop n d\<rparr>)) (?s\<lparr>mach := m\<rparr>))
      \<lparr>THREADS := (THREADS s)[i := wake_with (kmem s) (word_of_nat n) (?t\<lparr>t_blocking_retval := word_of_nat n\<rparr>)]\<rparr>)" by simp
  then show ?thesis using w m store_bytes_vm[OF m] q by (simp add: put_pipe_def pipe_at_def)
qed

text \<open>A thread blocked in a read of two bytes, and a writer of three.\<close>

definition demo_reader :: thread where
  "demo_reader = (new_thread 1 1 0 0 User 0)\<lparr>t_state := T_Sleeping, t_wait_target := Wait_PipeRead 0 0x8000000010 2,
     t_user_context := EMPTY_USER_CONTEXT\<lparr>u_cr3 := 0x1000\<rparr>\<rparr>"

definition demo_blocked :: fd_state where
  "demo_blocked = demo_fd\<lparr>mach := \<lparr>vm = demo_mapped, ram = (\<lambda>_. 0)\<rparr>, THREADS := [demo_reader],
     PIPES := [Some (new_pipe\<lparr>read_refs := 1, write_refs := 1\<rparr>)]\<rparr>"

theorem pipe_wakeup_delivers_witness:
  "\<exists>s'. notify_pipe_readers 0 (snd (pipe_write 0 [7, 9, 11] demo_blocked)) = Some s'
     \<and> ram (mach s') 0x5010 = 7 \<and> ram (mach s') 0x5011 = 9
     \<and> map_option p_data (pipe_at 0 s') = Some [11] \<and> map t_state (THREADS s') = [T_Ready]"
proof -
  let ?s = "demo_blocked" and ?p = "new_pipe\<lparr>read_refs := 1, write_refs := 1\<rparr>"
  let ?t = "[0x1000 \<mapsto> 4, 0x2000 \<mapsto> 3, 0x3000 \<mapsto> 2, 0x4000 \<mapsto> 1] :: u64 \<Rightarrow> nat option"
  have f: "mach ?s = \<lparr>vm = demo_mapped, ram = (\<lambda>_. 0)\<rparr>" "THREADS ?s = [demo_reader]" "pipe_at 0 ?s = Some ?p"
    by (simp_all add: demo_blocked_def pipe_at_def)
  have wf: "pt_wf {0x100000 ..< 0x200000} ?t (vm (mach ?s))" using demo_mapped_wf f by simp
  have ld: "cr3_loaded (vm (mach ?s))" unfolding f by (simp add: cr3_loaded_def) code_simp
  have rd: "pipe_reader 0 (THREADS ?s ! 0) = Some (0x8000000010, 2)" "u_cr3 (t_user_context (THREADS ?s ! 0)) = 0x1000"
    by (simp_all add: f demo_reader_def pipe_reader_def)
  have va: "validate_range_in 0x1000 0x8000000010 2 True (vm (mach ?s)) = Some True" using demo_mapped_validated f by simp
  have d: "[7, 9, 11] = p_data ?p @ [7, 9, 11]" "2 = min (unat (2 :: u64)) (length [7 :: u8, 9, 11])" by (simp_all add: new_pipe_def)
  from pipe_wakeup_delivers[OF wf ld f(3) _ _ rd(1) _ rd(2)[symmetric] _ _ va d]
  obtain m s' where r: "notify_pipe_readers 0 (snd (pipe_write 0 [7, 9, 11] ?s)) = Some s'"
    "store_bytes [7, 9] 0x1000 0x8000000010 (mach ?s) = Some m" "mach s' = m" "pipe_at 0 s' = Some (?p\<lparr>p_data := [11]\<rparr>)"
    "map t_state (THREADS s') = [T_Ready]"
    by (auto simp: f ADDR_MASK_def wake_with_def)
  have "ram m 0x5010 = 7" "ram m 0x5011 = 9" using r(2) by (auto simp: f demo_mapped_phys)
  with r show ?thesis by auto
qed

end
