(* ===== verification/Console_Properties.thy ===== *)
theory Console_Properties
  imports File_Calls Descriptor_Properties
begin

text \<open>
  Text written to the console. \<open>print_user_bytes\<close> copies it in chunks of 256 bytes and prints only valid UTF-8,
  so a chunk may end inside a character; valid text is nevertheless printed completely.
\<close>

section \<open>Printing text in chunks\<close>
















end
