(* ===== verification/Spec2Isabelle.thy ===== *)
theory Spec2Isabelle
  imports Task_Properties Ipc Context_Switch Uaccess Pmm Boot_Image Console_Properties
begin

text \<open>
  \<^bold>\<open>A verification library for the KazuOS kernel.\<close>

  KazuOS is a hobby operating system in Rust for x86-64 machines with several CPUs. Its kernel
  (\<^verbatim>\<open>src/crates/kernel/src\<close>) manages physical frames, page tables and a heap, runs threads of user
  processes round robin on every CPU, and offers system calls for files, pipes, devices, messages and
  signals. The build script (\<^verbatim>\<open>src/crates/kernel/build.rs\<close>) packs the user programs into the image
  the kernel boots from. The library models these parts one theory each, bottom up, and proves what each
  promises to the parts above it.

  \<^bold>\<open>Conventions.\<close> A machine integer is a word of its width (\<open>u8\<close> to \<open>u64\<close>), \<open>usize\<close> is \<open>nat\<close>, a \<open>Vec\<close> or
  slice is a list, a string is its list of bytes. A static is a field of a state record; the records of the
  components extend one another (\<open>task_state\<close>, \<open>ipc_state\<close>, \<open>kbd_state\<close>, \<open>fd_state\<close>), and an operation is typed
  over the scheme of the record it needs, so it applies in every later theory unchanged. What runs under
  one of the kernel's locks with interrupts off is one function; the locks themselves are modelled at the
  level of their atomic accesses. A result of type \<open>option\<close> where the source has none is \<open>None\<close> for a page fault
  in the kernel or a loop that does not end, and theorems show that it does not occur. Kernel memory is a map
  from addresses to words (page tables, kernel stacks), user memory one from physical addresses to bytes.

  \<^bold>\<open>Theories and what they show.\<close>

  \<^item> \<open>Kazu_Prelude\<close>: checked arithmetic, \<open>iter().position\<close>, \<open>resize\<close>, ranges, little-endian encodings, and the
    lemmas on them that all components share.
  \<^item> \<open>Pmm\<close> (\<^verbatim>\<open>memory/pmm.rs\<close>): the bitmap of frames refines the set of free frames; allocation of one frame and
    of a run, initialisation from the firmware's map, consistent statistics.
  \<^item> \<open>Locks\<close> (\<^verbatim>\<open>util.rs\<close>): mutual exclusion of the spin lock and of the reentrant lock under every interleaving
    of atomic accesses, as step relations over all CPUs; nesting.
  \<^item> \<open>Kernel_Heap\<close> (\<^verbatim>\<open>memory/allocator.rs\<close>): free, cached and live blocks partition the heap; an allocation is
    aligned, inside the heap and disjoint from all live ones.
  \<^item> \<open>Vmm\<close>, \<open>Address_Space\<close> (\<^verbatim>\<open>memory/vmm.rs\<close>): the four-level page tables refine a map from pages to frames;
    mapping, unmapping, permissions, creation and release of address spaces.
  \<^item> \<open>Uaccess\<close> (\<^verbatim>\<open>memory/uaccess.rs\<close>): the check of a user range returns and is exact; checked copies do not fault
    and touch only the physical bytes behind the range; what was written is read back.
  \<^item> \<open>Task_Types\<close>, \<open>Thread_Table\<close>, \<open>Process_Table\<close>, \<open>Scheduler\<close> (\<^verbatim>\<open>task/thread.rs\<close>, \<^verbatim>\<open>task/process.rs\<close>,
    \<^verbatim>\<open>task/scheduler.rs\<close>): the tables, their operations, the choice of the next thread and the stack frames.
    \<open>Task_Invariant\<close> has the invariant and one preservation lemma per operation; \<open>Task_Properties\<close> the properties:
    the invariant in every reachable state, safe exit of threads, fairness, dispatch, enumeration, protection of
    system processes from kill requests, the choice of the out-of-memory victim.
  \<^item> \<open>Context_Switch\<close> (\<^verbatim>\<open>handlers/interrupts.rs\<close>, \<^verbatim>\<open>syscall.rs\<close>): the assembly of entry and exit on words of the
    stack; a preempted or blocked thread resumes with the registers it had.
  \<^item> \<open>Ipc\<close> (\<^verbatim>\<open>ipc.rs\<close>): channels refine bounded queues, stay within their limits, and lose no wake-up.
  \<^item> \<open>Vfs\<close>, \<open>Vfs_Properties\<close> (\<^verbatim>\<open>fs/vfs.rs\<close>, \<^verbatim>\<open>fs/devfs.rs\<close>): the slot table is a tree of unique valid paths; errors
    of creation; handles of removed files are inert; reads return what was written.
  \<^item> \<open>Boot_Image\<close> (\<^verbatim>\<open>build.rs\<close>, \<open>parse_kxe\<close> of \<^verbatim>\<open>task/exec.rs\<close>): the image the build script packs is unpacked to the
    files and programs it was packed from.
  \<^item> \<open>Keyboard\<close> (\<^verbatim>\<open>drivers/keyboard.rs\<close>): decoding and delivery of keys; the rings are bounded queues, and typed
    characters reach only the process with the focus.
  \<^item> \<open>Descriptors\<close>, \<open>File_Calls\<close> (\<^verbatim>\<open>fs/pipe.rs\<close>, \<^verbatim>\<open>fs/fd.rs\<close>, \<^verbatim>\<open>drivers/audio.rs\<close>, \<^verbatim>\<open>syscall/runtime.rs\<close>): pipes,
    descriptor tables, the audio device and the system calls on them. \<open>Descriptor_Properties\<close>: the reference
    counts of pipes are exact, and a write hands its bytes to a blocked reader in the reader's address space.
    \<open>Console_Properties\<close>: valid text is printed completely although chunks may split a character.

  \<^bold>\<open>Interfaces.\<close> Where a component relies on another through a contract, the contract is a locale and the
  component's definitions an interpretation of it, for instance the bounded queue of the keyboard rings.

  \<^bold>\<open>Bounds.\<close> Loops are structural recursion or have a termination measure; the only partial function is the loop
  of the range check, whose termination is a theorem. The bounds 64 of \<open>foreground_leaf\<close> and 32 of \<open>keyboard_poll\<close>
  are those of the source.

  \<^bold>\<open>Not modelled.\<close> The start-up of the CPUs and of the descriptor tables (\<^verbatim>\<open>arch\<close>), the interrupt controllers,
  timers, PCI, ACPI, serial and power drivers, which are sequences of port and register accesses; drawing on the
  console and the framebuffer; shared memory, the loading of an executable into an address space, driver
  modules and \<open>exit_current\<close>, which ties all subsystems together at the end of a process; the boot loader; the
  user programs and their runtime; the part of the build script that runs the compiler and reads ELF files.
\<close>

end
